(* ===== verification/Prelude.thy ===== *)
theory Prelude
  imports Main "HOL-Library.Word" "HOL-Library.Monad_Syntax"
begin

text \<open>
  Shared types and lemmas of the development.

  \<^item> The machine types of the code: \<open>u8\<close> \dots \<open>u64\<close> for the fixed-width unsigned
    integers, \<open>bytes\<close> for a memory region read as bytes. A C \<open>int\<close> that holds a size
    or a position is an \<open>int\<close>; the invariants of the components bound it.
  \<^item> \<open>memcpy\<close> as a partial operation on byte regions: \<open>None\<close> is an access outside a
    region, which C leaves undefined. All models use \<open>None\<close> for undefined behaviour,
    a failed \<open>assert\<close> or a loop that does not end.
  \<^item> Little-endian reading of packed structures.
\<close>

unbundle bit_operations_syntax

type_synonym u8 = "8 word"
type_synonym u16 = "16 word"
type_synonym u32 = "32 word"
type_synonym u64 = "64 word"
type_synonym bytes = "u8 list"

named_theorems mem_simps \<open>facts that evaluate accesses to byte regions\<close>

section \<open>Copying between regions\<close>

text \<open>
  \<open>memcpy dst d src s n\<close> is the C call \<open>memcpy(&dst[d], &src[s], n)\<close>.
\<close>

definition memcpy :: "'a list \<Rightarrow> int \<Rightarrow> 'a list \<Rightarrow> int \<Rightarrow> int \<Rightarrow> 'a list option" where
  "memcpy dst d src s n =
     (if 0 \<le> n \<and> 0 \<le> d \<and> 0 \<le> s \<and> d + n \<le> int (length dst) \<and> s + n \<le> int (length src)
      then Some (take (nat d) dst @ take (nat n) (drop (nat s) src) @ drop (nat (d + n)) dst)
      else None)"

lemma memcpy_ok [mem_simps]:
  "0 \<le> n \<Longrightarrow> 0 \<le> d \<Longrightarrow> 0 \<le> s \<Longrightarrow> d + n \<le> int (length dst) \<Longrightarrow> s + n \<le> int (length src) \<Longrightarrow>
   memcpy dst d src s n =
     Some (take (nat d) dst @ take (nat n) (drop (nat s) src) @ drop (nat (d + n)) dst)"
  unfolding memcpy_def by (simp only: if_True simp_thms)

lemma memcpy_SomeD:
  assumes "memcpy dst d src s n = Some r"
  shows "0 \<le> n \<and> 0 \<le> d \<and> 0 \<le> s \<and> d + n \<le> int (length dst) \<and> s + n \<le> int (length src)"
  using assms unfolding memcpy_def by (metis option.distinct(1))

lemma memcpy_NatE:
  assumes "memcpy dst d src s n = Some r"
  obtains d' s' n' where "d = int d'" "s = int s'" "n = int n'"
    "d' + n' \<le> length dst" "s' + n' \<le> length src"
    "r = take d' dst @ take n' (drop s' src) @ drop (d' + n') dst"
proof -
  note b = memcpy_SomeD [OF assms]
  show thesis
  proof (rule that [of "nat d" "nat s" "nat n"])
    show "d = int (nat d)" "s = int (nat s)" "n = int (nat n)" using b by simp_all
    show "nat d + nat n \<le> length dst" "nat s + nat n \<le> length src" using b by linarith+
    have "r = take (nat d) dst @ take (nat n) (drop (nat s) src) @ drop (nat (d + n)) dst"
      using assms b by (simp only: memcpy_def if_True simp_thms option.inject)
    then show "r = take (nat d) dst @ take (nat n) (drop (nat s) src) @ drop (nat d + nat n) dst"
      using b by (simp add: nat_add_distrib)
  qed
qed

lemma memcpy_length: "memcpy dst d src s n = Some r \<Longrightarrow> length r = length dst"
  by (elim memcpy_NatE) simp

text \<open>A region inside and outside the copied range.\<close>

lemma memcpy_nth_in:
  "memcpy dst d src s n = Some r \<Longrightarrow> nat d \<le> i \<Longrightarrow> i < nat (d + n) \<Longrightarrow>
   r ! i = src ! (nat s + (i - nat d))"
  by (elim memcpy_NatE) (auto simp: nth_append nat_int_add)

lemma memcpy_nth_out:
  "memcpy dst d src s n = Some r \<Longrightarrow> i < nat d \<or> nat (d + n) \<le> i \<Longrightarrow> i < length dst \<Longrightarrow>
   r ! i = dst ! i"
  by (elim memcpy_NatE) (auto simp: nth_append nat_int_add)

text \<open>What a region holds after a copy, read back at the place it was copied to.\<close>

lemma memcpy_read_back:
  "memcpy dst d src s n = Some r \<Longrightarrow>
   take (nat n) (drop (nat d) r) = take (nat n) (drop (nat s) src)"
  by (elim memcpy_NatE) simp

lemma memcpy_int:
  "d' + n' \<le> length dst \<Longrightarrow> s' + n' \<le> length src \<Longrightarrow>
   memcpy dst (int d') src (int s') (int n') =
     Some (take d' dst @ take n' (drop s' src) @ drop (d' + n') dst)"
  by (simp add: memcpy_def nat_int_add)

section \<open>Slices\<close>

definition slice :: "'a list \<Rightarrow> nat \<Rightarrow> nat \<Rightarrow> 'a list" where
  "slice xs i n = take n (drop i xs)"

lemma length_slice [simp]: "length (slice xs i n) = min n (length xs - i)"
  by (simp add: slice_def)

lemma slice_append: "slice xs i m @ slice xs (i + m) n = slice xs i (m + n)"
  by (simp add: slice_def take_add add.commute)

lemma slice_0 [simp]: "slice xs i 0 = []"
  by (simp add: slice_def)

lemma slice_all [simp]: "length xs \<le> n \<Longrightarrow> slice xs 0 n = xs"
  by (simp add: slice_def)

section \<open>Little-endian fields\<close>

text \<open>
  The code reads a packed structure straight into memory and passes each field through
  \<open>itpLetoh16/32/64\<close>. On the little-endian targets these are the identity, on big-endian ones
  a byte swap; either way the value is the little-endian reading of the bytes.
\<close>

fun le_val :: "bytes \<Rightarrow> nat" where
  "le_val [] = 0"
| "le_val (b # bs) = unat b + 256 * le_val bs"

definition le32 :: "bytes \<Rightarrow> u32" where
  "le32 bs = word_of_nat (le_val (take 4 bs))"

definition le64 :: "bytes \<Rightarrow> u64" where
  "le64 bs = word_of_nat (le_val (take 8 bs))"

lemma le_val_bound: "le_val bs < 256 ^ length bs"
proof (induction bs)
  case (Cons b bs)
  have "unat b < 256" using unsigned_less [of b] by simp
  with Cons show ?case by simp
qed simp

lemma le_val_inj: "length as = length bs \<Longrightarrow> le_val as = le_val bs \<Longrightarrow> as = bs"
proof (induction as bs rule: list_induct2)
  case (Cons a as b bs)
  have a: "unat a < 256" and b: "unat b < 256"
    using unsigned_less [of a] unsigned_less [of b] by simp_all
  from Cons.prems have eq: "unat a + 256 * le_val as = unat b + 256 * le_val bs" by simp
  then have "(unat a + 256 * le_val as) mod 256 = (unat b + 256 * le_val bs) mod 256" by simp
  with a b have "unat a = unat b" by simp
  with eq have "le_val as = le_val bs" by simp
  with Cons.IH \<open>unat a = unat b\<close> show ?case by (simp add: unsigned_word_eqI)
qed simp

lemma unat_le32: "unat (le32 bs) = le_val (take 4 bs)"
proof -
  have "le_val (take 4 bs) < 256 ^ length (take 4 bs)" by (rule le_val_bound)
  also have "\<dots> \<le> (256::nat) ^ 4" by (rule power_increasing) auto
  finally show ?thesis by (simp add: le32_def unat_of_nat)
qed

lemma unat_le64: "unat (le64 bs) = le_val (take 8 bs)"
proof -
  have "le_val (take 8 bs) < 256 ^ length (take 8 bs)" by (rule le_val_bound)
  also have "\<dots> \<le> (256::nat) ^ 8" by (rule power_increasing) auto
  finally show ?thesis by (simp add: le64_def unat_of_nat)
qed

lemma le32_inj: "length as = 4 \<Longrightarrow> length bs = 4 \<Longrightarrow> le32 as = le32 bs \<Longrightarrow> as = bs"
  using unat_le32 [of as] unat_le32 [of bs] by (simp add: le_val_inj)

text \<open>The inverse: the bytes of a 32-bit value in memory order.\<close>

definition le32_bytes :: "u32 \<Rightarrow> bytes" where
  "le32_bytes w = [ucast w, ucast (drop_bit 8 w), ucast (drop_bit 16 w), ucast (drop_bit 24 w)]"

lemma length_le32_bytes [simp]: "length (le32_bytes w) = 4"
  by (simp add: le32_bytes_def)

lemma le32_le32_bytes [simp]: "le32 (le32_bytes w) = w"
proof -
  have split4: "n mod 256 + 256 * ((n div 256) mod 256 + 256 * ((n div 65536) mod 256
       + 256 * ((n div 16777216) mod 256))) = n mod 4294967296" for n :: nat
  proof -
    have "n mod 4294967296 = n mod (65536 * 65536)" by simp
    also have "\<dots> = 65536 * (n div 65536 mod 65536) + n mod 65536"
      by (simp only: mod_mult2_eq)
    also have "n div 65536 mod 65536 = n div 65536 mod (256 * 256)" by simp
    also have "\<dots> = 256 * (n div 65536 div 256 mod 256) + n div 65536 mod 256"
      by (simp only: mod_mult2_eq)
    also have "n mod 65536 = n mod (256 * 256)" by simp
    also have "\<dots> = 256 * (n div 256 mod 256) + n mod 256"
      by (simp only: mod_mult2_eq)
    also have "n div 65536 div 256 = n div 16777216" by (simp add: div_mult2_eq [symmetric])
    finally show ?thesis by simp
  qed
  have w: "unat w < 4294967296" using unsigned_less [of w] by simp
  have "le_val (le32_bytes w) = unat w"
    by (simp add: le32_bytes_def unsigned_ucast_eq unat_drop_bit_eq drop_bit_eq_div [where 'a = nat]
        take_bit_eq_mod split4 [of "unat w", simplified] w)
  then show ?thesis by (simp add: le32_def)
qed

section \<open>Exclusive or\<close>

lemma xor_exchange: "a XOR b = c XOR d \<Longrightarrow> a XOR c = b XOR d" for a :: "'a::len word"
  by (rule bit_word_eqI) (metis bit_xor_iff)

lemma xor_zero_iff: "a XOR b = 0 \<longleftrightarrow> a = b" for a :: "'a::len word"
  using xor_exchange [of a b 0 0] by auto

section \<open>Alignment\<close>

text \<open>\<open>ITH_ALIGN_UP(value, align)\<close> of \<open>ite/ith.h\<close>, on 32-bit unsigned operands.\<close>

definition ITH_ALIGN_UP :: "u32 \<Rightarrow> u32 \<Rightarrow> u32" where
  "ITH_ALIGN_UP v a = (v + (a - 1)) AND NOT (a - 1)"

end
