(* ===== verification/ITC_Stream.thy ===== *)
theory ITC_Stream
  imports Prelude
begin

text \<open>
  The stream interface of the \<open>itc\<close> library (\<open>sdk/include/ite/itc.h\<close>,
  \<open>sdk/share/itc/itc_stream.c\<close>): the base structure, the table of function pointers, the
  default functions that \<open>itcStreamOpen\<close> installs, and the contract \<open>itc_source\<close>
  on which the readers of a stream (the upgrade library) rely.

  A stream object of the code is the base structure extended by the fields of its class, so it
  is a record extension of \<open>itc_stream\<close>. Its function pointers are constant per class:
  they are the class' value of type \<open>itc_vt\<close>. A call through a pointer that is \<open>NULL\<close> is
  undefined; the lock functions, which only some classes have, are therefore options.

  Every operation returns an option: \<open>None\<close> is undefined behaviour (an access outside a
  buffer) or a failed assertion. A read gets the memory its \<open>buf\<close> points to and returns
  it with the bytes it has written there.
\<close>

record itc_stream =
  st_eof :: bool
  st_size :: int

record 's itc_vt =
  vt_size :: "'s \<Rightarrow> int"
  vt_Close :: "'s \<Rightarrow> (int \<times> 's) option"
  vt_Read :: "'s \<Rightarrow> bytes \<Rightarrow> int \<Rightarrow> (int \<times> bytes \<times> 's) option"
  vt_Write :: "'s \<Rightarrow> bytes \<Rightarrow> int \<Rightarrow> (int \<times> 's) option"
  vt_Seek :: "'s \<Rightarrow> int \<Rightarrow> int \<Rightarrow> (int \<times> 's) option"
  vt_Tell :: "'s \<Rightarrow> (int \<times> 's) option"
  vt_Available :: "'s \<Rightarrow> (int \<times> 's) option"
  vt_ReadLock :: "('s \<Rightarrow> int \<Rightarrow> (int \<times> int \<times> 's) option) option"
  vt_ReadUnlock :: "('s \<Rightarrow> int \<Rightarrow> 's option) option"
  vt_WriteLock :: "('s \<Rightarrow> int \<Rightarrow> (int \<times> int \<times> 's) option) option"
  vt_WriteUnlock :: "('s \<Rightarrow> int \<Rightarrow> 's option) option"

text \<open>The constants of \<open>stdio.h\<close> that select the origin of a seek.\<close>

abbreviation (input) SEEK_SET :: int where "SEEK_SET \<equiv> 0"
abbreviation (input) SEEK_CUR :: int where "SEEK_CUR \<equiv> 1"
abbreviation (input) SEEK_END :: int where "SEEK_END \<equiv> 2"

section \<open>The default functions\<close>

definition StreamClose :: "'s \<Rightarrow> (int \<times> 's) option" where
  "StreamClose s = Some (0, s)"

definition StreamRead :: "'s \<Rightarrow> bytes \<Rightarrow> int \<Rightarrow> (int \<times> bytes \<times> 's) option" where
  "StreamRead s buf n = Some (0, buf, s)"

definition StreamWrite :: "'s \<Rightarrow> bytes \<Rightarrow> int \<Rightarrow> (int \<times> 's) option" where
  "StreamWrite s buf n = Some (0, s)"

definition StreamSeek :: "'s \<Rightarrow> int \<Rightarrow> int \<Rightarrow> (int \<times> 's) option" where
  "StreamSeek s offset origin = Some (0, s)"

definition StreamTell :: "'s \<Rightarrow> (int \<times> 's) option" where
  "StreamTell s = Some (0, s)"

definition StreamAvailable :: "'s \<Rightarrow> (int \<times> 's) option" where
  "StreamAvailable s = Some (0, s)"

text \<open>
  \<open>itcStreamOpen\<close> resets the two base fields and installs the defaults; each class then
  replaces the pointers it implements.
\<close>

definition itcStreamOpen :: "'a itc_stream_scheme \<Rightarrow> 'a itc_stream_scheme" where
  "itcStreamOpen s = s\<lparr>st_eof := False, st_size := 0\<rparr>"

definition itcStreamOpen_vt :: "'a itc_stream_scheme itc_vt" where
  "itcStreamOpen_vt =
     \<lparr>vt_size = st_size, vt_Close = StreamClose, vt_Read = StreamRead, vt_Write = StreamWrite,
      vt_Seek = StreamSeek, vt_Tell = StreamTell, vt_Available = StreamAvailable,
      vt_ReadLock = None, vt_ReadUnlock = None, vt_WriteLock = None, vt_WriteUnlock = None\<rparr>"

section \<open>The contract of a readable stream\<close>

text \<open>
  Where a seek would lead, from the origin, the stream's size and its position.
\<close>

definition seek_target :: "int \<Rightarrow> int \<Rightarrow> nat \<Rightarrow> nat \<Rightarrow> int" where
  "seek_target origin offset len pos =
     (if origin = SEEK_SET then offset
      else if origin = SEEK_CUR then int pos + offset else int len + offset)"

text \<open>
  The contract: a stream denotes a fixed byte string \<open>contents\<close> and a \<open>cursor\<close> in it.
  A read copies what is left, up to the count asked for, to the front of the buffer and
  advances the cursor; a seek to a position strictly inside the string moves the cursor there
  and returns 0 (what a seek to the end or outside does differs between the classes, so the
  contract is silent on it).
\<close>

locale itc_source =
  fixes vt :: "'s itc_vt"
    and inv :: "'s \<Rightarrow> bool"
    and contents :: "'s \<Rightarrow> bytes"
    and cursor :: "'s \<Rightarrow> nat"
  assumes cursor_le: "inv s \<Longrightarrow> cursor s \<le> length (contents s)"
    and size_contents: "inv s \<Longrightarrow> vt_size vt s = int (length (contents s))"
    and read_law: "inv s \<Longrightarrow> n \<le> length buf \<Longrightarrow> k = min n (length (contents s) - cursor s) \<Longrightarrow>
      \<exists>s'. vt_Read vt s buf (int n) = Some (int k, slice (contents s) (cursor s) k @ drop k buf, s') \<and>
           inv s' \<and> contents s' = contents s \<and> cursor s' = cursor s + k"
    and seek_law: "inv s \<Longrightarrow> origin \<in> {SEEK_SET, SEEK_CUR, SEEK_END} \<Longrightarrow>
      seek_target origin offset (length (contents s)) (cursor s) = int t \<Longrightarrow>
      t < length (contents s) \<Longrightarrow>
      \<exists>s'. vt_Seek vt s offset origin = Some (0, s') \<and>
           inv s' \<and> contents s' = contents s \<and> cursor s' = t"
    and tell_law: "inv s \<Longrightarrow> vt_Tell vt s = Some (int (cursor s), s)"
    and available_law:
      "inv s \<Longrightarrow> vt_Available vt s = Some (int (length (contents s)) - int (cursor s), s)"
    and close_law: "inv s \<Longrightarrow> \<exists>r s'. vt_Close vt s = Some (r, s')"
begin

text \<open>The two reads a client makes: of bytes that are there, and at the end.\<close>

lemma read_exact:
  assumes "inv s" "n \<le> length buf" "cursor s + n \<le> length (contents s)"
  obtains s' where "vt_Read vt s buf (int n) = Some (int n, slice (contents s) (cursor s) n @ drop n buf, s')"
    "inv s'" "contents s' = contents s" "cursor s' = cursor s + n"
  using read_law [OF assms(1,2) refl] assms(3) by (auto simp: min_absorb1)

lemma read_short:
  assumes "inv s" "n \<le> length buf" "length (contents s) < cursor s + n"
  obtains k b s' where "vt_Read vt s buf (int n) = Some (int k, b, s')" "k < n" "length b = length buf"
    "inv s'" "contents s' = contents s" "cursor s' = length (contents s)"
proof -
  let ?k = "length (contents s) - cursor s"
  have k: "?k = min n ?k" "?k < n" using assms(3) cursor_le [OF assms(1)] by auto
  obtain s' where s': "vt_Read vt s buf (int n) =
        Some (int ?k, slice (contents s) (cursor s) ?k @ drop ?k buf, s')"
      "inv s'" "contents s' = contents s" "cursor s' = cursor s + ?k"
    using read_law [OF assms(1,2) k(1)] by blast
  show thesis
    by (rule that [OF s'(1) k(2) _ s'(2,3)]) (use s'(4) k(2) assms(2) cursor_le [OF assms(1)] in simp_all)
qed

text \<open>A read from memory that the stream owns never changes what the stream denotes.\<close>

lemma read_contents:
  assumes "inv s" "n \<le> length buf" "vt_Read vt s buf (int n) = Some (r, b, s')"
  shows "inv s' \<and> contents s' = contents s \<and> cursor s \<le> cursor s' \<and> length b = length buf"
  using read_law [OF assms(1,2) refl] assms(2,3) by auto

lemma seek_set:
  assumes "inv s" "t < length (contents s)"
  obtains s' where "vt_Seek vt s (int t) SEEK_SET = Some (0, s')"
    "inv s'" "contents s' = contents s" "cursor s' = t"
  using seek_law [OF assms(1), of SEEK_SET "int t" t] assms(2) by (auto simp: seek_target_def)

lemma seek_end:
  assumes "inv s" "0 < n" "n \<le> length (contents s)"
  obtains s' where "vt_Seek vt s (- int n) SEEK_END = Some (0, s')"
    "inv s'" "contents s' = contents s" "cursor s' = length (contents s) - n"
proof -
  have "length (contents s) - n < length (contents s)" using assms(2,3) by linarith
  then show thesis
    using seek_law [OF assms(1), of SEEK_END "- int n" "length (contents s) - n"] assms(3) that
    by (auto simp: seek_target_def)
qed

lemma seek_cur_back:
  assumes "inv s" "0 < n" "n \<le> cursor s"
  obtains s' where "vt_Seek vt s (- int n) SEEK_CUR = Some (0, s')"
    "inv s'" "contents s' = contents s" "cursor s' = cursor s - n"
proof -
  have "cursor s - n < length (contents s)" using assms(2,3) cursor_le [OF assms(1)] by linarith
  then show thesis
    using seek_law [OF assms(1), of SEEK_CUR "- int n" "cursor s - n"] assms(3) that
    by (auto simp: seek_target_def)
qed

end

section \<open>What the reading operations keep\<close>

text \<open>
  A predicate on the stream that reading, seeking, asking for the position and closing keep, also
  when they fail.
\<close>

locale stream_frame =
  fixes vt :: "'s itc_vt"
    and keeps :: "'s \<Rightarrow> bool"
  assumes read_frame: "keeps s \<Longrightarrow> vt_Read vt s buf n = Some (r, b, s') \<Longrightarrow> keeps s'"
    and seek_frame: "keeps s \<Longrightarrow> vt_Seek vt s offset origin = Some (r, s') \<Longrightarrow> keeps s'"
    and tell_frame: "keeps s \<Longrightarrow> vt_Tell vt s = Some (r, s') \<Longrightarrow> keeps s'"
    and close_frame: "keeps s \<Longrightarrow> vt_Close vt s = Some (r, s') \<Longrightarrow> keeps s'"

end
