(* ===== verification/Stdio.thy ===== *)
theory Stdio
  imports ITC_Stream
begin

text \<open>
  The part of the C standard library the upgrade code uses on files: \<open>stdio.h\<close> with the modes
  \<open>rb\<close> and \<open>wb\<close>, and \<open>fstat\<close>. A file system maps paths (byte strings) to the
  bytes of the files. What can go wrong is part of it: \<open>fs_creat\<close> says which paths can be
  created or removed, \<open>fs_room\<close> how many more bytes can be written before a write comes up short,
  \<open>fs_keep\<close> what the medium makes of a byte written at a position of a file (the byte itself
  when it is sound), \<open>fs_fault\<close> from which position on a file cannot be read, and
  \<open>fs_stat\<close> whether \<open>fstat\<close> works. A handle is a
  path, a position and its mode; \<open>fs_dirs\<close> says which paths are directories; writes go to the medium at once (no claim is made about what a
  power loss leaves of buffered data).
\<close>

type_synonym path = bytes

record fsys =
  fs_files :: "path \<Rightarrow> bytes option"
  fs_creat :: "path \<Rightarrow> bool"
  fs_room :: nat
  fs_keep :: "path \<Rightarrow> nat \<Rightarrow> u8 \<Rightarrow> u8"
  fs_fault :: "path \<Rightarrow> nat option"
  fs_stat :: bool
  fs_dirs :: "path \<Rightarrow> bool"

record FILE =
  f_path :: path
  f_pos :: nat
  f_write :: bool

definition file_bytes :: "fsys \<Rightarrow> path \<Rightarrow> bytes" where
  "file_bytes fs p = (case fs_files fs p of None \<Rightarrow> [] | Some b \<Rightarrow> b)"

definition writable :: "fsys \<Rightarrow> path \<Rightarrow> bool" where
  "writable fs p \<longleftrightarrow> fs_creat fs p \<and> \<not> fs_dirs fs p"

definition fopen :: "fsys \<Rightarrow> path \<Rightarrow> bool \<Rightarrow> FILE option \<times> fsys" where
  "fopen fs p write =
     (if write then
        (if writable fs p
         then (Some \<lparr>f_path = p, f_pos = 0, f_write = True\<rparr>, fs\<lparr>fs_files := (fs_files fs)(p := Some [])\<rparr>)
         else (None, fs))
      else
        (case fs_files fs p of
           None \<Rightarrow> (None, fs)
         | Some _ \<Rightarrow> (Some \<lparr>f_path = p, f_pos = 0, f_write = False\<rparr>, fs)))"

text \<open>\<open>fread(buf, 1, n, file)\<close>: the count read, the memory of \<open>buf\<close> and the handle.\<close>

definition readable_end :: "fsys \<Rightarrow> path \<Rightarrow> nat" where
  "readable_end fs p =
     (case fs_fault fs p of None \<Rightarrow> length (file_bytes fs p)
      | Some k \<Rightarrow> min k (length (file_bytes fs p)))"

definition fread :: "fsys \<Rightarrow> FILE \<Rightarrow> bytes \<Rightarrow> int \<Rightarrow> (int \<times> bytes \<times> FILE) option" where
  "fread fs h buf n =
     (let k = (if f_write h then 0 else min n (int (readable_end fs (f_path h) - f_pos h))) in
      do {
        buf \<leftarrow> memcpy buf 0 (file_bytes fs (f_path h)) (if k = 0 then 0 else int (f_pos h)) k;
        Some (k, buf, h\<lparr>f_pos := f_pos h + nat k\<rparr>)
      })"

text \<open>\<open>fwrite(buf, 1, n, file)\<close>; a gap behind the end of the file is filled with zeros.\<close>

definition overwrite :: "bytes \<Rightarrow> nat \<Rightarrow> bytes \<Rightarrow> bytes" where
  "overwrite old pos new =
     take pos (old @ replicate (pos - length old) 0) @ new @ drop (pos + length new) old"

definition kept :: "fsys \<Rightarrow> path \<Rightarrow> nat \<Rightarrow> bytes \<Rightarrow> bytes" where
  "kept fs p pos bs = map (\<lambda>i. fs_keep fs p (pos + i) (bs ! i)) [0..<length bs]"

definition fwrite :: "fsys \<Rightarrow> FILE \<Rightarrow> bytes \<Rightarrow> int \<Rightarrow> (int \<times> FILE \<times> fsys) option" where
  "fwrite fs h buf n =
     (if n < 0 \<or> int (length buf) < n then None
      else
        let k = (if f_write h then min (nat n) (fs_room fs) else 0);
            data = overwrite (file_bytes fs (f_path h)) (f_pos h)
              (kept fs (f_path h) (f_pos h) (take k buf))
        in Some (int k, h\<lparr>f_pos := f_pos h + k\<rparr>,
             (if f_write h
              then fs\<lparr>fs_files := (fs_files fs)(f_path h := Some data), fs_room := fs_room fs - k\<rparr>
              else fs)))"

definition fseek :: "fsys \<Rightarrow> FILE \<Rightarrow> int \<Rightarrow> int \<Rightarrow> int \<times> FILE" where
  "fseek fs h offset origin =
     (if origin \<notin> {SEEK_SET, SEEK_CUR, SEEK_END} then (-1, h)
      else
        let t = seek_target origin offset (length (file_bytes fs (f_path h))) (f_pos h) in
        if t < 0 then (-1, h) else (0, h\<lparr>f_pos := nat t\<rparr>))"

definition ftell :: "FILE \<Rightarrow> int" where
  "ftell h = int (f_pos h)"

text \<open>A sound medium.\<close>

definition fs_sound :: "fsys \<Rightarrow> bool" where
  "fs_sound fs \<longleftrightarrow> (\<forall>p i b. fs_keep fs p i b = b) \<and> (\<forall>p. fs_fault fs p = None) \<and> fs_stat fs"

lemma fs_soundD:
  "fs_sound fs \<Longrightarrow> fs_fault fs p = None" "fs_sound fs \<Longrightarrow> fs_stat fs"
  "fs_sound fs \<Longrightarrow> fs_keep fs p i b = b"
  by (simp_all add: fs_sound_def)

lemma length_kept [simp]: "length (kept fs p pos bs) = length bs"
  by (simp add: kept_def)

lemma kept_sound: "fs_sound fs \<Longrightarrow> kept fs p pos bs = bs"
  by (simp add: kept_def fs_sound_def map_nth)

text \<open>The bytes a C \<open>int\<close> keeps of a size.\<close>

definition c_int :: "int \<Rightarrow> int" where
  "c_int n = sint (word_of_int n :: u32)"

lemma c_int_small [simp]: "0 \<le> n \<Longrightarrow> n < 2 ^ 31 \<Longrightarrow> c_int n = n"
  by (simp add: c_int_def sint_uint uint_word_of_int_eq signed_take_bit_int_eq_self take_bit_int_eq_self)

section \<open>C strings\<close>

text \<open>
  \<open>ug_strlen\<close> is \<open>strlen\<close> of the string at an offset of a region, undefined when the region
  ends before a terminator; \<open>str_at\<close> is the string there.
\<close>

definition ug_strlen :: "bytes \<Rightarrow> nat \<Rightarrow> nat option" where
  "ug_strlen buf i = (if \<exists>b \<in> set (drop i buf). b = 0
     then Some (length (takeWhile (\<lambda>c. c \<noteq> 0) (drop i buf))) else None)"

text \<open>The string at an offset.\<close>

definition str_at :: "bytes \<Rightarrow> nat \<Rightarrow> bytes option" where
  "str_at buf i = map_option (\<lambda>n. slice buf i n) (ug_strlen buf i)"

lemma str_at_name:
  "0 \<notin> set name \<Longrightarrow> str_at (a @ name @ 0 # r) (length a) = Some name"
  using takeWhile_eq_all_conv [of "\<lambda>c. c \<noteq> 0" name]
  by (fastforce simp: str_at_def ug_strlen_def slice_def takeWhile_tail)

text \<open>Memory that is as long as asked for, when there is any.\<close>

definition alloc_sized :: "(nat \<Rightarrow> bytes option) \<Rightarrow> bool" where
  "alloc_sized malloc \<longleftrightarrow> (\<forall>n b. malloc n = Some b \<longrightarrow> length b = n)"

end
