(* ===== verification/ITC_File_Stream.thy ===== *)
theory ITC_File_Stream
  imports Stdio
begin

text \<open>
  The file stream (\<open>sdk/share/itc/itc_filestream.c\<close>): the stream interface over a
  \<open>stdio\<close> handle. The state carries the file system the handle works on. The lemmas show
  that a stream opened for reading on a file of the medium implements the contract
  \<open>itc_source\<close>, so everything proved about readers of streams holds for files.
\<close>

record file_stream = itc_stream +
  fst_file :: "FILE option"
  fst_fs :: fsys

definition itcFileStreamClose :: "file_stream \<Rightarrow> (int \<times> file_stream) option" where
  "itcFileStreamClose s =
     (case fst_file s of None \<Rightarrow> Some (0, s) | Some h \<Rightarrow> Some (0, s\<lparr>fst_file := None\<rparr>))"

definition FileStreamRead :: "file_stream \<Rightarrow> bytes \<Rightarrow> int \<Rightarrow> (int \<times> bytes \<times> file_stream) option" where
  "FileStreamRead s buf n = do {
     h \<leftarrow> fst_file s;
     (r, buf, h) \<leftarrow> fread (fst_fs s) h buf n;
     Some (r, buf, s\<lparr>fst_file := Some h\<rparr>)
   }"

definition FileStreamWrite :: "file_stream \<Rightarrow> bytes \<Rightarrow> int \<Rightarrow> (int \<times> file_stream) option" where
  "FileStreamWrite s buf n = do {
     h \<leftarrow> fst_file s;
     (r, h, fs) \<leftarrow> fwrite (fst_fs s) h buf n;
     Some (r, s\<lparr>fst_file := Some h, fst_fs := fs\<rparr>)
   }"

definition FileStreamSeek :: "file_stream \<Rightarrow> int \<Rightarrow> int \<Rightarrow> (int \<times> file_stream) option" where
  "FileStreamSeek s offset origin = do {
     h \<leftarrow> fst_file s;
     let (r, h) = fseek (fst_fs s) h offset origin;
     Some (r, s\<lparr>fst_file := Some h\<rparr>)
   }"

definition FileStreamTell :: "file_stream \<Rightarrow> (int \<times> file_stream) option" where
  "FileStreamTell s = do { h \<leftarrow> fst_file s; Some (ftell h, s) }"

definition FileStreamAvailable :: "file_stream \<Rightarrow> (int \<times> file_stream) option" where
  "FileStreamAvailable s = do { h \<leftarrow> fst_file s; Some (st_size s - ftell h, s) }"

definition file_stream_vt :: "file_stream itc_vt" where
  "file_stream_vt = itcStreamOpen_vt
     \<lparr>vt_Close := itcFileStreamClose, vt_Read := FileStreamRead, vt_Write := FileStreamWrite,
      vt_Seek := FileStreamSeek, vt_Tell := FileStreamTell, vt_Available := FileStreamAvailable\<rparr>"

definition itcFileStreamOpen :: "fsys \<Rightarrow> file_stream \<Rightarrow> path \<Rightarrow> bool \<Rightarrow> int \<times> file_stream" where
  "itcFileStreamOpen fs s filename write =
     (let s = itcStreamOpen s;
          (file, fs) = fopen fs filename write;
          s = s\<lparr>fst_file := file, fst_fs := fs\<rparr>
      in if file = None then (81, s)
         else if \<not> fs_stat fs then (87, s)
         else (0, s\<lparr>st_size := c_int (int (length (file_bytes fs filename)))\<rparr>))"

section \<open>The file stream implements the contract\<close>

text \<open>
  A stream on a readable file, open for reading: its contents are the bytes of the file.
\<close>

definition file_contents :: "file_stream \<Rightarrow> bytes" where
  "file_contents s = (case fst_file s of None \<Rightarrow> [] | Some h \<Rightarrow> file_bytes (fst_fs s) (f_path h))"

definition file_cursor :: "file_stream \<Rightarrow> nat" where
  "file_cursor s = (case fst_file s of None \<Rightarrow> 0 | Some h \<Rightarrow> f_pos h)"

definition file_inv :: "fsys \<Rightarrow> file_stream \<Rightarrow> bool" where
  "file_inv fs s \<longleftrightarrow> fst_fs s = fs \<and> (\<exists>h. fst_file s = Some h \<and> \<not> f_write h \<and> fs_fault (fst_fs s) (f_path h) = None \<and>
     f_pos h \<le> length (file_contents s) \<and> st_size s = int (length (file_contents s)))"

lemma file_invE:
  assumes "file_inv fs s"
  obtains h where "fst_file s = Some h" "\<not> f_write h" "fs_fault (fst_fs s) (f_path h) = None"
    "f_pos h \<le> length (file_contents s)" "st_size s = int (length (file_contents s))"
    "file_contents s = file_bytes (fst_fs s) (f_path h)" "file_cursor s = f_pos h"
  using assms by (auto simp: file_inv_def file_contents_def file_cursor_def)

lemma file_inv_fs: "file_inv fs s \<Longrightarrow> fst_fs s = fs"
  by (simp add: file_inv_def)

lemma file_read:
  assumes "file_inv fs s" "n \<le> length buf" "k = min n (length (file_contents s) - file_cursor s)"
  shows "\<exists>s'. FileStreamRead s buf (int n) =
      Some (int k, slice (file_contents s) (file_cursor s) k @ drop k buf, s') \<and>
    file_inv fs s' \<and> file_contents s' = file_contents s \<and> file_cursor s' = file_cursor s + k \<and>
    fst_fs s' = fst_fs s"
proof -
  obtain h where h: "fst_file s = Some h" "\<not> f_write h" "fs_fault (fst_fs s) (f_path h) = None"
    "f_pos h \<le> length (file_contents s)" "st_size s = int (length (file_contents s))"
    "file_contents s = file_bytes (fst_fs s) (f_path h)" "file_cursor s = f_pos h"
    using assms(1) by (rule file_invE)
  let ?s = "s\<lparr>fst_file := Some (h\<lparr>f_pos := f_pos h + k\<rparr>)\<rparr>"
  have k: "min (int n) (int (readable_end (fst_fs s) (f_path h) - f_pos h)) = int k"
    using h assms(3) by (simp add: readable_end_def)
  have m: "memcpy buf 0 (file_contents s) (if int k = 0 then 0 else int (f_pos h)) (int k) =
      Some (slice (file_contents s) (f_pos h) k @ drop k buf)"
  proof (cases "k = 0")
    case True
    then show ?thesis using memcpy_int [of 0 0 buf 0 "file_contents s"] by simp
  next
    case False
    have "k \<le> length buf" "f_pos h + k \<le> length (file_contents s)" using assms(2,3) h(4,7) by auto
    then show ?thesis using memcpy_int [of 0 k buf "f_pos h" "file_contents s"] False by (simp add: slice_def)
  qed
  have "FileStreamRead s buf (int n) = Some (int k, slice (file_contents s) (f_pos h) k @ drop k buf, ?s)"
    using h(1,2) k m by (simp add: FileStreamRead_def fread_def h(6) [symmetric] Let_def)
  moreover have "file_contents ?s = file_contents s" using h by (simp add: file_contents_def)
  moreover have "file_inv fs ?s" using h assms(1,3) calculation(2) by (auto simp: file_inv_def)
  ultimately show ?thesis using h by (auto simp: file_cursor_def)
qed

lemma file_seek:
  assumes "file_inv fs s" "origin \<in> {SEEK_SET, SEEK_CUR, SEEK_END}"
    "seek_target origin offset (length (file_contents s)) (file_cursor s) = int t"
    "t < length (file_contents s)"
  shows "\<exists>s'. FileStreamSeek s offset origin = Some (0, s') \<and>
    file_inv fs s' \<and> file_contents s' = file_contents s \<and> file_cursor s' = t"
proof -
  obtain h where h: "fst_file s = Some h" "\<not> f_write h" "fs_fault (fst_fs s) (f_path h) = None"
    "f_pos h \<le> length (file_contents s)" "st_size s = int (length (file_contents s))"
    "file_contents s = file_bytes (fst_fs s) (f_path h)" "file_cursor s = f_pos h"
    using assms(1) by (rule file_invE)
  let ?s = "s\<lparr>fst_file := Some (h\<lparr>f_pos := t\<rparr>)\<rparr>"
  have "FileStreamSeek s offset origin = Some (0, ?s)"
    using assms(2,3) h by (simp add: FileStreamSeek_def fseek_def Let_def)
  moreover have "file_contents ?s = file_contents s" using h by (simp add: file_contents_def)
  moreover have "file_inv fs ?s" using h assms(1,4) calculation(2) by (auto simp: file_inv_def)
  ultimately show ?thesis by (auto simp: file_cursor_def)
qed

lemmas file_vt_simps = file_stream_vt_def itcStreamOpen_vt_def FileStreamTell_def
  FileStreamAvailable_def itcFileStreamClose_def ftell_def

interpretation file_src: itc_source file_stream_vt "file_inv fs" file_contents file_cursor for fs
proof
  fix s :: file_stream and n k :: nat and buf :: bytes
  assume "file_inv fs s" "n \<le> length buf" "k = min n (length (file_contents s) - file_cursor s)"
  from file_read [OF this] show "\<exists>s'. vt_Read file_stream_vt s buf (int n) =
      Some (int k, slice (file_contents s) (file_cursor s) k @ drop k buf, s') \<and>
      file_inv fs s' \<and> file_contents s' = file_contents s \<and> file_cursor s' = file_cursor s + k"
    by (auto simp: file_vt_simps)
next
  fix s :: file_stream and origin offset :: int and t :: nat
  assume "file_inv fs s" "origin \<in> {SEEK_SET, SEEK_CUR, SEEK_END}"
    "seek_target origin offset (length (file_contents s)) (file_cursor s) = int t"
    "t < length (file_contents s)"
  from file_seek [OF this] show "\<exists>s'. vt_Seek file_stream_vt s offset origin = Some (0, s') \<and>
      file_inv fs s' \<and> file_contents s' = file_contents s \<and> file_cursor s' = t"
    by (auto simp: file_vt_simps)
qed (auto simp: file_vt_simps file_cursor_def elim!: file_invE)

text \<open>What opening gives.\<close>

lemma file_open_read:
  assumes "fs_files fs p = Some b" "fs_fault fs p = None" "fs_stat fs" "length b < 2 ^ 31"
  shows "\<exists>s'. itcFileStreamOpen fs s p False = (0, s') \<and> file_inv fs s' \<and> file_contents s' = b \<and>
    file_cursor s' = 0 \<and> fst_fs s' = fs \<and> st_size s' = int (length b)"
  using assms by (auto simp: itcFileStreamOpen_def itcStreamOpen_def fopen_def Let_def file_inv_def
      file_contents_def file_cursor_def file_bytes_def)

lemma file_open_missing:
  "fs_files fs p = None \<Longrightarrow> \<exists>s'. itcFileStreamOpen fs s p False = (81, s') \<and> fst_fs s' = fs"
  by (auto simp: itcFileStreamOpen_def fopen_def Let_def)

text \<open>No reading operation changes the file system.\<close>

interpretation file_frame: stream_frame file_stream_vt "\<lambda>s. fst_fs s = fs" for fs
  by unfold_locales (auto simp: file_vt_simps FileStreamRead_def FileStreamSeek_def bind_eq_Some_conv
      Let_def case_prod_beta split: option.splits)

lemma file_close_ok: "\<exists>s'. itcFileStreamClose s = Some (0, s') \<and> fst_fs s' = fst_fs s"
  by (cases "fst_file s") (simp_all add: itcFileStreamClose_def)

text \<open>Writing a whole file.\<close>

lemma file_write_whole:
  assumes "writable fs p" "fs_sound fs" "n \<le> length buf" "n \<le> fs_room fs"
  shows "\<exists>s1 s2. itcFileStreamOpen fs s p True = (0, s1) \<and>
    FileStreamWrite s1 buf (int n) = Some (int n, s2) \<and>
    fst_fs s2 = fs\<lparr>fs_files := (fs_files fs)(p := Some (take n buf)), fs_room := fs_room fs - n\<rparr>"
proof -
  have "fs_sound (fs\<lparr>fs_files := F\<rparr>)" for F using assms(2) by (simp add: fs_sound_def)
  then show ?thesis
    using assms fs_soundD(2) [OF assms(2)]
    by (simp add: itcFileStreamOpen_def fopen_def Let_def FileStreamWrite_def fwrite_def overwrite_def
        file_bytes_def min_absorb1 kept_sound)
qed

end
