(* ===== verification/UG_Crc.thy ===== *)
theory UG_Crc
  imports ITC_Array_Stream ITC_File_Stream UG_Crc_Table
begin

text \<open>
  Checksums of packages and files (\<open>sdk/share/upgrade/ug_crc.c\<close>).

  The checksum is table driven. The code shifts the running value as a \<open>signed int\<close>, so the
  shift copies the sign bit and the result is not the standard CRC-32; \<open>crc_step\<close> models
  it with \<open>signed_drop_bit\<close>. A package ends in the checksum of all bytes before it, in
  little-endian order.

  \<open>ugCheckCrc\<close> reads a package through the stream interface in pieces of at most
  \<open>CFG_UG_BUF_SIZE\<close> bytes (the argument \<open>cfg\<close>), or at once into a buffer of its caller. The
  library allocates with \<open>malloc\<close>, which may fail; the argument \<open>malloc\<close> gives the fresh
  region or \<open>None\<close>. The lemmas of the contract \<open>itc_source\<close> show that the verdict depends
  only on the bytes of the stream and not on how they are cut into pieces, and that every change
  of a single byte changes the checksum.
\<close>

section \<open>The checksum\<close>

definition crc_step :: "u8 \<Rightarrow> u32 \<Rightarrow> u32" where
  "crc_step b crc = crc32_tab ! unat ((crc XOR ucast b) AND 0xFF) XOR signed_drop_bit 8 crc"

definition crc_bytes :: "bytes \<Rightarrow> u32 \<Rightarrow> u32" where
  "crc_bytes bs crc = fold crc_step bs crc"

text \<open>The trailing zero bytes: as many as the size is above a multiple of four.\<close>

definition crc_pad :: "nat \<Rightarrow> u32 \<Rightarrow> u32" where
  "crc_pad n crc = crc_bytes (replicate (n mod 4) 0) crc"

definition ugCalcBufferCrc :: "bytes \<Rightarrow> int \<Rightarrow> u32 option" where
  "ugCalcBufferCrc buffer sz =
     (if sz > int (length buffer) then None
      else Some (crc_pad (nat sz) (crc_bytes (take (nat sz) buffer) 0)))"

section \<open>Checking a package\<close>

abbreviation (input) UG_OUT_OF_MEM :: int where "UG_OUT_OF_MEM \<equiv> 3"

text \<open>
  The reading loop: the result is the error line (0 for none), the size of the last piece, the
  checksum so far, the buffer and the stream. With an empty buffer and bytes left the loop does
  not end.
\<close>

partial_function (option) crc_loop ::
    "'s itc_vt \<Rightarrow> int \<Rightarrow> u32 \<Rightarrow> 's \<Rightarrow> bytes \<Rightarrow> u32 \<Rightarrow> u32 \<Rightarrow> (int \<times> u32 \<times> u32 \<times> bytes \<times> 's) option" where
  "crc_loop vt line bufsize f buf filesize crc32val =
     (let readsize = (if filesize < bufsize then filesize else bufsize) in
      do {
        (r, buf, f) \<leftarrow> vt_Read vt f buf (sint readsize);
        if word_of_int r \<noteq> readsize then Some (line, readsize, crc32val, buf, f)
        else do {
          let crc32val = crc_bytes (take (unat readsize) buf) crc32val;
          let filesize = filesize - readsize;
          if 0 < filesize then crc_loop vt line bufsize f buf filesize crc32val
          else Some (0, readsize, crc32val, buf, f)
        }
      })"

text \<open>The common exit: a failed check closes the stream.\<close>

definition ugCheckCrc_end ::
    "'s itc_vt \<Rightarrow> int \<Rightarrow> bytes option \<Rightarrow> 's \<Rightarrow> (int \<times> bytes option \<times> 's) option" where
  "ugCheckCrc_end vt ret buffer f =
     (if ret \<noteq> 0 then do { (_, f) \<leftarrow> vt_Close vt f; Some (ret, buffer, f) }
      else Some (ret, buffer, f))"

definition ugCheckCrc ::
    "'s itc_vt \<Rightarrow> (nat \<Rightarrow> bytes option) \<Rightarrow> u32 \<Rightarrow> 's \<Rightarrow> bytes option \<Rightarrow> (int \<times> bytes option \<times> 's) option" where
  "ugCheckCrc vt malloc cfg f buffer = do {
     (r, f) \<leftarrow> vt_Seek vt f (-4) SEEK_END;
     if r \<noteq> 0 then ugCheckCrc_end vt 75 buffer f
     else do {
       (r, crcbytes, f) \<leftarrow> vt_Read vt f (replicate 4 0) 4;
       if (word_of_int r :: u32) \<noteq> 4 then ugCheckCrc_end vt 83 buffer f
       else do {
         let crc = le32 crcbytes;
         (pos, f) \<leftarrow> vt_Tell vt f;
         let filesize = (word_of_int pos :: u32) - 4;
         let bufsize = (case buffer of Some _ \<Rightarrow> filesize
                        | None \<Rightarrow> (if cfg < filesize then cfg else filesize));
         case (case buffer of Some b \<Rightarrow> Some b | None \<Rightarrow> malloc (unat bufsize)) of
           None \<Rightarrow> ugCheckCrc_end vt UG_OUT_OF_MEM buffer f
         | Some buf \<Rightarrow> do {
             (r, f) \<leftarrow> vt_Seek vt f 0 SEEK_SET;
             if r \<noteq> 0 then ugCheckCrc_end vt 114 buffer f
             else do {
               (ret, readsize, crc32val, buf, f) \<leftarrow> crc_loop vt 125 bufsize f buf filesize 0;
               let buffer = map_option (\<lambda>_. buf) buffer;
               if ret \<noteq> 0 then ugCheckCrc_end vt ret buffer f
               else if crc \<noteq> crc_pad (unat readsize) crc32val then ugCheckCrc_end vt 143 buffer f
               else do {
                 (r, f) \<leftarrow> vt_Seek vt f 0 SEEK_SET;
                 if r \<noteq> 0 then ugCheckCrc_end vt 150 buffer f
                 else ugCheckCrc_end vt 0 buffer f
               }
             }
           }
       }
     }
   }"


section \<open>One step determines its operands\<close>

lemma drop_bit_sar: "drop_bit 23 (signed_drop_bit 8 c) = (if bit c 31 then 511 else (0::u32))"
proof -
  have m: "(511::u32) = mask 9" by (simp add: mask_eq_exp_minus_1)
  show ?thesis
  proof (rule bit_word_eqI)
    fix n assume "n < LENGTH(32)"
    then show "bit (drop_bit 23 (signed_drop_bit 8 c)) n = bit (if bit c 31 then 511 else (0::u32)) n"
      unfolding m by (cases "n = 0") (auto simp: bit_simps dest: bit_imp_le_length)
  qed
qed

lemma crc_step_index:
  assumes "crc_step a c = crc_step b d"
  shows "(c XOR ucast a) AND 0xFF = (d XOR ucast b) AND 0xFF \<and> signed_drop_bit 8 c = signed_drop_bit 8 d"
proof -
  let ?i = "(c XOR ucast a) AND 0xFF" and ?j = "(d XOR ucast b) AND 0xFF"
  let ?T = "\<lambda>w :: u32. crc32_tab ! unat w"
  have eq: "?T ?i XOR ?T ?j = signed_drop_bit 8 c XOR signed_drop_bit 8 d"
    using assms unfolding crc_step_def by (rule xor_exchange)
  have "drop_bit 23 (?T ?i XOR ?T ?j) = 0 \<or> drop_bit 23 (?T ?i XOR ?T ?j) = 511"
    unfolding eq by (simp add: drop_bit_xor drop_bit_sar)
  then have ij: "?i = ?j"
    using crc32_tab_distinguishes [OF and_FF_less and_FF_less] by blast
  with eq have "signed_drop_bit 8 c XOR signed_drop_bit 8 d = 0" by simp
  then have "signed_drop_bit 8 c = signed_drop_bit 8 d" by (simp only: xor_zero_iff)
  with ij show ?thesis by blast
qed

lemma crc_step_inj_state: "crc_step a c = crc_step a d \<Longrightarrow> c = d"
proof -
  assume "crc_step a c = crc_step a d"
  note i = crc_step_index [OF this]
  have FF: "(0xFF::u32) = mask 8" by (simp add: mask_eq_exp_minus_1)
  show "c = d"
  proof (rule bit_word_eqI)
    fix n assume n: "n < LENGTH(32)"
    show "bit c n = bit d n"
    proof (cases "n < 8")
      case True
      have "bit ((c XOR ucast a) AND 0xFF) n = bit ((d XOR ucast a) AND 0xFF) n" using i by simp
      with True n show ?thesis unfolding FF by (auto simp: bit_simps)
    next
      case False
      have "bit (signed_drop_bit 8 c) (n - 8) = bit (signed_drop_bit 8 d) (n - 8)" using i by simp
      moreover have "n - 8 < 24" "8 + (n - 8) = n" using False n by auto
      ultimately show ?thesis by (simp add: bit_simps)
    qed
  qed
qed

lemma crc_step_inj_byte: "crc_step a c = crc_step b c \<Longrightarrow> a = b"
proof -
  assume "crc_step a c = crc_step b c"
  note i = crc_step_index [OF this]
  have FF: "(0xFF::u32) = mask 8" by (simp add: mask_eq_exp_minus_1)
  show "a = b"
  proof (rule bit_word_eqI)
    fix n assume n: "n < LENGTH(8)"
    have "bit ((c XOR ucast a) AND 0xFF) n = bit ((c XOR ucast b) AND 0xFF) n" using i by simp
    with n show "bit a n = bit b n" unfolding FF by (auto simp: bit_simps)
  qed
qed

lemma crc_bytes_simps [simp]:
  "crc_bytes [] c = c"
  "crc_bytes (b # bs) c = crc_bytes bs (crc_step b c)"
  "crc_bytes (as @ bs) c = crc_bytes bs (crc_bytes as c)"
  by (simp_all add: crc_bytes_def)

lemma crc_bytes_inj: "crc_bytes bs c = crc_bytes bs d \<Longrightarrow> c = d"
  by (induction bs arbitrary: c d) (auto dest: crc_step_inj_state)

lemma crc_pad_inj: "crc_pad n c = crc_pad n d \<Longrightarrow> c = d"
  by (auto simp: crc_pad_def dest: crc_bytes_inj)

lemma crc_one_byte:
  "a \<noteq> b \<Longrightarrow> crc_bytes (xs @ a # ys) c \<noteq> crc_bytes (xs @ b # ys) c"
  by (auto dest!: crc_bytes_inj crc_step_inj_byte)

text \<open>The checksum as a function of the bytes alone.\<close>

definition crc_of :: "bytes \<Rightarrow> u32" where
  "crc_of bs = crc_pad (length bs) (crc_bytes bs 0)"

lemma ugCalcBufferCrc_crc_of:
  "ugCalcBufferCrc buf (int (length buf)) = Some (crc_of buf)"
  by (simp add: ugCalcBufferCrc_def crc_of_def)

lemma crc_of_one_byte: "a \<noteq> b \<Longrightarrow> crc_of (xs @ a # ys) \<noteq> crc_of (xs @ b # ys)"
  unfolding crc_of_def using crc_one_byte crc_pad_inj by fastforce


section \<open>The verdict depends on the bytes only\<close>

lemma word_min_of_nat:
  assumes "n < 2 ^ 31"
  shows "(if (word_of_nat n :: u32) < b then word_of_nat n else b) = word_of_nat (min n (unat b))"
proof -
  have "unat (word_of_nat n :: u32) = n" using assms by (simp add: unat_of_nat)
  then show ?thesis by (auto simp: word_less_nat_alt min_def)
qed

lemma sint_of_nat_u32: "n < 2 ^ 31 \<Longrightarrow> sint (word_of_nat n :: u32) = int n"
  by (simp add: sint_uint uint_nat unat_of_nat signed_take_bit_int_eq_self)

lemma unat_of_nat_u32: "n < 2 ^ 31 \<Longrightarrow> unat (word_of_nat n :: u32) = n"
  by (simp add: unat_of_nat)

context itc_source
begin

lemma crc_loop_result:
  assumes "inv s" "cursor s + n \<le> length (contents s)" "n < 2 ^ 31"
    and "n = 0 \<or> 0 < unat bufsize" "min n (unat bufsize) \<le> length buf"
  shows "\<exists>k buf' s'. crc_loop vt line bufsize s buf (word_of_nat n) c =
           Some (0, word_of_nat k, crc_bytes (slice (contents s) (cursor s) n) c, buf', s') \<and>
         inv s' \<and> contents s' = contents s \<and> k \<le> n \<and>
         (unat bufsize mod 4 = 0 \<longrightarrow> k mod 4 = n mod 4) \<and>
         (n \<le> unat bufsize \<longrightarrow> k = n \<and> buf' = slice (contents s) (cursor s) n @ drop n buf)"
  using assms
proof (induction n arbitrary: s buf c rule: less_induct)
  case (less n)
  define k where "k = min n (unat bufsize)"
  have k: "k \<le> length buf" "cursor s + k \<le> length (contents s)" "k < 2 ^ 31" "k \<le> n"
    using less.prems by (auto simp: k_def)
  obtain s1 where s1: "vt_Read vt s buf (int k) = Some (int k, slice (contents s) (cursor s) k @ drop k buf, s1)"
    "inv s1" "contents s1 = contents s" "cursor s1 = cursor s + k"
    using read_exact [OF less.prems(1) k(1,2)] by blast
  have readsize: "(if (word_of_nat n :: u32) < bufsize then word_of_nat n else bufsize) = word_of_nat k"
    using word_min_of_nat [OF less.prems(3)] by (simp add: k_def)
  have rest: "(word_of_nat n :: u32) - word_of_nat k = word_of_nat (n - k)"
    using k(4) by simp
  have taken: "take k (slice (contents s) (cursor s) k @ drop k buf) = slice (contents s) (cursor s) k"
    using k(2) by simp
  have step: "crc_loop vt line bufsize s buf (word_of_nat n) c =
     (if 0 < (word_of_nat (n - k) :: u32)
      then crc_loop vt line bufsize s1 (slice (contents s) (cursor s) k @ drop k buf) (word_of_nat (n - k))
             (crc_bytes (slice (contents s) (cursor s) k) c)
      else Some (0, word_of_nat k, crc_bytes (slice (contents s) (cursor s) k) c,
             slice (contents s) (cursor s) k @ drop k buf, s1))"
    by (subst crc_loop.simps)
      (simp add: Let_def readsize sint_of_nat_u32 [OF k(3)] unat_of_nat_u32 [OF k(3)] s1(1) rest taken
        del: take_append)
  have pos: "0 < (word_of_nat (n - k) :: u32) \<longleftrightarrow> k < n"
    using less.prems(3) by (simp add: word_less_nat_alt unat_of_nat_u32)
  show ?case
  proof (cases "k < n")
    case False
    then have "k = n" using k(4) by simp
    moreover have "crc_loop vt line bufsize s buf (word_of_nat n) c =
        Some (0, word_of_nat n, crc_bytes (slice (contents s) (cursor s) n) c,
          slice (contents s) (cursor s) n @ drop n buf, s1)"
      using step pos False \<open>k = n\<close> by simp
    ultimately show ?thesis using s1 by auto
  next
    case True
    then have kb: "k = unat bufsize" "0 < k" using less.prems(4) by (auto simp: k_def)
    have cut: "slice (contents s) (cursor s) n =
        slice (contents s) (cursor s) k @ slice (contents s) (cursor s1) (n - k)"
      using True by (simp add: slice_append s1(4))
    have "\<exists>m buf' s'. crc_loop vt line bufsize s1 (slice (contents s) (cursor s) k @ drop k buf)
          (word_of_nat (n - k)) (crc_bytes (slice (contents s) (cursor s) k) c) =
           Some (0, word_of_nat m, crc_bytes (slice (contents s1) (cursor s1) (n - k))
             (crc_bytes (slice (contents s) (cursor s) k) c), buf', s') \<and>
         inv s' \<and> contents s' = contents s1 \<and> m \<le> n - k \<and>
         (unat bufsize mod 4 = 0 \<longrightarrow> m mod 4 = (n - k) mod 4) \<and>
         (n - k \<le> unat bufsize \<longrightarrow> m = n - k \<and> buf' = slice (contents s1) (cursor s1) (n - k) @
            drop (n - k) (slice (contents s) (cursor s) k @ drop k buf))"
      using True kb k less.prems s1 by (intro less.IH) auto
    then obtain m buf' s' where ih: "crc_loop vt line bufsize s1 (slice (contents s) (cursor s) k @ drop k buf)
          (word_of_nat (n - k)) (crc_bytes (slice (contents s) (cursor s) k) c) =
           Some (0, word_of_nat m, crc_bytes (slice (contents s) (cursor s) n) c, buf', s')"
         "inv s'" "contents s' = contents s" "m \<le> n - k"
         "unat bufsize mod 4 = 0 \<longrightarrow> m mod 4 = (n - k) mod 4"
      unfolding cut s1(3) by auto
    have "unat bufsize mod 4 = 0 \<longrightarrow> (n - k) mod 4 = n mod 4"
      using True kb by (metis mod_mult_self1 le_add_diff_inverse2 less_imp_le mod_0_imp_dvd dvd_def add.commute mod_mult_self2)
    with ih step pos True kb show ?thesis by (auto intro!: exI)
  qed
qed

lemma ugCheckCrc_verdict:
  assumes "inv s" and split: "contents s = p @ t" "length t = 4"
    and bound: "length p + 4 < 2 ^ 31"
    and alloc: "\<And>n. \<exists>b. malloc n = Some b \<and> length b = n"
    and cfg: "0 < unat cfg" "unat cfg mod 4 = 0"
  shows "\<exists>s'. ugCheckCrc vt malloc cfg s None = Some (if le32 t = crc_of p then 0 else 143, None, s') \<and>
    (le32 t = crc_of p \<longrightarrow> inv s' \<and> contents s' = contents s \<and> cursor s' = 0)"
proof -
  let ?n = "length p"
  have len: "length (contents s) = ?n + 4" using split by simp
  obtain s1 where s1: "vt_Seek vt s (- int 4) SEEK_END = Some (0, s1)" "inv s1"
      "contents s1 = contents s" "cursor s1 = ?n"
    using seek_end [OF assms(1), of 4] len by auto
  obtain s2 where s2: "vt_Read vt s1 (replicate 4 0) (int 4) =
        Some (int 4, slice (contents s1) (cursor s1) 4 @ drop 4 (replicate 4 0), s2)"
      "inv s2" "contents s2 = contents s1" "cursor s2 = cursor s1 + 4"
    using read_exact [OF s1(2), of 4 "replicate 4 0"] s1(3,4) len by auto
  have crc: "slice (contents s1) (cursor s1) 4 = t"
    using split s1(3,4) by (simp add: slice_def)
  have size: "(word_of_nat (cursor s2) :: u32) - 4 = word_of_nat ?n"
    by (simp add: s2(4) s1(4))
  define b where "b = (if cfg < word_of_nat ?n then cfg else (word_of_nat ?n :: u32))"
  obtain buf where buf: "malloc (unat b) = Some buf" "length buf = unat b" using alloc by blast
  obtain s3 where s3: "vt_Seek vt s2 (int 0) SEEK_SET = Some (0, s3)" "inv s3"
      "contents s3 = contents s" "cursor s3 = 0"
    using seek_set [OF s2(2), of 0] s2(3) s1(3) len by auto
  have nb: "?n < 2 ^ 31" using bound by simp
  have ub: "unat b = (if unat cfg < ?n then unat cfg else ?n)"
    by (simp add: b_def word_less_nat_alt unat_of_nat_u32 [OF nb])
  have "\<exists>k buf' s'. crc_loop vt 125 b s3 buf (word_of_nat ?n) 0 =
           Some (0, word_of_nat k, crc_bytes (slice (contents s3) (cursor s3) ?n) 0, buf', s') \<and>
         inv s' \<and> contents s' = contents s3 \<and> k \<le> ?n \<and>
         (unat b mod 4 = 0 \<longrightarrow> k mod 4 = ?n mod 4) \<and>
         (?n \<le> unat b \<longrightarrow> k = ?n \<and> buf' = slice (contents s3) (cursor s3) ?n @ drop ?n buf)"
    using s3 len nb cfg ub buf(2) by (intro crc_loop_result) (auto split: if_splits)
  then obtain k buf' s4 where loop: "crc_loop vt 125 b s3 buf (word_of_nat ?n) 0 =
        Some (0, word_of_nat k, crc_bytes p 0, buf', s4)" "inv s4" "contents s4 = contents s"
        "k \<le> ?n" "k mod 4 = ?n mod 4"
    using s3(3,4) split(1) cfg(2) ub by (auto simp: slice_def split: if_splits)
  have pad: "crc_pad (unat (word_of_nat k :: u32)) (crc_bytes p 0) = crc_of p"
    using loop(4,5) nb by (simp add: crc_of_def crc_pad_def unat_of_nat_u32)
  obtain s5 where s5: "vt_Seek vt s4 (int 0) SEEK_SET = Some (0, s5)" "inv s5"
      "contents s5 = contents s" "cursor s5 = 0"
    using seek_set [OF loop(2), of 0] loop(3) len by auto
  obtain r s6 where s6: "vt_Close vt s4 = Some (r, s6)" using close_law [OF loop(2)] by blast
  have "ugCheckCrc vt malloc cfg s None =
     (if le32 t \<noteq> crc_of p then ugCheckCrc_end vt 143 None s4 else ugCheckCrc_end vt 0 None s5)"
    using s1(1) s2(1) tell_law [OF s2(2)] s3(1) s5(1) loop(1) buf
    by (cases "cfg < word_of_nat ?n") (simp_all add: ugCheckCrc_def crc size b_def pad Let_def)
  then show ?thesis using s5 s6 by (auto simp: ugCheckCrc_end_def)
qed

text \<open>With a buffer of the caller the whole package is in it afterwards, the checksum excepted.\<close>

lemma ugCheckCrc_fills_buffer:
  assumes "inv s" and split: "contents s = p @ t" "length t = 4"
    and bound: "length p + 4 < 2 ^ 31" and room: "length p \<le> length buf"
  shows "\<exists>s'. ugCheckCrc vt malloc cfg s (Some buf) =
      Some (if le32 t = crc_of p then 0 else 143, Some (p @ drop (length p) buf), s') \<and>
    (le32 t = crc_of p \<longrightarrow> inv s' \<and> contents s' = contents s \<and> cursor s' = 0)"
proof -
  let ?n = "length p"
  have len: "length (contents s) = ?n + 4" using split by simp
  obtain s1 where s1: "vt_Seek vt s (- int 4) SEEK_END = Some (0, s1)" "inv s1"
      "contents s1 = contents s" "cursor s1 = ?n"
    using seek_end [OF assms(1), of 4] len by auto
  obtain s2 where s2: "vt_Read vt s1 (replicate 4 0) (int 4) =
        Some (int 4, slice (contents s1) (cursor s1) 4 @ drop 4 (replicate 4 0), s2)"
      "inv s2" "contents s2 = contents s1" "cursor s2 = cursor s1 + 4"
    using read_exact [OF s1(2), of 4 "replicate 4 0"] s1(3,4) len by auto
  have crc: "slice (contents s1) (cursor s1) 4 = t"
    using split s1(3,4) by (simp add: slice_def)
  have size: "(word_of_nat (cursor s2) :: u32) - 4 = word_of_nat ?n"
    by (simp add: s2(4) s1(4))
  obtain s3 where s3: "vt_Seek vt s2 (int 0) SEEK_SET = Some (0, s3)" "inv s3"
      "contents s3 = contents s" "cursor s3 = 0"
    using seek_set [OF s2(2), of 0] s2(3) s1(3) len by auto
  have nb: "?n < 2 ^ 31" using bound by simp
  let ?b = "word_of_nat ?n :: u32"
  have "\<exists>k buf' s'. crc_loop vt 125 ?b s3 buf (word_of_nat ?n) 0 =
           Some (0, word_of_nat k, crc_bytes (slice (contents s3) (cursor s3) ?n) 0, buf', s') \<and>
         inv s' \<and> contents s' = contents s3 \<and> k \<le> ?n \<and>
         (unat ?b mod 4 = 0 \<longrightarrow> k mod 4 = ?n mod 4) \<and>
         (?n \<le> unat ?b \<longrightarrow> k = ?n \<and> buf' = slice (contents s3) (cursor s3) ?n @ drop ?n buf)"
    using s3 len nb room by (intro crc_loop_result) (auto simp: unat_of_nat_u32)
  then obtain s4 where loop: "crc_loop vt 125 ?b s3 buf (word_of_nat ?n) 0 =
        Some (0, word_of_nat ?n, crc_bytes p 0, p @ drop ?n buf, s4)" "inv s4" "contents s4 = contents s"
    using s3(3,4) split(1) nb by (auto simp: slice_def unat_of_nat_u32)
  have pad: "crc_pad (unat ?b) (crc_bytes p 0) = crc_of p"
    using nb by (simp add: crc_of_def unat_of_nat_u32)
  obtain s5 where s5: "vt_Seek vt s4 (int 0) SEEK_SET = Some (0, s5)" "inv s5"
      "contents s5 = contents s" "cursor s5 = 0"
    using seek_set [OF loop(2), of 0] loop(3) len by auto
  obtain r s6 where s6: "vt_Close vt s4 = Some (r, s6)" using close_law [OF loop(2)] by blast
  have "ugCheckCrc vt malloc cfg s (Some buf) =
     (if le32 t \<noteq> crc_of p then ugCheckCrc_end vt 143 (Some (p @ drop ?n buf)) s4
      else ugCheckCrc_end vt 0 (Some (p @ drop ?n buf)) s5)"
    using s1(1) s2(1) tell_law [OF s2(2)] s3(1) s5(1) loop(1)
    by (simp add: ugCheckCrc_def crc size pad Let_def)
  then show ?thesis using s5 s6 by (auto simp: ugCheckCrc_end_def)
qed

end

context stream_frame
begin

lemma crc_loop_frame:
  assumes "crc_loop vt line bufsize s buf n c = Some (ret, k, c', b, s')" "keeps s"
  shows "keeps s'"
proof -
  have "vt = vt \<longrightarrow> keeps s \<longrightarrow> keeps (snd (snd (snd (snd (ret, k, c', b, s')))))"
  proof (rule crc_loop.raw_induct [where P = "\<lambda>vt' line bufsize s buf n c y.
        vt' = vt \<longrightarrow> keeps s \<longrightarrow> keeps (snd (snd (snd (snd y))))", OF _ assms(1)], goal_cases)
    case (1 loop vt' line bufsize s buf n c y)
    show ?case
      using 1(2) by (auto simp: Let_def bind_eq_Some_conv split: if_splits dest!: 1(1) dest: read_frame)
  qed
  with assms(2) show ?thesis by simp
qed

lemma ugCheckCrc_end_frame:
  "ugCheckCrc_end vt ret buffer s = Some (r, b, s') \<Longrightarrow> keeps s \<Longrightarrow> keeps s'"
  by (auto simp: ugCheckCrc_end_def split: Option.bind_splits if_splits dest: close_frame)

lemma ugCheckCrc_frame:
  assumes "ugCheckCrc vt malloc cfg s buffer = Some (r, b, s')" "keeps s"
  shows "keeps s'"
proof -
  have tail: "keeps s'" if "keeps f" and "(case x of
           None \<Rightarrow> ugCheckCrc_end vt UG_OUT_OF_MEM buffer f
         | Some buf \<Rightarrow> do {
             (r, f) \<leftarrow> vt_Seek vt f 0 SEEK_SET;
             if r \<noteq> 0 then ugCheckCrc_end vt 114 buffer f
             else do {
               (ret, readsize, crc32val, buf, f) \<leftarrow> crc_loop vt 125 bufsize f buf filesize 0;
               let buffer = map_option (\<lambda>_. buf) buffer;
               if ret \<noteq> 0 then ugCheckCrc_end vt ret buffer f
               else if crc \<noteq> crc_pad (unat readsize) crc32val then ugCheckCrc_end vt 143 buffer f
               else do {
                 (r, f) \<leftarrow> vt_Seek vt f 0 SEEK_SET;
                 if r \<noteq> 0 then ugCheckCrc_end vt 150 buffer f
                 else ugCheckCrc_end vt 0 buffer f
               }
             }
           }) = Some (r, b, s')" for f x bufsize filesize crc
  proof (cases x)
    case None
    with that show ?thesis by (auto dest: ugCheckCrc_end_frame)
  next
    case (Some buf)
    with that(2) obtain r1 s1 where 1: "vt_Seek vt f 0 SEEK_SET = Some (r1, s1)"
      by (auto simp: bind_eq_Some_conv)
    have k1: "keeps s1" using seek_frame [OF that(1) 1] .
    show ?thesis
    proof (cases "r1 = 0")
      case False
      with that(2) Some 1 k1 show ?thesis by (auto dest: ugCheckCrc_end_frame)
    next
      case True
      with that(2) Some 1 obtain ret readsize v buf' s2 where
        2: "crc_loop vt 125 bufsize s1 buf filesize 0 = Some (ret, readsize, v, buf', s2)"
        by (auto simp: bind_eq_Some_conv)
      have k2: "keeps s2" using crc_loop_frame [OF 2 k1] .
      with that(2) Some 1 2 True show ?thesis
        by (auto simp: bind_eq_Some_conv Let_def split: if_splits
            dest!: ugCheckCrc_end_frame dest: seek_frame)
    qed
  qed
  from assms(1) obtain r1 s1 where 1: "vt_Seek vt s (-4) SEEK_END = Some (r1, s1)"
    by (auto simp: ugCheckCrc_def bind_eq_Some_conv)
  have k1: "keeps s1" using seek_frame [OF assms(2) 1] .
  show ?thesis
  proof (cases "r1 = 0")
    case False
    with assms(1) 1 k1 show ?thesis by (auto simp: ugCheckCrc_def dest: ugCheckCrc_end_frame)
  next
    case True
    with assms(1) 1 obtain n crcbytes s2 where 2: "vt_Read vt s1 (replicate 4 0) 4 = Some (n, crcbytes, s2)"
      by (auto simp: ugCheckCrc_def bind_eq_Some_conv)
    have k2: "keeps s2" using read_frame [OF k1 2] .
    show ?thesis
    proof (cases "(word_of_int n :: u32) = 4")
      case False
      with assms(1) 1 2 True k2 show ?thesis by (auto simp: ugCheckCrc_def dest: ugCheckCrc_end_frame)
    next
      case len: True
      with assms(1) 1 2 True obtain pos s3 where 3: "vt_Tell vt s2 = Some (pos, s3)"
        by (auto simp: ugCheckCrc_def bind_eq_Some_conv)
      have k3: "keeps s3" using tell_frame [OF k2 3] .
      show ?thesis
        by (rule tail [OF k3], rule trans [OF _ assms(1)], rule sym)
          (simp only: ugCheckCrc_def 1 2 3 True len Let_def bind.bind_lunit prod.case if_False simp_thms)
    qed
  qed
qed

end

section \<open>Properties of package checking\<close>

lemma array_package_verdict:
  assumes opened: "itcArrayStreamOpen s0 (p @ t) (int (length (p @ t))) = Some (0, s)"
    and "length t = 4" "length p + 4 < 2 ^ 31"
    and alloc: "\<And>n. \<exists>b. malloc n = Some b \<and> length b = n"
    and cfg: "0 < unat cfg" "unat cfg mod 4 = 0"
  shows "\<exists>s'. ugCheckCrc array_stream_vt malloc cfg s None =
           Some (if le32 t = crc_of p then 0 else 143, None, s') \<and>
         (le32 t = crc_of p \<longrightarrow> as_pos s' = 0 \<and> as_array s' = p @ t)"
proof -
  have "0 < length (p @ t)" using assms(2) by auto
  then have s: "array_inv s" "as_array s = p @ t" using array_open_inv [OF _ opened] by blast+
  show ?thesis
    using array_src.ugCheckCrc_verdict [OF s(1,2) assms(2,3) alloc cfg] s(2)
    by (auto simp: array_cursor_def array_inv_def)
qed



text \<open>
  C9. Damage to one byte of a valid package is always detected: whether the byte is in the data
  or in the checksum, the changed package is rejected.
\<close>

theorem check_package_detects_byte:
  assumes "le32 t = crc_of p" "length t = 4" "length p + 4 < 2 ^ 31"
    and change: "p @ t = xs @ a # ys" "a \<noteq> b"
    and opened: "itcArrayStreamOpen s0 (xs @ b # ys) (int (length (xs @ b # ys))) = Some (0, s)"
    and alloc: "\<And>n. \<exists>b. malloc n = Some b \<and> length b = n"
    and cfg: "0 < unat cfg" "unat cfg mod 4 = 0"
  shows "\<exists>s'. ugCheckCrc array_stream_vt malloc cfg s None = Some (143, None, s')"
proof -
  let ?q = "take (length p) (xs @ b # ys)" and ?u = "drop (length p) (xs @ b # ys)"
  have lens: "length (xs @ b # ys) = length p + 4"
    using arg_cong [OF change(1), of length] assms(2) by simp
  have "le32 ?u \<noteq> crc_of ?q"
  proof (cases "length xs < length p")
    case True
    have "p = xs @ a # take (length p - Suc (length xs)) ys" "t = drop (length p - Suc (length xs)) ys"
      using arg_cong [OF change(1), of "take (length p)"] arg_cong [OF change(1), of "drop (length p)"] True
      by (auto simp: take_Cons' drop_Cons')
    moreover have "?q = xs @ b # take (length p - Suc (length xs)) ys" "?u = drop (length p - Suc (length xs)) ys"
      using True by (auto simp: take_Cons' drop_Cons')
    ultimately show ?thesis using assms(1) crc_of_one_byte [OF change(2)] by metis
  next
    case False
    have "p = ?q" "t = drop (length p) xs @ a # ys" "?u = drop (length p) xs @ b # ys"
      using arg_cong [OF change(1), of "take (length p)"] arg_cong [OF change(1), of "drop (length p)"] False
      by auto
    moreover from this have "t \<noteq> ?u" using change(2) by auto
    moreover have "length ?u = 4" using lens by simp
    ultimately show ?thesis using assms(1,2) le32_inj by metis
  qed
  then have ne: "le32 u \<noteq> crc_of q" if "q = ?q" "u = ?u" for q u using that by simp
  define q u where "q = ?q" and "u = ?u"
  have qu: "q @ u = xs @ b # ys" "length u = 4" "length q = length p"
    unfolding q_def u_def using lens by (simp_all only: append_take_drop_id length_drop length_take)
  have o: "itcArrayStreamOpen s0 (q @ u) (int (length (q @ u))) = Some (0, s)"
    unfolding qu by (rule opened)
  show ?thesis
    using array_package_verdict [OF o qu(2) _ alloc cfg] assms(3) ne [OF q_def u_def] qu(3) by auto
qed

theorem check_package_detects_byte_witness:
  "\<exists>s'. ugCheckCrc array_stream_vt (\<lambda>n. Some (replicate n 0)) 4
      \<lparr>st_eof = False, st_size = 7, as_array = [1, 9, 3] @ le32_bytes (crc_of [1, 2, 3]), as_pos = 0\<rparr> None =
    Some (143, None, s')"
  by (rule check_package_detects_byte [of "le32_bytes (crc_of [1, 2, 3])" "[1, 2, 3]" "[1]" 2
        "3 # le32_bytes (crc_of [1, 2, 3])" 9 undefined])
    (simp_all add: itcArrayStreamOpen_def itcStreamOpen_def)

end
