(* ===== verification/UG_Files_Crc.thy ===== *)
theory UG_Files_Crc
  imports UG_Crc ITC_File_Stream
begin

text \<open>
  Checksums of the files of a medium (\<open>ugCalcFileCrc\<close> in \<open>sdk/share/upgrade/ug_crc.c\<close>
  and \<open>sdk/share/upgrade/ug_filecrc.c\<close>). A checksum file is a sequence of entries, each the
  path of a file with its terminator and the four bytes of its checksum, followed by the checksum of
  all entries. \<open>ugCheckFilesCrc\<close> checks every entry, \<open>ugSetFileCrc\<close> sets or appends one and
  rewrites the file. The code works on the raw bytes with pointers; a pointer into the buffer is
  an offset, and an access outside is undefined.

  The abstract view is the list of entries; \<open>encode_entries\<close> and \<open>crc_file\<close> give the
  bytes. The lemmas show that the pointer loops compute the list functions.
\<close>

section \<open>Memory and strings\<close>

definition ugGetCrcValue :: "bytes \<Rightarrow> nat \<Rightarrow> u32 option" where
  "ugGetCrcValue buf i =
     (if i + 4 \<le> length buf
      then Some (push_bit 24 (ucast (buf ! (i + 3))) OR push_bit 16 (ucast (buf ! (i + 2))) OR
                 push_bit 8 (ucast (buf ! (i + 1))) OR ucast (buf ! i))
      else None)"

definition ugSetCrcValue :: "bytes \<Rightarrow> nat \<Rightarrow> u32 \<Rightarrow> bytes option" where
  "ugSetCrcValue buf i crc =
     (if i + 4 \<le> length buf
      then Some (buf[i + 3 := ucast (drop_bit 24 crc AND 0xFF), i + 2 := ucast (drop_bit 16 crc AND 0xFF),
                     i + 1 := ucast (drop_bit 8 crc AND 0xFF), i := ucast (crc AND 0xFF)])
      else None)"

text \<open>
  \<open>strcpy(pathbuf, path); strcat(pathbuf, name)\<close> into an array of \<open>PATH_MAX\<close> bytes; a
  longer path overruns it.
\<close>

definition join_path :: "nat \<Rightarrow> path \<Rightarrow> path \<Rightarrow> path option" where
  "join_path path_max p name = (if length p + length name < path_max then Some (p @ name) else None)"

section \<open>The checksum of a file\<close>

definition ugCalcFileCrc ::
    "(nat \<Rightarrow> bytes option) \<Rightarrow> u32 \<Rightarrow> fsys \<Rightarrow> path \<Rightarrow> u32 \<Rightarrow> (int \<times> u32) option" where
  "ugCalcFileCrc malloc cfg fs filepath crc =
     (let (ret, fileStream) = itcFileStreamOpen fs undefined filepath False in
      if ret \<noteq> 0 then Some (ret, crc)
      else
        let filesize = word_of_int (st_size fileStream);
            bufsize = (if cfg < filesize then cfg else filesize)
        in
        case malloc (unat bufsize) of
          None \<Rightarrow> do { _ \<leftarrow> itcFileStreamClose fileStream; Some (UG_OUT_OF_MEM, crc) }
        | Some buf \<Rightarrow> do {
            (ret, readsize, crc32val, buf, fileStream) \<leftarrow>
              crc_loop file_stream_vt 197 bufsize fileStream buf filesize 0;
            _ \<leftarrow> itcFileStreamClose fileStream;
            if ret \<noteq> 0 then Some (ret, crc)
            else Some (0, crc_pad (unat readsize) crc32val)
          })"

section \<open>Checking all files\<close>

text \<open>The loop over the entries; \<open>ptr\<close> is an offset, \<open>sz\<close> the offset where it stops.\<close>

partial_function (option) check_entries ::
    "(nat \<Rightarrow> bytes option) \<Rightarrow> u32 \<Rightarrow> nat \<Rightarrow> fsys \<Rightarrow> path \<Rightarrow> bytes \<Rightarrow> nat \<Rightarrow> nat \<Rightarrow> int option" where
  "check_entries malloc cfg path_max fs path buf sz ptr =
     (if ptr = sz then Some 0
      else do {
        name \<leftarrow> str_at buf ptr;
        pathbuf \<leftarrow> join_path path_max path name;
        let n = length name + 1;
        crcval \<leftarrow> ugGetCrcValue buf (ptr + n);
        (ret, crc) \<leftarrow> ugCalcFileCrc malloc cfg fs pathbuf 0;
        if ret \<noteq> 0 then Some ret
        else if crcval \<noteq> crc then Some 76
        else check_entries malloc cfg path_max fs path buf sz (ptr + n + 4)
      })"

definition ugCheckFilesCrc ::
    "(nat \<Rightarrow> bytes option) \<Rightarrow> u32 \<Rightarrow> nat \<Rightarrow> fsys \<Rightarrow> path \<Rightarrow> path \<Rightarrow> int option" where
  "ugCheckFilesCrc malloc cfg path_max fs path crcpath =
     (let (ret, fileStream) = itcFileStreamOpen fs undefined crcpath False in
      if ret \<noteq> 0 then Some ret
      else
        let sz = st_size fileStream in
        case malloc (nat sz) of
          None \<Rightarrow> Some UG_OUT_OF_MEM
        | Some buf \<Rightarrow> do {
            (ret, buf, fileStream) \<leftarrow> ugCheckCrc file_stream_vt malloc cfg fileStream (Some buf);
            if ret \<noteq> 0 then Some ret
            else do {
              _ \<leftarrow> itcFileStreamClose fileStream;
              buf \<leftarrow> buf;
              if sz < 4 then None
              else check_entries malloc cfg path_max fs path buf (nat (sz - 4)) 0
            }
          })"

section \<open>Setting one checksum\<close>

text \<open>The search for an entry: its offset, or the end.\<close>

partial_function (option) find_entry :: "bytes \<Rightarrow> path \<Rightarrow> nat \<Rightarrow> nat \<Rightarrow> nat option" where
  "find_entry buf filepath sz ptr =
     (if ptr = sz then Some ptr
      else do {
        name \<leftarrow> str_at buf ptr;
        if filepath = name then Some ptr
        else find_entry buf filepath sz (ptr + (length name + 1) + 4)
      })"

text \<open>\<open>strcpy(ptr, filepath)\<close> into the buffer.\<close>

definition strcpy_at :: "bytes \<Rightarrow> nat \<Rightarrow> bytes \<Rightarrow> bytes option" where
  "strcpy_at buf i s = memcpy buf (int i) (s @ [0]) 0 (int (length s + 1))"

text \<open>Storing the checksum at a place found, or with the name at the end.\<close>

definition put_entry :: "bytes \<Rightarrow> nat \<Rightarrow> nat \<Rightarrow> int \<Rightarrow> path \<Rightarrow> u32 \<Rightarrow> (bytes \<times> int) option" where
  "put_entry buf ptr size4 bufsize filepath crc =
     (if ptr = size4 then do {
        buf \<leftarrow> strcpy_at buf ptr filepath;
        buf \<leftarrow> ugSetCrcValue buf (ptr + (length filepath + 1)) crc;
        Some (buf, bufsize)
      }
      else do {
        buf \<leftarrow> ugSetCrcValue buf (ptr + (length filepath + 1)) crc;
        Some (buf, int size4 + 4)
      })"

definition ugSetFileCrc ::
    "(nat \<Rightarrow> bytes option) \<Rightarrow> u32 \<Rightarrow> nat \<Rightarrow> fsys \<Rightarrow> path \<Rightarrow> path \<Rightarrow> path \<Rightarrow> (int \<times> fsys) option" where
  "ugSetFileCrc malloc cfg path_max fs filepath path crcpath =
     (let (ret, fileStream) = itcFileStreamOpen fs undefined crcpath False in
      if ret \<noteq> 0 then Some (ret, fs)
      else
        let sz = st_size fileStream;
            bufsize = sz + int (length filepath) + 1 + 4
        in
        case malloc (nat bufsize) of
          None \<Rightarrow> do { _ \<leftarrow> itcFileStreamClose fileStream; Some (UG_OUT_OF_MEM, fs) }
        | Some buf \<Rightarrow> do {
            (ret, buf, fileStream) \<leftarrow> ugCheckCrc file_stream_vt malloc cfg fileStream (Some buf);
            if ret \<noteq> 0 then do { _ \<leftarrow> itcFileStreamClose fileStream; Some (ret, fs) }
            else do {
              (_, fileStream) \<leftarrow> itcFileStreamClose fileStream;
              buf \<leftarrow> buf;
              pathbuf \<leftarrow> join_path path_max path filepath;
              (ret, crc) \<leftarrow> ugCalcFileCrc malloc cfg fs pathbuf 0;
              if ret \<noteq> 0 then do { _ \<leftarrow> itcFileStreamClose fileStream; Some (ret, fs) }
              else if sz < 4 then None
              else do {
                let size4 = nat (sz - 4);
                ptr \<leftarrow> find_entry buf filepath size4 0;
                (buf, filesize) \<leftarrow> put_entry buf ptr size4 bufsize filepath crc;
                crc \<leftarrow> ugCalcBufferCrc buf (filesize - 4);
                buf \<leftarrow> ugSetCrcValue buf (nat (filesize - 4)) crc;
                let (ret, fileStream) = itcFileStreamOpen fs fileStream crcpath True;
                if ret \<noteq> 0 then Some (ret, fst_fs fileStream)
                else do {
                  (w, fileStream) \<leftarrow> FileStreamWrite fileStream buf filesize;
                  (_, fileStream) \<leftarrow> itcFileStreamClose fileStream;
                  Some (if w \<noteq> filesize then 178 else 0, fst_fs fileStream)
                }
              }
            }
          })"

section \<open>Updating all checksums\<close>

text \<open>
  \<open>ugUpgradeFilesCrc\<close> computes the checksum of every file and stores it into the buffer; it
  releases the buffer without writing the file.
\<close>

partial_function (option) update_entries ::
    "(nat \<Rightarrow> bytes option) \<Rightarrow> u32 \<Rightarrow> nat \<Rightarrow> fsys \<Rightarrow> path \<Rightarrow> bytes \<Rightarrow> nat \<Rightarrow> nat \<Rightarrow> (int \<times> bytes) option" where
  "update_entries malloc cfg path_max fs path buf sz ptr =
     (if ptr = sz then Some (0, buf)
      else do {
        name \<leftarrow> str_at buf ptr;
        let n = length name + 1;
        pathbuf \<leftarrow> join_path path_max path name;
        (ret, crc) \<leftarrow> ugCalcFileCrc malloc cfg fs pathbuf 0;
        if ret \<noteq> 0 then Some (ret, buf)
        else do {
          buf \<leftarrow> ugSetCrcValue buf (ptr + n) crc;
          update_entries malloc cfg path_max fs path buf sz (ptr + n + 4)
        }
      })"

definition ugUpgradeFilesCrc ::
    "(nat \<Rightarrow> bytes option) \<Rightarrow> u32 \<Rightarrow> nat \<Rightarrow> fsys \<Rightarrow> path \<Rightarrow> path \<Rightarrow> (int \<times> fsys) option" where
  "ugUpgradeFilesCrc malloc cfg path_max fs path crcpath =
     (let (ret, fileStream) = itcFileStreamOpen fs undefined crcpath False in
      if ret \<noteq> 0 then Some (ret, fs)
      else
        let sz = st_size fileStream in
        case malloc (nat sz) of
          None \<Rightarrow> Some (UG_OUT_OF_MEM, fs)
        | Some buf \<Rightarrow> do {
            (ret, buf, fileStream) \<leftarrow> ugCheckCrc file_stream_vt malloc cfg fileStream (Some buf);
            if ret \<noteq> 0 then Some (ret, fst_fs fileStream)
            else do {
              (_, fileStream) \<leftarrow> itcFileStreamClose fileStream;
              buf \<leftarrow> buf;
              if sz < 4 then None
              else do {
                (ret, _) \<leftarrow> update_entries malloc cfg path_max fs path buf (nat (sz - 4)) 0;
                Some (ret, fst_fs fileStream)
              }
            }
          })"

section \<open>Strings and values in the buffer\<close>

lemma get_value:
  "ugGetCrcValue (a @ le32_bytes c @ r) (length a) = Some c"
proof -
  have "push_bit 24 (ucast (ucast (drop_bit 24 c) :: u8)) OR push_bit 16 (ucast (ucast (drop_bit 16 c) :: u8)) OR
      push_bit 8 (ucast (ucast (drop_bit 8 c) :: u8)) OR ucast (ucast c :: u8) = c"
  proof (rule bit_word_eqI)
    fix n assume "n < LENGTH(32)"
    then consider "n < 8" | "8 \<le> n" "n < 16" | "16 \<le> n" "n < 24" | "24 \<le> n" "n < 32"
      by fastforce
    then show "bit (push_bit 24 (ucast (ucast (drop_bit 24 c) :: u8)) OR
        push_bit 16 (ucast (ucast (drop_bit 16 c) :: u8)) OR
        push_bit 8 (ucast (ucast (drop_bit 8 c) :: u8)) OR ucast (ucast c :: u8) :: u32) n = bit c n"
      by cases (auto simp: bit_simps)
  qed
  then show ?thesis by (simp add: ugGetCrcValue_def le32_bytes_def nth_append)
qed

lemma set_value:
  assumes "length x = 4"
  shows "ugSetCrcValue (a @ x @ r) (length a) c = Some (a @ le32_bytes c @ r)"
proof -
  have FF: "(0xFF::u32) = mask 8" by (simp add: mask_eq_exp_minus_1)
  have cut: "ucast (w AND 0xFF) = (ucast w :: u8)" for w :: u32
    unfolding FF by (rule bit_word_eqI) (auto simp: bit_simps)
  obtain x0 x1 x2 x3 where "x = [x0, x1, x2, x3]"
    using assms by (auto simp: numeral_eq_Suc length_Suc_conv)
  then show ?thesis by (simp add: ugSetCrcValue_def le32_bytes_def cut list_update_append)
qed

section \<open>The abstract view\<close>

type_synonym entries = "(path \<times> u32) list"

definition encode_entry :: "path \<times> u32 \<Rightarrow> bytes" where
  "encode_entry e = fst e @ 0 # le32_bytes (snd e)"

definition encode_entries :: "entries \<Rightarrow> bytes" where
  "encode_entries es = concat (map encode_entry es)"

definition crc_file :: "entries \<Rightarrow> bytes" where
  "crc_file es = encode_entries es @ le32_bytes (crc_of (encode_entries es))"

fun entries_verdict :: "fsys \<Rightarrow> path \<Rightarrow> entries \<Rightarrow> int" where
  "entries_verdict fs path [] = 0"
| "entries_verdict fs path ((name, c) # es) =
     (case fs_files fs (path @ name) of
        None \<Rightarrow> 81
      | Some b \<Rightarrow> if c \<noteq> crc_of b then 76 else entries_verdict fs path es)"

fun set_entry :: "path \<Rightarrow> u32 \<Rightarrow> entries \<Rightarrow> entries" where
  "set_entry name c [] = [(name, c)]"
| "set_entry name c ((n, d) # es) = (if name = n then (n, c) # es else (n, d) # set_entry name c es)"

text \<open>What is assumed of names and files: C strings, paths that fit, sizes a C \<open>int\<close> holds.\<close>

definition entries_ok :: "nat \<Rightarrow> path \<Rightarrow> entries \<Rightarrow> bool" where
  "entries_ok path_max path es \<longleftrightarrow>
     (\<forall>(name, c) \<in> set es. 0 \<notin> set name \<and> length path + length name < path_max) \<and>
     length (encode_entries es) + 4 < 2 ^ 31"

definition files_small :: "fsys \<Rightarrow> bool" where
  "files_small fs \<longleftrightarrow> (\<forall>p b. fs_files fs p = Some b \<longrightarrow> length b < 2 ^ 31)"

definition alloc_ok :: "(nat \<Rightarrow> bytes option) \<Rightarrow> bool" where
  "alloc_ok malloc \<longleftrightarrow> (\<forall>n. \<exists>b. malloc n = Some b \<and> length b = n)"

lemma encode_entries_simps [simp]:
  "encode_entries [] = []"
  "encode_entries ((name, c) # es) = name @ 0 # le32_bytes c @ encode_entries es"
  "encode_entries (es @ es') = encode_entries es @ encode_entries es'"
  by (simp_all add: encode_entries_def encode_entry_def)

lemma entries_verdict_0:
  "entries_verdict fs path es = 0 \<longleftrightarrow>
   (\<forall>(name, c) \<in> set es. \<exists>b. fs_files fs (path @ name) = Some b \<and> c = crc_of b)"
  by (induction fs path es rule: entries_verdict.induct) (auto split: option.splits)

section \<open>The checksum of a file\<close>

lemma ugCalcFileCrc_value:
  assumes b: "fs_files fs p = Some b" and sound: "fs_sound fs" and small: "length b < 2 ^ 31"
    and alloc: "alloc_ok malloc" and cfg: "0 < unat cfg" "unat cfg mod 4 = 0"
  shows "ugCalcFileCrc malloc cfg fs p crc = Some (0, crc_of b)"
proof -
  let ?n = "length b"
  obtain s where s: "itcFileStreamOpen fs undefined p False = (0, s)" "file_inv fs s" "file_contents s = b"
      "file_cursor s = 0" "st_size s = int ?n"
    using file_open_read [OF b fs_soundD(1,2) [OF sound] small] by blast
  define bs where "bs = (if cfg < word_of_nat ?n then cfg else (word_of_nat ?n :: u32))"
  obtain buf where buf: "malloc (unat bs) = Some buf" "length buf = unat bs"
    using alloc unfolding alloc_ok_def by blast
  have ub: "unat bs = (if unat cfg < ?n then unat cfg else ?n)"
    by (simp add: bs_def word_less_nat_alt unat_of_nat_u32 [OF small])
  have "\<exists>k buf' s'. crc_loop file_stream_vt 197 bs s buf (word_of_nat ?n) 0 =
           Some (0, word_of_nat k, crc_bytes (slice (file_contents s) (file_cursor s) ?n) 0, buf', s') \<and>
         file_inv fs s' \<and> file_contents s' = file_contents s \<and> k \<le> ?n \<and>
         (unat bs mod 4 = 0 \<longrightarrow> k mod 4 = ?n mod 4) \<and>
         (?n \<le> unat bs \<longrightarrow> k = ?n \<and> buf' = slice (file_contents s) (file_cursor s) ?n @ drop ?n buf)"
    using s small cfg ub buf(2) by (intro file_src.crc_loop_result) (auto split: if_splits)
  then obtain k buf' s' where loop: "crc_loop file_stream_vt 197 bs s buf (word_of_nat ?n) 0 =
        Some (0, word_of_nat k, crc_bytes b 0, buf', s')" "file_inv fs s'" "k \<le> ?n" "k mod 4 = ?n mod 4"
    using s(3,4) cfg(2) ub by (auto split: if_splits)
  have pad: "crc_pad (unat (word_of_nat k :: u32)) (crc_bytes b 0) = crc_of b"
    using loop(3,4) small by (simp add: crc_of_def crc_pad_def unat_of_nat_u32)
  obtain r s'' where close: "itcFileStreamClose s' = Some (r, s'')"
    using file_src.close_law [OF loop(2)] by (auto simp: file_vt_simps)
  show ?thesis
    using s(1,5) loop(1) buf(1) close
    by (cases "cfg < word_of_nat ?n") (simp_all add: ugCalcFileCrc_def Let_def bs_def pad)
qed

lemma ugCalcFileCrc_missing:
  "fs_files fs p = None \<Longrightarrow> ugCalcFileCrc malloc cfg fs p crc = Some (81, crc)"
  using file_open_missing [of fs p undefined] by (auto simp: ugCalcFileCrc_def)

section \<open>The loops compute the list functions\<close>

text \<open>A sound medium with small files, memory, and a read buffer of a positive multiple of four.\<close>

definition env_ok :: "(nat \<Rightarrow> bytes option) \<Rightarrow> u32 \<Rightarrow> fsys \<Rightarrow> bool" where
  "env_ok malloc cfg fs \<longleftrightarrow>
     fs_sound fs \<and> files_small fs \<and> alloc_ok malloc \<and> 0 < unat cfg \<and> unat cfg mod 4 = 0"

lemma calc_value:
  "env_ok malloc cfg fs \<Longrightarrow> fs_files fs p = Some b \<Longrightarrow> ugCalcFileCrc malloc cfg fs p crc = Some (0, crc_of b)"
  by (rule ugCalcFileCrc_value) (auto simp: env_ok_def files_small_def)

lemma env_alloc:
  assumes "env_ok malloc cfg fs"
  obtains b where "malloc n = Some b" "length b = n"
  using assms by (auto simp: env_ok_def alloc_ok_def)

lemma entry_at:
  assumes "0 \<notin> set name"
  shows "str_at (a @ name @ 0 # le32_bytes c @ r) (length a) = Some name"
    "ugGetCrcValue (a @ name @ 0 # le32_bytes c @ r) (length a + (length name + 1)) = Some c"
    "ugSetCrcValue (a @ name @ 0 # le32_bytes c @ r) (length a + (length name + 1)) d =
       Some (a @ name @ 0 # le32_bytes d @ r)"
  using str_at_name [OF assms, of a "le32_bytes c @ r"] get_value [of "a @ name @ [0]" c r]
    set_value [of "le32_bytes c" "a @ name @ [0]" r d] by simp_all

lemma check_entries_verdict:
  assumes env: "env_ok malloc cfg fs"
    and "\<forall>(name, c) \<in> set es. 0 \<notin> set name \<and> length path + length name < path_max"
  shows "check_entries malloc cfg path_max fs path (encode_entries pre @ encode_entries es @ r)
      (length (encode_entries pre) + length (encode_entries es)) (length (encode_entries pre)) =
    Some (entries_verdict fs path es)"
  using assms(2)
proof (induction es arbitrary: pre)
  case Nil
  show ?case by (subst check_entries.simps) simp
next
  case (Cons e es)
  obtain name c where e: "e = (name, c)" by fastforce
  have ok: "0 \<notin> set name" "length path + length name < path_max" using Cons.prems e by auto
  note at = entry_at [OF ok(1), of "encode_entries pre" c "encode_entries es @ r"]
  have next_ptr: "length (encode_entries pre) + (length name + 1) + 4 = length (encode_entries (pre @ [e]))"
    and buf: "encode_entries pre @ encode_entries (e # es) @ r = encode_entries (pre @ [e]) @ encode_entries es @ r"
    and sz: "length (encode_entries pre) + length (encode_entries (e # es)) =
      length (encode_entries (pre @ [e])) + length (encode_entries es)"
    by (simp_all add: e)
  have IH: "check_entries malloc cfg path_max fs path (encode_entries pre @ encode_entries (e # es) @ r)
      (length (encode_entries pre) + length (encode_entries (e # es)))
      (length (encode_entries pre) + (length name + 1) + 4) = Some (entries_verdict fs path es)"
    unfolding next_ptr unfolding buf sz using Cons.prems by (intro Cons.IH) simp
  show ?case
  proof (cases "fs_files fs (path @ name)")
    case None
    then show ?thesis
      using at ok e by (subst check_entries.simps) (simp add: Let_def join_path_def ugCalcFileCrc_missing)
  next
    case (Some b)
    then show ?thesis
      using at ok e IH calc_value [OF env Some]
      by (cases "c = crc_of b"; subst check_entries.simps) (simp_all add: Let_def join_path_def)
  qed
qed

lemma find_entry_ptr:
  assumes "\<forall>(n, c) \<in> set es. 0 \<notin> set n"
  shows "find_entry (encode_entries pre @ encode_entries es @ r) name
      (length (encode_entries pre) + length (encode_entries es)) (length (encode_entries pre)) =
    Some (length (encode_entries (pre @ takeWhile (\<lambda>e. fst e \<noteq> name) es)))"
  using assms
proof (induction es arbitrary: pre)
  case Nil
  show ?case by (subst find_entry.simps) simp
next
  case (Cons e es)
  obtain n c where e: "e = (n, c)" by fastforce
  have ok: "0 \<notin> set n" using Cons.prems e by auto
  note at = entry_at [OF ok, of "encode_entries pre" c "encode_entries es @ r"]
  have next_ptr: "length (encode_entries pre) + (length n + 1) + 4 = length (encode_entries (pre @ [e]))"
    and buf: "encode_entries pre @ encode_entries (e # es) @ r = encode_entries (pre @ [e]) @ encode_entries es @ r"
    and sz: "length (encode_entries pre) + length (encode_entries (e # es)) =
      length (encode_entries (pre @ [e])) + length (encode_entries es)"
    by (simp_all add: e)
  have IH: "find_entry (encode_entries pre @ encode_entries (e # es) @ r) name
      (length (encode_entries pre) + length (encode_entries (e # es)))
      (length (encode_entries pre) + (length n + 1) + 4) =
      Some (length (encode_entries ((pre @ [e]) @ takeWhile (\<lambda>e. fst e \<noteq> name) es)))"
    unfolding next_ptr unfolding buf sz using Cons.prems by (intro Cons.IH) simp
  show ?case using at e IH by (subst find_entry.simps) (simp add: Let_def)
qed

lemma update_entries_ok:
  assumes env: "env_ok malloc cfg fs"
    and "\<forall>(name, c) \<in> set es. 0 \<notin> set name \<and> length path + length name < path_max \<and>
      fs_files fs (path @ name) \<noteq> None"
  shows "\<exists>buf. update_entries malloc cfg path_max fs path (encode_entries pre @ encode_entries es @ r)
      (length (encode_entries pre) + length (encode_entries es)) (length (encode_entries pre)) = Some (0, buf)"
  using assms(2)
proof (induction es arbitrary: pre)
  case Nil
  show ?case by (subst update_entries.simps) simp
next
  case (Cons e es)
  obtain name c where e: "e = (name, c)" by fastforce
  obtain b where ok: "0 \<notin> set name" "length path + length name < path_max" "fs_files fs (path @ name) = Some b"
    using Cons.prems e by auto
  let ?e = "(name, crc_of b)"
  note at = entry_at [OF ok(1), of "encode_entries pre" c "encode_entries es @ r"]
  have next_ptr: "length (encode_entries pre) + (length name + 1) + 4 = length (encode_entries (pre @ [?e]))"
    and buf: "encode_entries pre @ name @ 0 # le32_bytes (crc_of b) @ encode_entries es @ r =
      encode_entries (pre @ [?e]) @ encode_entries es @ r"
    and sz: "length (encode_entries pre) + length (encode_entries (e # es)) =
      length (encode_entries (pre @ [?e])) + length (encode_entries es)"
    by (simp_all add: e)
  have IH: "\<exists>buf. update_entries malloc cfg path_max fs path
      (encode_entries pre @ name @ 0 # le32_bytes (crc_of b) @ encode_entries es @ r)
      (length (encode_entries pre) + length (encode_entries (e # es)))
      (length (encode_entries pre) + (length name + 1) + 4) = Some (0, buf)"
    unfolding next_ptr unfolding buf sz using Cons.prems by (intro Cons.IH) simp
  then show ?case
    using at ok(2) e calc_value [OF env ok(3)]
    by (subst update_entries.simps) (simp add: Let_def join_path_def)
qed

section \<open>The operations\<close>

text \<open>Reading the checksum file into a buffer.\<close>

lemma read_crc_file:
  assumes f: "fs_files fs crcpath = Some (encode_entries es @ le32_bytes c)"
    and env: "env_ok malloc cfg fs" and small: "length (encode_entries es) + 4 < 2 ^ 31"
    and room: "length (encode_entries es) \<le> length buf"
  obtains s s' where "itcFileStreamOpen fs undefined crcpath False = (0, s)"
    "st_size s = int (length (encode_entries es) + 4)"
    "ugCheckCrc file_stream_vt malloc cfg s (Some buf) =
       Some (if c = crc_of (encode_entries es) then 0 else 143,
         Some (encode_entries es @ drop (length (encode_entries es)) buf), s')"
    "c = crc_of (encode_entries es) \<longrightarrow> file_inv fs s'" "fst_fs s' = fs"
proof -
  have sound: "fs_sound fs" using env by (simp add: env_ok_def)
  obtain s where s: "itcFileStreamOpen fs undefined crcpath False = (0, s)" "file_inv fs s"
      "file_contents s = encode_entries es @ le32_bytes c"
      "st_size s = int (length (encode_entries es @ le32_bytes c))"
    using file_open_read [OF f fs_soundD(1,2) [OF sound]] small by auto
  obtain s' where s': "ugCheckCrc file_stream_vt malloc cfg s (Some buf) =
       Some (if c = crc_of (encode_entries es) then 0 else 143,
         Some (encode_entries es @ drop (length (encode_entries es)) buf), s')"
       "c = crc_of (encode_entries es) \<longrightarrow> file_inv fs s'"
    using file_src.ugCheckCrc_fills_buffer [OF s(2,3) _ small room] by auto
  have "fst_fs s' = fs" by (rule file_frame.ugCheckCrc_frame [OF s'(1)]) (rule file_inv_fs [OF s(2)])
  with s s' show thesis by (intro that) auto
qed

lemma files_check:
  assumes f: "fs_files fs crcpath = Some (encode_entries es @ le32_bytes c)"
    and env: "env_ok malloc cfg fs" and ok: "entries_ok path_max path es"
  shows "ugCheckFilesCrc malloc cfg path_max fs path crcpath =
    Some (if c = crc_of (encode_entries es) then entries_verdict fs path es else 143)"
proof -
  let ?n = "length (encode_entries es)"
  have small: "?n + 4 < 2 ^ 31"
    and names: "\<forall>(name, c) \<in> set es. 0 \<notin> set name \<and> length path + length name < path_max"
    using ok by (simp_all add: entries_ok_def)
  obtain buf where buf: "malloc (?n + 4) = Some buf" "length buf = ?n + 4" by (rule env_alloc [OF env])
  obtain s s' where s: "itcFileStreamOpen fs undefined crcpath False = (0, s)" "st_size s = int (?n + 4)"
      "ugCheckCrc file_stream_vt malloc cfg s (Some buf) =
         Some (if c = crc_of (encode_entries es) then 0 else 143, Some (encode_entries es @ drop ?n buf), s')"
      "c = crc_of (encode_entries es) \<longrightarrow> file_inv fs s'"
    by (rule read_crc_file [OF f env small, of buf]) (use buf in auto)
  have m: "malloc (nat (int (?n + 4))) = Some buf" by (simp only: nat_int buf(1))
  have loop: "check_entries malloc cfg path_max fs path (encode_entries es @ drop ?n buf) ?n 0 =
      Some (entries_verdict fs path es)"
    using check_entries_verdict [OF env names, of "[]" "drop ?n buf"] by simp
  show ?thesis
  proof (cases "c = crc_of (encode_entries es)")
    case False
    then show ?thesis using s(1-3) m by (simp add: ugCheckFilesCrc_def)
  next
    case True
    obtain s'' where "itcFileStreamClose s' = Some (0, s'')" using file_close_ok by blast
    then show ?thesis using s(1-3) m True loop by (simp add: ugCheckFilesCrc_def Let_def)
  qed
qed

lemma set_entry_found:
  "takeWhile (\<lambda>e. fst e \<noteq> name) es \<noteq> es \<Longrightarrow>
   \<exists>d post. es = takeWhile (\<lambda>e. fst e \<noteq> name) es @ (name, d) # post \<and>
     set_entry name c es = takeWhile (\<lambda>e. fst e \<noteq> name) es @ (name, c) # post"
  by (induction name c es rule: set_entry.induct) auto

lemma set_entry_new:
  "takeWhile (\<lambda>e. fst e \<noteq> name) es = es \<Longrightarrow> set_entry name c es = es @ [(name, c)]"
  by (induction name c es rule: set_entry.induct) (auto split: if_splits)

lemma buffer_crc: "ugCalcBufferCrc (a @ r) (int (length a)) = Some (crc_of a)"
  by (simp add: ugCalcBufferCrc_def crc_of_def)

lemma strcpy_at_end:
  "length x = length name + 1 \<Longrightarrow> strcpy_at (a @ x @ r) (length a) name = Some (a @ name @ 0 # r)"
  using memcpy_int [of "length a" "length name + 1" "a @ x @ r" 0 "name @ [0]"]
  by (simp add: strcpy_at_def)

text \<open>The buffer after the entry was stored: the new entries, and room for the checksum.\<close>

lemma store_entry:
  assumes names: "\<forall>(n, c) \<in> set es. 0 \<notin> set n" and "length x = length name + 9"
    and pre: "pre = takeWhile (\<lambda>e. fst e \<noteq> name) es"
  obtains rest where
    "put_entry (encode_entries es @ x) (length (encode_entries pre)) (length (encode_entries es))
       (int (length (encode_entries es)) + 4 + int (length name) + 1 + 4) name c =
     Some (encode_entries (set_entry name c es) @ rest, int (length (encode_entries (set_entry name c es))) + 4)"
    "4 \<le> length rest"
proof (cases "pre = es")
  case True
  note set = set_entry_new [OF True [unfolded pre], of c]
  obtain x1 x2 y where x: "x = x1 @ x2 @ y" "length x1 = length name + 1" "length x2 = 4" "length y = 4"
  proof
    show "x = take (length name + 1) x @ take 4 (drop (length name + 1) x) @ drop 4 (drop (length name + 1) x)"
      by (simp only: append_take_drop_id)
  qed (use assms(2) in simp_all)
  have "ugSetCrcValue ((encode_entries es @ name @ [0]) @ x2 @ y) (length (encode_entries es @ name @ [0])) c =
      Some ((encode_entries es @ name @ [0]) @ le32_bytes c @ y)"
    by (rule set_value) (rule x(3))
  then show thesis
    using strcpy_at_end [OF x(2), of "encode_entries es" "x2 @ y"] True x(1,4)
    by (intro that [of y]) (simp_all add: put_entry_def set)
next
  case False
  then obtain d post where es: "es = pre @ (name, d) # post" "set_entry name c es = pre @ (name, c) # post"
    using set_entry_found [of name es c] by (auto simp: pre)
  have "0 \<notin> set name" using names es(1) by (auto simp del: fst_conv)
  then show thesis
    using entry_at(3) [of name "encode_entries pre" d "encode_entries post @ x" c] assms(2)
    by (intro that [of x]) (simp_all add: put_entry_def es(2), simp_all add: es(1))
qed

lemma file_set:
  assumes f: "fs_files fs crcpath = Some (crc_file es)" and env: "env_ok malloc cfg fs"
    and names: "\<forall>(n, c) \<in> set es. 0 \<notin> set n"
    and present: "fs_files fs (path @ name) = Some b" "length path + length name < path_max"
    and creat: "writable fs crcpath"
    and new: "new = crc_file (set_entry name (crc_of b) es)"
    and fits: "length new \<le> fs_room fs" "length (crc_file es) + (length name + 5) < 2 ^ 31"
  shows "ugSetFileCrc malloc cfg path_max fs name path crcpath =
    Some (0, fs\<lparr>fs_files := (fs_files fs)(crcpath := Some new), fs_room := fs_room fs - length new\<rparr>)"
proof -
  let ?E = "encode_entries es" and ?E' = "encode_entries (set_entry name (crc_of b) es)"
  have sound: "fs_sound fs" using env by (simp add: env_ok_def)
  have small: "length ?E + 4 < 2 ^ 31" using fits(2) by (simp add: crc_file_def)
  obtain buf where buf: "malloc (length ?E + 4 + length name + 1 + 4) = Some buf"
      "length buf = length ?E + 4 + length name + 1 + 4" by (rule env_alloc [OF env])
  define x where "x = drop (length ?E) buf"
  have x: "length x = length name + 9" using buf(2) by (simp add: x_def)
  obtain s s' where s: "itcFileStreamOpen fs undefined crcpath False = (0, s)" "st_size s = int (length ?E + 4)"
      "ugCheckCrc file_stream_vt malloc cfg s (Some buf) =
         Some (if crc_of ?E = crc_of ?E then 0 else 143, Some (?E @ drop (length ?E) buf), s')"
    by (rule read_crc_file [OF f [unfolded crc_file_def] env small, of buf]) (use buf in auto)
  obtain s2 where s2: "itcFileStreamClose s' = Some (0, s2)" using file_close_ok by blast
  have m: "malloc (nat (int (length ?E) + 4 + int (length name) + 1 + 4)) = Some buf"
  proof -
    have "nat (int (length ?E) + 4 + int (length name) + 1 + 4) = length ?E + 4 + length name + 1 + 4" by arith
    then show ?thesis by (simp only: buf(1))
  qed
  define pre where "pre = takeWhile (\<lambda>e. fst e \<noteq> name) es"
  have find: "find_entry (?E @ x) name (length ?E) 0 = Some (length (encode_entries pre))"
    using find_entry_ptr [OF names, of "[]" x name] by (simp add: pre_def)
  obtain rest where store: "put_entry (?E @ x) (length (encode_entries pre)) (length ?E)
       (int (length ?E) + 4 + int (length name) + 1 + 4) name (crc_of b) =
     Some (?E' @ rest, int (length ?E') + 4)" and rest: "4 \<le> length rest"
    by (rule store_entry [OF names x pre_def, of "crc_of b"])
  have seal: "ugSetCrcValue (?E' @ rest) (length ?E') (crc_of ?E') = Some (new @ drop 4 rest)"
    using set_value [of "take 4 rest" ?E' "drop 4 rest" "crc_of ?E'"] rest by (simp add: new crc_file_def)
  have n: "int (length ?E') + 4 = int (length new)" and n': "int (length new) - 4 = int (length ?E')"
    by (simp_all add: new crc_file_def)
  obtain s3 s4 where w: "itcFileStreamOpen fs s2 crcpath True = (0, s3)"
      "FileStreamWrite s3 (new @ drop 4 rest) (int (length new)) = Some (int (length new), s4)"
      "fst_fs s4 = fs\<lparr>fs_files := (fs_files fs)(crcpath := Some new), fs_room := fs_room fs - length new\<rparr>"
    using file_write_whole [OF creat sound, of "length new" "new @ drop 4 rest" s2] fits(1) by auto
  obtain s5 where s5: "itcFileStreamClose s4 = Some (0, s5)" "fst_fs s5 = fst_fs s4"
    using file_close_ok by blast
  have calc: "ugCalcFileCrc malloc cfg fs (path @ name) 0 = Some (0, crc_of b)"
    by (rule calc_value [OF env present(1)])
  have "ugSetFileCrc malloc cfg path_max fs name path crcpath = Some (0, fst_fs s5)"
    using s [folded x_def] m s2 present(2) calc find store seal w(1,2) s5(1) n n' buffer_crc [of ?E' rest]
    by (simp add: ugSetFileCrc_def join_path_def Let_def split del: if_split)
  then show ?thesis using s5(2) w(3) by simp
qed

lemma set_entry_set:
  "distinct (map fst es) \<Longrightarrow>
   set (set_entry name c es) = insert (name, c) {e \<in> set es. fst e \<noteq> name}"
  by (induction name c es rule: set_entry.induct) (auto simp: image_iff split: if_splits)

lemma length_encode_set_entry:
  "length (encode_entries (set_entry name c es)) \<le> length (encode_entries es) + (length name + 5)"
  by (induction name c es rule: set_entry.induct) auto

lemma files_update:
  assumes f: "fs_files fs crcpath = Some (crc_file es)" and env: "env_ok malloc cfg fs"
    and ok: "entries_ok path_max path es" and present: "\<forall>(name, c) \<in> set es. fs_files fs (path @ name) \<noteq> None"
  shows "ugUpgradeFilesCrc malloc cfg path_max fs path crcpath = Some (0, fs)"
proof -
  let ?n = "length (encode_entries es)"
  have small: "?n + 4 < 2 ^ 31"
    and names: "\<forall>(name, c) \<in> set es. 0 \<notin> set name \<and> length path + length name < path_max \<and>
      fs_files fs (path @ name) \<noteq> None"
    using ok present by (auto simp: entries_ok_def)
  obtain buf where buf: "malloc (?n + 4) = Some buf" "length buf = ?n + 4" by (rule env_alloc [OF env])
  obtain s s' where s: "itcFileStreamOpen fs undefined crcpath False = (0, s)" "st_size s = int (?n + 4)"
      "ugCheckCrc file_stream_vt malloc cfg s (Some buf) =
         Some (if crc_of (encode_entries es) = crc_of (encode_entries es) then 0 else 143,
           Some (encode_entries es @ drop ?n buf), s')"
      "fst_fs s' = fs"
    by (rule read_crc_file [OF f [unfolded crc_file_def] env small, of buf]) (use buf in auto)
  have m: "malloc (nat (int (?n + 4))) = Some buf" by (simp only: nat_int buf(1))
  obtain buf' where loop: "update_entries malloc cfg path_max fs path (encode_entries es @ drop ?n buf) ?n 0 =
      Some (0, buf')"
    using update_entries_ok [OF env names, of "[]" "drop ?n buf"] by auto
  obtain s2 where "itcFileStreamClose s' = Some (0, s2)" "fst_fs s2 = fs"
    using file_close_ok [of s'] s(4) by auto
  then show ?thesis using s(1-3) m loop by (simp add: ugUpgradeFilesCrc_def Let_def)
qed

section \<open>Properties of the checksum file\<close>

text \<open>
  C10. \<open>ugCheckFilesCrc\<close> on a checksum file that encodes a list of entries: it returns 143
  when the checksum of the entries is wrong; otherwise it returns 0 exactly when every file named
  exists and has the checksum of its entry, and else 81 or 76 for the first entry whose file is
  missing or differs. The pointer loop stays inside the buffer and ends.
\<close>

theorem check_files_verdict:
  assumes "fs_files fs crcpath = Some (encode_entries es @ le32_bytes c)"
    and "env_ok malloc cfg fs" and "entries_ok path_max path es"
  shows "ugCheckFilesCrc malloc cfg path_max fs path crcpath =
      Some (if c = crc_of (encode_entries es) then entries_verdict fs path es else 143) \<and>
    (entries_verdict fs path es = 0 \<longleftrightarrow>
      (\<forall>(name, c) \<in> set es. \<exists>b. fs_files fs (path @ name) = Some b \<and> c = crc_of b))"
  using files_check [OF assms] entries_verdict_0 by blast

definition demo_fs :: "fsys" where
  "demo_fs = \<lparr>fs_files = [[66, 58, 47, 97] \<mapsto> [1, 2, 3], [66, 58, 99] \<mapsto> crc_file [([47, 97], crc_of [1, 2, 3])]],
     fs_creat = (\<lambda>_. True), fs_room = 1000, fs_keep = (\<lambda>_ _ b. b), fs_fault = (\<lambda>_. None), fs_stat = True,
     fs_dirs = (\<lambda>_. False)\<rparr>"

lemma demo_env: "env_ok (\<lambda>n. Some (replicate n 0)) 4 demo_fs"
  by (auto simp: env_ok_def demo_fs_def fs_sound_def files_small_def alloc_ok_def crc_file_def)

theorem check_files_verdict_witness:
  "ugCheckFilesCrc (\<lambda>n. Some (replicate n 0)) 4 64 demo_fs [66, 58] [66, 58, 99] = Some 0"
  using check_files_verdict [of demo_fs "[66, 58, 99]" "[([47, 97], crc_of [1, 2, 3])]"
      "crc_of (encode_entries [([47, 97], crc_of [1, 2, 3])])" "\<lambda>n. Some (replicate n 0)" 4 64 "[66, 58]"]
    demo_env
  by (simp add: demo_fs_def crc_file_def entries_ok_def)

text \<open>
  C11. Round trip of \<open>ugSetFileCrc\<close>: on a valid checksum file without duplicate names it
  stores the checksum of the file into its entry, or appends an entry, and rewrites the checksum
  file with the checksum of the new entries; no other file changes. When the other entries were
  right, \<open>ugCheckFilesCrc\<close> then accepts all files.
\<close>

theorem set_file_crc_then_check:
  assumes f: "fs_files fs crcpath = Some (crc_file es)" and env: "env_ok malloc cfg fs"
    and ok: "entries_ok path_max path es" "distinct (map fst es)" "0 \<notin> set name"
    and present: "fs_files fs (path @ name) = Some b" "length path + length name < path_max"
    and others: "\<forall>(n, c) \<in> set es. n \<noteq> name \<longrightarrow> (\<exists>b. fs_files fs (path @ n) = Some b \<and> c = crc_of b)"
    and apart: "\<forall>n \<in> insert name (fst ` set es). path @ n \<noteq> crcpath"
    and creat: "writable fs crcpath"
    and fits: "length (crc_file es) + (length name + 5) \<le> fs_room fs"
      "length (crc_file es) + (length name + 5) < 2 ^ 31"
  shows "\<exists>fs'. ugSetFileCrc malloc cfg path_max fs name path crcpath = Some (0, fs') \<and>
    fs_files fs' = (fs_files fs)(crcpath \<mapsto> crc_file (set_entry name (crc_of b) es)) \<and>
    ugCheckFilesCrc malloc cfg path_max fs' path crcpath = Some 0"
proof -
  let ?es = "set_entry name (crc_of b) es"
  let ?new = "crc_file ?es"
  let ?fs = "fs\<lparr>fs_files := (fs_files fs)(crcpath := Some ?new), fs_room := fs_room fs - length ?new\<rparr>"
  have len: "length ?new \<le> length (crc_file es) + (length name + 5)"
    using length_encode_set_entry [of name "crc_of b" es] by (simp add: crc_file_def)
  have names: "\<forall>(n, c) \<in> set es. 0 \<notin> set n" using ok(1) by (auto simp: entries_ok_def)
  have set: "ugSetFileCrc malloc cfg path_max fs name path crcpath = Some (0, ?fs)"
    using len fits by (intro file_set [OF f env names present creat refl]) auto
  have env': "env_ok malloc cfg ?fs"
    using env len fits(2) by (auto simp: env_ok_def fs_sound_def files_small_def)
  have ok': "entries_ok path_max path ?es"
    using ok present(2) len fits(2) by (auto simp: entries_ok_def set_entry_set crc_file_def)
  have "entries_verdict ?fs path ?es = 0"
    using others present(1) apart by (auto simp: entries_verdict_0 set_entry_set [OF ok(2)])
  then have "ugCheckFilesCrc malloc cfg path_max ?fs path crcpath = Some 0"
    using files_check [OF _ env' ok', of crcpath "crc_of (encode_entries ?es)"] by (simp add: crc_file_def)
  with set show ?thesis by auto
qed

theorem set_file_crc_then_check_witness:
  "\<exists>fs'. ugSetFileCrc (\<lambda>n. Some (replicate n 0)) 4 64 demo_fs [47, 97] [66, 58] [66, 58, 99] = Some (0, fs') \<and>
    ugCheckFilesCrc (\<lambda>n. Some (replicate n 0)) 4 64 fs' [66, 58] [66, 58, 99] = Some 0"
  using set_file_crc_then_check [of demo_fs "[66, 58, 99]" "[([47, 97], crc_of [1, 2, 3])]"
      "\<lambda>n. Some (replicate n 0)" 4 64 "[66, 58]" "[47, 97]" "[1, 2, 3]"] demo_env
  by (auto simp: demo_fs_def crc_file_def entries_ok_def writable_def)

text \<open>
  \<open>ugUpgradeFilesCrc\<close>, documented to bring the checksum file up to date, computes the
  new checksums and returns 0, but the file system is unchanged: it never writes its buffer back.
  A file that did not match its entry before does not match afterwards.
\<close>

theorem upgrade_files_crc_writes_nothing:
  assumes "fs_files fs crcpath = Some (crc_file es)" and "env_ok malloc cfg fs"
    and "entries_ok path_max path es" and "\<forall>(name, c) \<in> set es. fs_files fs (path @ name) \<noteq> None"
  shows "ugUpgradeFilesCrc malloc cfg path_max fs path crcpath = Some (0, fs) \<and>
    ugCheckFilesCrc malloc cfg path_max fs path crcpath = Some (entries_verdict fs path es)"
  using files_update [OF assms] files_check [OF _ assms(2,3)] assms(1) by (simp add: crc_file_def)

theorem upgrade_files_crc_writes_nothing_witness:
  "ugUpgradeFilesCrc (\<lambda>n. Some (replicate n 0)) 4 64 demo_fs [66, 58] [66, 58, 99] = Some (0, demo_fs)"
  using upgrade_files_crc_writes_nothing [of demo_fs "[66, 58, 99]" "[([47, 97], crc_of [1, 2, 3])]"
      "\<lambda>n. Some (replicate n 0)" 4 64 "[66, 58]"] demo_env
  by (simp add: demo_fs_def entries_ok_def)

end
