(* ===== verification/UG_Copy.thy ===== *)
theory UG_Copy
  imports ITC_File_Stream
begin

text \<open>
  Copying to a file and verifying it. \<open>ugUpgradeFile\<close> (\<open>sdk/share/upgrade/ug_file.c\<close>)
  and \<open>ugCopyFile\<close> (\<open>ug_reset.c\<close>) run the same two loops over buffers of
  \<open>bufsize\<close> bytes: read a piece and write it to the file; then read it again, read it back
  from the medium and compare. They differ in where the pieces come from, which is the argument
  \<open>rd\<close>, and in the error lines.

  The locale \<open>byte_reader\<close> is what the loops rely on: a call that returns the full count has
  delivered the next bytes. Nothing is assumed of the medium, so the lemma about the second loop
  says what a successful verification proves.
\<close>

type_synonym 'r reader = "fsys \<Rightarrow> 'r \<Rightarrow> bytes \<Rightarrow> u32 \<Rightarrow> (u32 \<times> bytes \<times> 'r) option"

partial_function (option) copy_out ::
    "'r reader \<Rightarrow> int \<Rightarrow> int \<Rightarrow> u32 \<Rightarrow> 'r \<Rightarrow> bytes \<Rightarrow> u32 \<Rightarrow> FILE \<Rightarrow> fsys \<Rightarrow>
     (int \<times> 'r \<times> bytes \<times> FILE \<times> fsys) option" where
  "copy_out rd rline wline bufsize r buf remainsize h fs =
     (let readsize = (if remainsize < bufsize then remainsize else bufsize) in
      do {
        (size2, buf, r) \<leftarrow> rd fs r buf readsize;
        if size2 \<noteq> readsize then Some (rline, r, buf, h, fs)
        else do {
          (size2, h, fs) \<leftarrow> fwrite fs h buf (uint readsize);
          if size2 \<noteq> uint readsize then Some (wline, r, buf, h, fs)
          else
            let remainsize = remainsize - readsize in
            if 0 < remainsize then copy_out rd rline wline bufsize r buf remainsize h fs
            else Some (0, r, buf, h, fs)
        }
      })"

partial_function (option) copy_verify ::
    "'r reader \<Rightarrow> int \<Rightarrow> int \<Rightarrow> int \<Rightarrow> fsys \<Rightarrow> u32 \<Rightarrow> 'r \<Rightarrow> bytes \<Rightarrow> bytes \<Rightarrow> u32 \<Rightarrow> FILE \<Rightarrow>
     (int \<times> 'r \<times> FILE) option" where
  "copy_verify rd rline bline vline fs bufsize r buf buf2 remainsize h =
     (let readsize = (if remainsize < bufsize then remainsize else bufsize) in
      do {
        (size2, buf, r) \<leftarrow> rd fs r buf readsize;
        if size2 \<noteq> readsize then Some (rline, r, h)
        else do {
          (size2, buf2, h) \<leftarrow> fread fs h buf2 (uint readsize);
          if size2 \<noteq> uint readsize then Some (bline, r, h)
          else if take (unat readsize) buf \<noteq> take (unat readsize) buf2 then Some (vline, r, h)
          else
            let remainsize = remainsize - readsize in
            if 0 < remainsize then copy_verify rd rline bline vline fs bufsize r buf buf2 remainsize h
            else Some (0, r, h)
        }
      })"

text \<open>The check of the free space; the sum is one of 64-bit unsigned integers.\<close>

definition out_of_space :: "(path \<Rightarrow> u64 option) \<Rightarrow> fsys \<Rightarrow> path \<Rightarrow> path \<Rightarrow> u32 \<Rightarrow> bool" where
  "out_of_space statvfs fs drive filename filesize =
     (case statvfs drive of
        None \<Rightarrow> False
      | Some free \<Rightarrow>
          (let avail = free + (case fs_files fs filename of Some b \<Rightarrow> word_of_nat (length b) | None \<Rightarrow> 0)
           in avail < ucast filesize))"

section \<open>The contract of the source\<close>

text \<open>File systems that differ in one file and the room left.\<close>

definition fs_same :: "path \<Rightarrow> fsys \<Rightarrow> fsys \<Rightarrow> bool" where
  "fs_same p fs fs' \<longleftrightarrow> (\<forall>q. q \<noteq> p \<longrightarrow> fs_files fs' q = fs_files fs q) \<and> fs_creat fs' = fs_creat fs \<and>
     fs_keep fs' = fs_keep fs \<and> fs_fault fs' = fs_fault fs \<and> fs_stat fs' = fs_stat fs \<and> fs_dirs fs' = fs_dirs fs"

lemma fs_same_refl [simp]: "fs_same p fs fs"
  by (simp add: fs_same_def)

lemma fs_same_trans: "fs_same p fs fs' \<Longrightarrow> fs_same p fs' fs'' \<Longrightarrow> fs_same p fs fs''"
  by (simp add: fs_same_def)

lemma fs_same_sound: "fs_same p fs fs' \<Longrightarrow> fs_sound fs' = fs_sound fs"
  by (simp add: fs_same_def fs_sound_def)

text \<open>One read and one appending write.\<close>

lemma fwrite_append:
  assumes "f_write h" "f_path h = p" "f_pos h = length (file_bytes fs p)" "k \<le> length buf"
  obtains h' fs' bs where "fwrite fs h buf (int k) = Some (int (length bs), h', fs')"
    "length bs = min k (fs_room fs)" "f_write h'" "f_path h' = p" "f_pos h' = length (file_bytes fs' p)"
    "fs_same p fs fs'" "file_bytes fs' p = file_bytes fs p @ bs" "fs_files fs' p \<noteq> None"
    "fs_room fs' = fs_room fs - length bs" "fs_sound fs \<longrightarrow> bs = take (length bs) buf"
proof
  let ?j = "min k (fs_room fs)"
  let ?bs = "kept fs p (f_pos h) (take ?j buf)"
  have len: "length ?bs = ?j" using assms(4) by simp
  let ?h = "h\<lparr>f_pos := f_pos h + ?j\<rparr>"
  let ?fs = "fs\<lparr>fs_files := (fs_files fs)(p := Some (file_bytes fs p @ ?bs)), fs_room := fs_room fs - ?j\<rparr>"
  show "fwrite fs h buf (int k) = Some (int (length ?bs), ?h, ?fs)"
    using assms by (simp add: fwrite_def len overwrite_def Let_def min_absorb1)
  show "length ?bs = ?j" by (fact len)
  show "f_pos ?h = length (file_bytes ?fs p)" using assms(3) len by (simp add: file_bytes_def)
  show "fs_sound fs \<longrightarrow> ?bs = take (length ?bs) buf" by (auto simp only: len kept_sound)
qed (use assms in \<open>auto simp: fs_same_def file_bytes_def\<close>)

lemma fread_some:
  assumes "\<not> f_write h" "k \<le> length buf"
  obtains j buf' h' where "fread fs h buf (int k) = Some (int j, buf', h')" "j \<le> k"
    "length buf' = length buf" "h' = h\<lparr>f_pos := f_pos h + j\<rparr>"
    "take j buf' = slice (file_bytes fs (f_path h)) (f_pos h) j"
    "length (slice (file_bytes fs (f_path h)) (f_pos h) j) = j"
    "fs_fault fs (f_path h) = None \<longrightarrow> j = min k (length (file_bytes fs (f_path h)) - f_pos h)"
proof
  let ?b = "file_bytes fs (f_path h)"
  define j where "j = min k (readable_end fs (f_path h) - f_pos h)"
  have re: "readable_end fs (f_path h) \<le> length ?b" by (simp add: readable_end_def split: option.splits)
  have min: "min (int k) (int (readable_end fs (f_path h) - f_pos h)) = int j" by (simp add: j_def)
  have cp: "memcpy buf 0 ?b (if int j = 0 then 0 else int (f_pos h)) (int j) = Some (slice ?b (f_pos h) j @ drop j buf)"
  proof (cases "j = 0")
    case True
    then show ?thesis using memcpy_int [of 0 0 buf 0 ?b] by simp
  next
    case False
    then have "f_pos h + j \<le> length ?b" "j \<le> length buf" using re assms(2) by (auto simp: j_def)
    then show ?thesis using memcpy_int [of 0 j buf "f_pos h" ?b] False by (simp add: slice_def)
  qed
  show "fread fs h buf (int k) = Some (int j, slice ?b (f_pos h) j @ drop j buf, h\<lparr>f_pos := f_pos h + j\<rparr>)"
    using assms(1) cp by (simp only: fread_def if_False min Let_def bind.bind_lunit nat_int)
  show len: "length (slice ?b (f_pos h) j) = j" using re by (auto simp: j_def)
  then show "take j (slice ?b (f_pos h) j @ drop j buf) = slice ?b (f_pos h) j" by simp
  show "j \<le> k" by (simp add: j_def)
  then show "length (slice ?b (f_pos h) j @ drop j buf) = length buf" using len assms(2) by simp
  show "fs_fault fs (f_path h) = None \<longrightarrow> j = min k (length ?b - f_pos h)"
    by (simp add: j_def readable_end_def)
qed simp

locale byte_reader =
  fixes rd :: "'r reader"
    and dest :: path
    and inv :: "fsys \<Rightarrow> 'r \<Rightarrow> bool"
    and works :: "fsys \<Rightarrow> 'r \<Rightarrow> bool"
    and contents :: "fsys \<Rightarrow> 'r \<Rightarrow> bytes"
    and cursor :: "'r \<Rightarrow> nat"
  assumes read_law: "inv fs r \<Longrightarrow> unat n \<le> length buf \<Longrightarrow> unat n < 2 ^ 31 \<Longrightarrow>
      cursor r + unat n \<le> length (contents fs r) \<Longrightarrow>
      \<exists>k buf' r'. rd fs r buf n = Some (k, buf', r') \<and> inv fs r' \<and> contents fs r' = contents fs r \<and>
        works fs r' = works fs r \<and> length buf' = length buf \<and> (works fs r \<longrightarrow> k = n) \<and>
        (k = n \<longrightarrow> cursor r' = cursor r + unat n \<and>
          take (unat n) buf' = slice (contents fs r) (cursor r) (unat n))"
    and frame: "inv fs r \<Longrightarrow> fs_same dest fs fs' \<Longrightarrow>
      inv fs' r \<and> works fs' r = works fs r \<and> contents fs' r = contents fs r"
begin

text \<open>
  The first loop ends and appends \<open>n\<close> bytes, the bytes of the source on a sound medium.
\<close>

lemma copy_out_result:
  assumes lines: "rline \<noteq> 0" "wline \<noteq> 0"
    and "inv fs r" "cursor r + n \<le> length (contents fs r)" "n < 2 ^ 31"
    and "n = 0 \<or> 0 < unat bufsize" "min n (unat bufsize) \<le> length buf"
    and "f_write h" "f_path h = dest" "f_pos h = length (file_bytes fs dest)" "fs_files fs dest \<noteq> None"
  shows "\<exists>ret r' buf' h' fs'. copy_out rd rline wline bufsize r buf (word_of_nat n) h fs = Some (ret, r', buf', h', fs') \<and>
      inv fs' r' \<and> contents fs' r' = contents fs r \<and> works fs' r' = works fs r \<and> length buf' = length buf \<and>
      fs_same dest fs fs' \<and> fs_files fs' dest \<noteq> None \<and> fs_room fs \<le> fs_room fs' + n \<and>
      (ret = 0 \<longrightarrow> cursor r' = cursor r + n \<and> length (file_bytes fs' dest) = length (file_bytes fs dest) + n) \<and>
      (works fs r \<and> fs_sound fs \<and> n \<le> fs_room fs \<longrightarrow>
        ret = 0 \<and> file_bytes fs' dest = file_bytes fs dest @ slice (contents fs r) (cursor r) n)"
  using assms(3-)
proof (induction n arbitrary: r buf h fs rule: less_induct)
  case (less n)
  define k where "k = min n (unat bufsize)"
  let ?w = "word_of_nat k :: u32"
  have k: "k \<le> length buf" "cursor r + k \<le> length (contents fs r)" "k < 2 ^ 31" "k \<le> n"
    using less.prems by (auto simp: k_def)
  have uk: "unat ?w = k" "uint ?w = int k" using k(3) by (simp_all add: unat_of_nat uint_nat)
  have readsize: "(if (word_of_nat n :: u32) < bufsize then word_of_nat n else bufsize) = ?w"
    using less.prems(3) by (simp add: k_def word_less_nat_alt unat_of_nat min_def)
  have rest: "(word_of_nat n :: u32) - ?w = word_of_nat (n - k)" using k(4) by simp
  have pos: "0 < (word_of_nat (n - k) :: u32) \<longleftrightarrow> k < n"
    using less.prems(3) by (simp add: word_less_nat_alt unat_of_nat)
  obtain k' buf1 r1 where r1: "rd fs r buf ?w = Some (k', buf1, r1)" "inv fs r1" "contents fs r1 = contents fs r"
      "works fs r1 = works fs r" "length buf1 = length buf" "works fs r \<longrightarrow> k' = ?w"
      "k' = ?w \<longrightarrow> cursor r1 = cursor r + k \<and> take k buf1 = slice (contents fs r) (cursor r) k"
    using read_law [OF less.prems(1), of ?w buf, unfolded uk, OF k(1) k(3) k(2)] by (elim exE conjE) (rule that)
  note step = copy_out.simps [of rd rline wline bufsize r buf "word_of_nat n" h fs, unfolded readsize]
  show ?case
  proof (cases "k' = ?w")
    case False
    with r1 lines less.prems(9) show ?thesis by (auto simp: step Let_def)
  next
    case full: True
    have k1: "k \<le> length buf1" using k(1) r1(5) by simp
    obtain h1 fs1 bs where w: "fwrite fs h buf1 (int k) = Some (int (length bs), h1, fs1)"
      "length bs = min k (fs_room fs)" "f_write h1" "f_path h1 = dest" "f_pos h1 = length (file_bytes fs1 dest)"
      "fs_same dest fs fs1" "file_bytes fs1 dest = file_bytes fs dest @ bs" "fs_files fs1 dest \<noteq> None"
      "fs_room fs1 = fs_room fs - length bs" "fs_sound fs \<longrightarrow> bs = take (length bs) buf1"
      by (rule fwrite_append [OF less.prems(6-8) k1])
    note fr = frame [OF r1(2) w(6)]
    show ?thesis
    proof (cases "length bs = k")
      case False
      with full r1 lines w fr k(4) show ?thesis by (auto simp: step Let_def uk)
    next
      case wrote: True
      have data: "bs = slice (contents fs r) (cursor r) k" if "fs_sound fs"
        using w(10) that wrote r1(7) full by simp
      show ?thesis
      proof (cases "k < n")
        case False
        then have kn: "k = n" using k(4) by simp
        have run: "copy_out rd rline wline bufsize r buf (word_of_nat n) h fs = Some (0, r1, buf1, h1, fs1)"
          using full r1(1) w(1) wrote False by (simp add: step Let_def uk rest pos del: of_nat_diff)
        show ?thesis
          by (rule exI [of _ 0], rule exI [of _ r1], rule exI [of _ buf1], rule exI [of _ h1], rule exI [of _ fs1])
            (use run fr r1(3,4,5,7) full w(6-9) wrote data kn in simp)
      next
        case True
        then have kb: "0 < k" "k = unat bufsize" using less.prems(4) by (auto simp: k_def)
        have ih: "\<exists>ret r' buf' h' fs'. copy_out rd rline wline bufsize r1 buf1 (word_of_nat (n - k)) h1 fs1 =
              Some (ret, r', buf', h', fs') \<and>
            inv fs' r' \<and> contents fs' r' = contents fs1 r1 \<and> works fs' r' = works fs1 r1 \<and> length buf' = length buf1 \<and>
            fs_same dest fs1 fs' \<and> fs_files fs' dest \<noteq> None \<and> fs_room fs1 \<le> fs_room fs' + (n - k) \<and>
            (ret = 0 \<longrightarrow> cursor r' = cursor r1 + (n - k) \<and>
              length (file_bytes fs' dest) = length (file_bytes fs1 dest) + (n - k)) \<and>
            (works fs1 r1 \<and> fs_sound fs1 \<and> n - k \<le> fs_room fs1 \<longrightarrow>
              ret = 0 \<and> file_bytes fs' dest = file_bytes fs1 dest @ slice (contents fs1 r1) (cursor r1) (n - k))"
          using True kb k less.prems fr r1 full w by (intro less.IH) auto
        have eqs: "contents fs1 r1 = contents fs r" "works fs1 r1 = works fs r" "length buf1 = length buf"
          using fr r1 by simp_all
        from ih [unfolded eqs] obtain ret r' buf' h' fs' where ih: "copy_out rd rline wline bufsize r1 buf1 (word_of_nat (n - k)) h1 fs1 =
              Some (ret, r', buf', h', fs')"
            "inv fs' r'" "contents fs' r' = contents fs r" "works fs' r' = works fs r" "length buf' = length buf"
            "fs_same dest fs1 fs'" "fs_files fs' dest \<noteq> None" "fs_room fs1 \<le> fs_room fs' + (n - k)"
            "ret = 0 \<longrightarrow> cursor r' = cursor r1 + (n - k) \<and>
              length (file_bytes fs' dest) = length (file_bytes fs1 dest) + (n - k)"
            "works fs r \<and> fs_sound fs1 \<and> n - k \<le> fs_room fs1 \<longrightarrow>
              ret = 0 \<and> file_bytes fs' dest = file_bytes fs1 dest @ slice (contents fs r) (cursor r1) (n - k)"
          by (elim exE conjE) (rule that)
        have cur: "cursor r1 = cursor r + k" using r1(7) full by simp
        have cut: "slice (contents fs r) (cursor r) n =
            slice (contents fs r) (cursor r) k @ slice (contents fs r) (cursor r1) (n - k)"
          using True by (simp add: slice_append cur)
        have good: "ret = 0 \<and> file_bytes fs' dest = file_bytes fs dest @ slice (contents fs r) (cursor r) n"
          if "works fs r" "fs_sound fs" "n \<le> fs_room fs"
        proof -
          have "n - k \<le> fs_room fs1" using that(3) w(9) wrote by simp
          with ih(10) that fs_same_sound [OF w(6)]
          have "ret = 0" "file_bytes fs' dest = file_bytes fs1 dest @ slice (contents fs r) (cursor r1) (n - k)"
            by simp_all
          then show ?thesis using w(7) data [OF that(2)] cut by simp
        qed
        have run: "copy_out rd rline wline bufsize r buf (word_of_nat n) h fs = Some (ret, r', buf', h', fs')"
          using full r1(1) w(1) wrote ih(1) True by (simp add: step Let_def uk rest pos del: of_nat_diff)
        have len: "ret = 0 \<longrightarrow> cursor r' = cursor r + n \<and>
            length (file_bytes fs' dest) = length (file_bytes fs dest) + n"
          using ih(9) cur w(7) wrote True by simp
        have room: "fs_room fs \<le> fs_room fs' + n" using ih(8) w(9) wrote True by simp
        show ?thesis
          by (rule exI [of _ ret], rule exI [of _ r'], rule exI [of _ buf'], rule exI [of _ h'], rule exI [of _ fs'])
            (intro conjI run ih(2-5,7) fs_same_trans [OF w(6) ih(6)] room len, use good in simp)
      qed
    qed
  qed
qed

text \<open>
  The second loop ends; when it returns 0, the file holds the bytes of the source. No assumption on
  the medium is made.
\<close>

lemma copy_verify_result:
  assumes lines: "rline \<noteq> 0" "bline \<noteq> 0" "vline \<noteq> 0"
    and "inv fs r" "cursor r + n \<le> length (contents fs r)" "n < 2 ^ 31"
    and "n = 0 \<or> 0 < unat bufsize" "min n (unat bufsize) \<le> length buf" "min n (unat bufsize) \<le> length buf2"
    and "\<not> f_write h"
  shows "\<exists>ret r' h'. copy_verify rd rline bline vline fs bufsize r buf buf2 (word_of_nat n) h = Some (ret, r', h') \<and>
      inv fs r' \<and> contents fs r' = contents fs r \<and>
      (ret = 0 \<longrightarrow> cursor r' = cursor r + n \<and>
        slice (file_bytes fs (f_path h)) (f_pos h) n = slice (contents fs r) (cursor r) n) \<and>
      (works fs r \<and> fs_sound fs \<and>
        slice (file_bytes fs (f_path h)) (f_pos h) n = slice (contents fs r) (cursor r) n \<longrightarrow> ret = 0)"
  using assms(4-)
proof (induction n arbitrary: r buf buf2 h rule: less_induct)
  case (less n)
  define k where "k = min n (unat bufsize)"
  let ?w = "word_of_nat k :: u32" and ?b = "file_bytes fs (f_path h)"
  have k: "k \<le> length buf" "k \<le> length buf2" "cursor r + k \<le> length (contents fs r)" "k < 2 ^ 31" "k \<le> n"
    using less.prems by (auto simp: k_def)
  have uk: "unat ?w = k" "uint ?w = int k" using k(4) by (simp_all add: unat_of_nat uint_nat)
  have readsize: "(if (word_of_nat n :: u32) < bufsize then word_of_nat n else bufsize) = ?w"
    using less.prems(3) by (simp add: k_def word_less_nat_alt unat_of_nat min_def)
  have rest: "(word_of_nat n :: u32) - ?w = word_of_nat (n - k)" using k(5) by simp
  have pos: "0 < (word_of_nat (n - k) :: u32) \<longleftrightarrow> k < n"
    using less.prems(3) by (simp add: word_less_nat_alt unat_of_nat)
  obtain k' buf1 r1 where r1: "rd fs r buf ?w = Some (k', buf1, r1)" "inv fs r1" "contents fs r1 = contents fs r"
      "works fs r1 = works fs r" "length buf1 = length buf" "works fs r \<longrightarrow> k' = ?w"
      "k' = ?w \<longrightarrow> cursor r1 = cursor r + k \<and> take k buf1 = slice (contents fs r) (cursor r) k"
    using read_law [OF less.prems(1), of ?w buf, unfolded uk, OF k(1) k(4) k(3)] by (elim exE conjE) (rule that)
  note step = copy_verify.simps [of rd rline bline vline fs bufsize r buf buf2 "word_of_nat n" h, unfolded readsize]
  have cut: "slice xs i n = slice xs i k @ slice xs (i + k) (n - k)" for xs :: bytes and i
    using k(5) by (simp add: slice_append)
  have long: "length (slice (contents fs r) (cursor r) k) = k" using k(3) by simp
  have split: "slice ?b (f_pos h) n = slice (contents fs r) (cursor r) n \<longleftrightarrow>
      slice ?b (f_pos h) k = slice (contents fs r) (cursor r) k \<and>
      slice ?b (f_pos h + k) (n - k) = slice (contents fs r) (cursor r + k) (n - k)"
  proof
    assume eq: "slice ?b (f_pos h) n = slice (contents fs r) (cursor r) n"
    have "take k (slice ?b (f_pos h) n) = slice ?b (f_pos h) k"
      "take k (slice (contents fs r) (cursor r) n) = slice (contents fs r) (cursor r) k"
      using k(5) by (simp_all add: slice_def min_absorb1)
    with eq have 1: "slice ?b (f_pos h) k = slice (contents fs r) (cursor r) k" by simp
    with eq show "slice ?b (f_pos h) k = slice (contents fs r) (cursor r) k \<and>
      slice ?b (f_pos h + k) (n - k) = slice (contents fs r) (cursor r + k) (n - k)"
      unfolding cut by simp
  qed (simp add: cut)
  show ?case
  proof (cases "k' = ?w")
    case False
    with r1 lines show ?thesis by (auto simp: step Let_def)
  next
    case full: True
    obtain j buf3 h1 where rb: "fread fs h buf2 (int k) = Some (int j, buf3, h1)" "j \<le> k"
        "length buf3 = length buf2" "h1 = h\<lparr>f_pos := f_pos h + j\<rparr>"
        "take j buf3 = slice ?b (f_pos h) j" "length (slice ?b (f_pos h) j) = j"
        "fs_fault fs (f_path h) = None \<longrightarrow> j = min k (length ?b - f_pos h)"
      by (rule fread_some [OF less.prems(7) k(2)])
    show ?thesis
    proof (cases "j = k \<and> take k buf1 = take k buf3")
      case False
      have "\<not> (fs_sound fs \<and> slice ?b (f_pos h) k = slice (contents fs r) (cursor r) k)"
      proof
        assume a: "fs_sound fs \<and> slice ?b (f_pos h) k = slice (contents fs r) (cursor r) k"
        then have "length (slice ?b (f_pos h) k) = k" using long by simp
        moreover have "fs_fault fs (f_path h) = None" using a by (simp add: fs_sound_def)
        then have "j = min k (length ?b - f_pos h)" by (rule mp [OF rb(7)])
        ultimately have "j = k" by (metis length_slice)
        with a rb(5) r1(7) full False show False by simp
      qed
      with False full r1 lines rb(1) split show ?thesis by (auto simp: step Let_def uk)
    next
      case same: True
      then have eq: "slice ?b (f_pos h) k = slice (contents fs r) (cursor r) k"
        using rb(5) r1(7) full by simp
      show ?thesis
      proof (cases "k < n")
        case False
        then have kn: "k = n" using k(5) by simp
        have run: "copy_verify rd rline bline vline fs bufsize r buf buf2 (word_of_nat n) h = Some (0, r1, h1)"
          using full r1(1) rb(1) same False by (simp add: step Let_def uk rest pos del: of_nat_diff)
        show ?thesis
          by (rule exI [of _ 0], rule exI [of _ r1], rule exI [of _ h1])
            (use run r1(2,3,7) full eq kn in simp)
      next
        case True
        then have kb: "0 < k" "k = unat bufsize" using less.prems(4) by (auto simp: k_def)
        have cur: "cursor r1 = cursor r + k" using r1(7) full by simp
        have ih: "\<exists>ret r' h'. copy_verify rd rline bline vline fs bufsize r1 buf1 buf3 (word_of_nat (n - k)) h1 = Some (ret, r', h') \<and>
            inv fs r' \<and> contents fs r' = contents fs r1 \<and>
            (ret = 0 \<longrightarrow> cursor r' = cursor r1 + (n - k) \<and>
              slice (file_bytes fs (f_path h1)) (f_pos h1) (n - k) = slice (contents fs r1) (cursor r1) (n - k)) \<and>
            (works fs r1 \<and> fs_sound fs \<and>
              slice (file_bytes fs (f_path h1)) (f_pos h1) (n - k) = slice (contents fs r1) (cursor r1) (n - k) \<longrightarrow> ret = 0)"
          using True kb k less.prems r1 cur rb by (intro less.IH) auto
        have eqs: "contents fs r1 = contents fs r" "works fs r1 = works fs r" "cursor r1 = cursor r + k"
            "f_path h1 = f_path h" "f_pos h1 = f_pos h + k"
          using r1(3,4) cur rb(4) same by simp_all
        have nk: "cursor r + k + (n - k) = cursor r + n" using True by simp
        from ih [unfolded eqs nk] obtain ret r' h' where ih: "copy_verify rd rline bline vline fs bufsize r1 buf1 buf3 (word_of_nat (n - k)) h1 =
              Some (ret, r', h')"
            "inv fs r'" "contents fs r' = contents fs r"
            "ret = 0 \<longrightarrow> cursor r' = cursor r + n \<and>
              slice ?b (f_pos h + k) (n - k) = slice (contents fs r) (cursor r + k) (n - k)"
            "works fs r \<and> fs_sound fs \<and>
              slice ?b (f_pos h + k) (n - k) = slice (contents fs r) (cursor r + k) (n - k) \<longrightarrow> ret = 0"
          by (elim exE conjE) (rule that)
        have run: "copy_verify rd rline bline vline fs bufsize r buf buf2 (word_of_nat n) h = Some (ret, r', h')"
          using full r1(1) rb(1) same ih(1) True by (simp add: step Let_def uk rest pos del: of_nat_diff)
        show ?thesis
          by (rule exI [of _ ret], rule exI [of _ r'], rule exI [of _ h'])
            (intro conjI run ih(2,3), use ih(4,5) split eq in simp_all)
      qed
    qed
  qed
qed

end

section \<open>A file as the source\<close>

definition fread_reader :: "FILE reader" where
  "fread_reader fs h buf n = do {
     (r, buf, h) \<leftarrow> fread fs h buf (uint n);
     Some (word_of_int r, buf, h)
   }"

interpretation file_reader: byte_reader fread_reader dest "\<lambda>fs h. \<not> f_write h \<and> f_path h \<noteq> dest"
    "\<lambda>fs h. fs_fault fs (f_path h) = None" "\<lambda>fs h. file_bytes fs (f_path h)" f_pos for dest
proof
  fix fs :: fsys and h :: FILE and n :: u32 and buf :: bytes
  assume a: "\<not> f_write h \<and> f_path h \<noteq> dest" "unat n \<le> length buf" "unat n < 2 ^ 31"
    "f_pos h + unat n \<le> length (file_bytes fs (f_path h))"
  obtain j buf' h' where r: "fread fs h buf (int (unat n)) = Some (int j, buf', h')" "j \<le> unat n"
      "length buf' = length buf" "h' = h\<lparr>f_pos := f_pos h + j\<rparr>"
      "take j buf' = slice (file_bytes fs (f_path h)) (f_pos h) j"
      "fs_fault fs (f_path h) = None \<longrightarrow> j = min (unat n) (length (file_bytes fs (f_path h)) - f_pos h)"
    using fread_some [of h "unat n" buf fs] a(1,2) by metis
  have "(word_of_int (int j) :: u32) = n \<longleftrightarrow> j = unat n"
    using r(2) a(3) by (auto simp: unat_of_nat)
  then show "\<exists>k buf' r'. fread_reader fs h buf n = Some (k, buf', r') \<and> (\<not> f_write r' \<and> f_path r' \<noteq> dest) \<and>
      file_bytes fs (f_path r') = file_bytes fs (f_path h) \<and>
      (fs_fault fs (f_path r') = None) = (fs_fault fs (f_path h) = None) \<and>
      length buf' = length buf \<and> (fs_fault fs (f_path h) = None \<longrightarrow> k = n) \<and>
      (k = n \<longrightarrow> f_pos r' = f_pos h + unat n \<and>
        take (unat n) buf' = slice (file_bytes fs (f_path h)) (f_pos h) (unat n))"
    using r a(1,4) by (auto simp: fread_reader_def)
qed (auto simp: fs_same_def file_bytes_def)

end
