(* ===== verification/UG_File.thy ===== *)
theory UG_File
  imports UG_Crc UG_Copy
begin

text \<open>
  The file block of a package (\<open>sdk/share/upgrade/ug_file.c\<close>): the name and the size of
  a file, then its bytes, exclusive-ored with a key. \<open>ugUpgradeFile\<close> writes the file to the
  drive and verifies it against the package.

  The key, the size of the buffer, \<open>PATH_MAX\<close> (the length of \<open>stack\<close>, the uninitialised
  bytes of the local array \<open>filename\<close>) and the result of \<open>statvfs\<close> (the product
  \<open>f_bfree * f_bsize\<close> as the code computes it, or failure) are arguments.
\<close>

section \<open>Decoding\<close>

text \<open>
  The words of the buffer are exclusive-ored with the key repeated four times, the bytes left over
  with the key; the target is little-endian.
\<close>

definition key32 :: "u32 \<Rightarrow> u32" where
  "key32 enckey = push_bit 24 enckey OR push_bit 16 enckey OR push_bit 8 enckey OR enckey"

fun enc_xor :: "u32 \<Rightarrow> bytes \<Rightarrow> bytes" where
  "enc_xor enckey (a # b # c # d # bs) = le32_bytes (le32 [a, b, c, d] XOR key32 enckey) @ enc_xor enckey bs"
| "enc_xor enckey bs = map (\<lambda>b. b XOR ucast enckey) bs"

definition enc_fread ::
    "'s itc_vt \<Rightarrow> (nat \<Rightarrow> bytes option) \<Rightarrow> u32 \<Rightarrow> 's \<Rightarrow> bytes \<Rightarrow> u32 \<Rightarrow> (u32 \<times> bytes \<times> 's) option" where
  "enc_fread vt malloc enckey stream buffer bufsize =
     (if enckey = 0 then do {
        (r, buffer, stream) \<leftarrow> vt_Read vt stream buffer (sint bufsize);
        Some (word_of_int r, buffer, stream)
      }
      else
        case malloc (unat bufsize) of
          None \<Rightarrow> Some (0, buffer, stream)
        | Some buf \<Rightarrow> do {
            (r, buf, stream) \<leftarrow> vt_Read vt stream buf (sint bufsize);
            buffer \<leftarrow> memcpy buffer 0 (enc_xor enckey (take (unat bufsize) buf)) 0 (int (unat bufsize));
            Some (word_of_int r, buffer, stream)
          })"

section \<open>The file block\<close>

text \<open>From the allocation of the buffer to the end: writing and verifying.\<close>

definition upgrade_file_data ::
    "'s itc_vt \<Rightarrow> (nat \<Rightarrow> bytes option) \<Rightarrow> u32 \<Rightarrow> u32 \<Rightarrow> (path \<Rightarrow> u64 option) \<Rightarrow> fsys \<Rightarrow> 's \<Rightarrow> path \<Rightarrow>
     bytes \<Rightarrow> u32 \<Rightarrow> (int \<times> 's \<times> fsys) option" where
  "upgrade_file_data vt malloc cfg enckey statvfs fs f drive filename filesize =
     (let bufsize = (if cfg < filesize then cfg else filesize) in
      case malloc (unat bufsize) of
        None \<Rightarrow> Some (108, f, fs)
      | Some buf \<Rightarrow> do {
          filename \<leftarrow> str_at filename 0;
          if out_of_space statvfs fs drive filename filesize then Some (124, f, fs)
          else
            case fopen fs filename True of
              (None, fs) \<Rightarrow> Some (134, f, fs)
            | (Some outfile, fs) \<Rightarrow> do {
                (ret, f, buf, outfile, fs) \<leftarrow>
                  copy_out (\<lambda>_. enc_fread vt malloc enckey) 148 156 bufsize f buf filesize outfile fs;
                if ret \<noteq> 0 then Some (ret, f, fs)
                else
                  case malloc (unat bufsize) of
                    None \<Rightarrow> Some (177, f, fs)
                  | Some buf2 \<Rightarrow>
                      case fopen fs filename False of
                        (None, fs) \<Rightarrow> Some (185, f, fs)
                      | (Some outfile, fs) \<Rightarrow> do {
                          (r, f) \<leftarrow> vt_Seek vt f (- uint filesize) SEEK_CUR;
                          if r \<noteq> 0 then Some (192, f, fs)
                          else do {
                            (ret, f, outfile) \<leftarrow>
                              copy_verify (\<lambda>_. enc_fread vt malloc enckey) 204 214 221 fs bufsize f buf buf2 filesize outfile;
                            Some (ret, f, fs)
                          }
                        }
              }
        })"

definition ugUpgradeFile ::
    "'s itc_vt \<Rightarrow> (nat \<Rightarrow> bytes option) \<Rightarrow> u32 \<Rightarrow> u32 \<Rightarrow> (path \<Rightarrow> u64 option) \<Rightarrow> bytes \<Rightarrow> fsys \<Rightarrow> 's \<Rightarrow> path \<Rightarrow>
     (int \<times> 's \<times> fsys) option" where
  "ugUpgradeFile vt malloc cfg enckey statvfs stack fs f drive = do {
     (r, header, f) \<leftarrow> vt_Read vt f (replicate 4 0) 4;
     if (word_of_int r :: u32) \<noteq> 4 then Some (76, f, fs)
     else do {
       let filename_size = le32 header;
       filename \<leftarrow> memcpy stack 0 (drive @ [0]) 0 (int (length drive + 1));
       (r, rest, f) \<leftarrow> vt_Read vt f (drop 2 filename) (sint filename_size);
       if word_of_int r \<noteq> filename_size then Some (89, f, fs)
       else do {
         let filename = take 2 filename @ rest;
         (r, header, f) \<leftarrow> vt_Read vt f (replicate 4 0) 4;
         if (word_of_int r :: u32) \<noteq> 4 then Some (97, f, fs)
         else do {
           let filesize = le32 header;
           upgrade_file_data vt malloc cfg enckey statvfs fs f drive filename filesize
         }
       }
     }
   }"

section \<open>Decoding with a key of one byte\<close>

lemma le32_bytes_le32: "length bs = 4 \<Longrightarrow> le32_bytes (le32 bs) = bs"
  by (rule le32_inj) simp_all

lemma le32_bytes_xor: "le32_bytes (v XOR w) = map2 (XOR) (le32_bytes v) (le32_bytes w)"
  by (simp add: le32_bytes_def drop_bit_xor unsigned_xor_eq)

lemma le32_bytes_key: "le32_bytes (key32 (ucast k)) = replicate 4 k" for k :: u8
proof -
  have "ucast (drop_bit i (key32 (ucast k))) = k" if "i \<in> {0, 8, 16, 24}" for i
  proof (rule bit_word_eqI)
    fix n assume "n < LENGTH(8)"
    with that show "bit (ucast (drop_bit i (key32 (ucast k))) :: u8) n = bit k n"
      by (auto simp: key32_def bit_simps dest: bit_imp_le_length)
  qed
  from this [of 0] this [of 8] this [of 16] this [of 24] show ?thesis
    by (simp add: le32_bytes_def numeral_eq_Suc)
qed

lemma byte_ucast: "ucast (ucast k :: u32) = k" for k :: u8
  by (rule bit_word_eqI) (auto simp: bit_simps)

lemma enc_xor_key: "enc_xor (ucast k) bs = map (\<lambda>b. b XOR k) bs" for k :: u8
proof (induction "ucast k :: u32" bs rule: enc_xor.induct)
  case (1 a b c d bs)
  have "replicate 4 k = [k, k, k, k]" by (simp add: numeral_eq_Suc)
  then have "le32_bytes (le32 [a, b, c, d] XOR key32 (ucast k)) = map (\<lambda>b. b XOR k) [a, b, c, d]"
    by (simp add: le32_bytes_xor le32_bytes_le32 le32_bytes_key)
  with 1 show ?case by simp
qed (simp_all add: byte_ucast)

definition decoded :: "u8 \<Rightarrow> bytes \<Rightarrow> bytes" where
  "decoded k = map (\<lambda>b. b XOR k)"

lemma decoded_simps [simp]: "length (decoded k bs) = length bs" "decoded k [] = []"
    "slice (decoded k bs) i n = decoded k (slice bs i n)" "decoded k (as @ bs) = decoded k as @ decoded k bs"
  by (simp_all add: decoded_def slice_def take_map drop_map)

lemma decoded_eq: "decoded k as = decoded k bs \<longleftrightarrow> as = bs"
proof -
  have "decoded k (decoded k xs) = xs" for xs by (simp add: decoded_def xor.assoc comp_def)
  then show ?thesis by metis
qed

context itc_source
begin

lemma enc_fread_result:
  fixes n :: u32
  assumes "inv s" "unat n \<le> length buf" "unat n < 2 ^ 31" "cursor s + unat n \<le> length (contents s)"
    and alloc: "alloc_sized malloc"
  shows "\<exists>m buf' s'. enc_fread vt malloc (ucast k) s buf n = Some (m, buf', s') \<and> inv s' \<and>
    contents s' = contents s \<and> length buf' = length buf \<and> ((\<forall>n. malloc n \<noteq> None) \<longrightarrow> m = n) \<and>
    (m = n \<longrightarrow> cursor s' = cursor s + unat n \<and> take (unat n) buf' = decoded k (slice (contents s) (cursor s) (unat n)))"
proof -
  have n: "sint n = int (unat n)" using sint_of_nat_u32 [OF assms(3)] by simp
  show ?thesis
  proof (cases "(ucast k :: u32) = 0")
    case True
    then have k: "k = 0" using byte_ucast [of k] by simp
    obtain s' where "vt_Read vt s buf (int (unat n)) =
        Some (int (unat n), slice (contents s) (cursor s) (unat n) @ drop (unat n) buf, s')"
        "inv s'" "contents s' = contents s" "cursor s' = cursor s + unat n"
      using read_exact [OF assms(1,2,4)] by blast
    then show ?thesis using assms(2,4) n by (simp add: enc_fread_def k decoded_def)
  next
    case False
    show ?thesis
    proof (cases "malloc (unat n)")
      case None
      show ?thesis
      proof (cases "n = 0")
        case True
        with None assms(1) False show ?thesis by (auto simp: enc_fread_def)
      next
        case n0: False
        with None assms(1) False show ?thesis by (auto simp: enc_fread_def)
      qed
    next
      case (Some b)
      then have b: "length b = unat n" using alloc by (auto simp: alloc_sized_def)
      obtain s' where s': "vt_Read vt s b (int (unat n)) =
          Some (int (unat n), slice (contents s) (cursor s) (unat n) @ drop (unat n) b, s')"
          "inv s'" "contents s' = contents s" "cursor s' = cursor s + unat n"
        using read_exact [OF assms(1) _ assms(4), of b] b by auto
      let ?d = "decoded k (slice (contents s) (cursor s) (unat n))"
      have len: "length ?d = unat n" using assms(4) by simp
      have "memcpy buf 0 ?d 0 (int (unat n)) = Some (?d @ drop (unat n) buf)"
        using memcpy_int [of 0 "unat n" buf 0 ?d] assms(2) len by simp
      then show ?thesis
        using s' Some False assms(2,4) len b
        by (simp add: enc_fread_def n enc_xor_key decoded_def [symmetric])
    qed
  qed
qed

lemma enc_reader:
  assumes "alloc_sized malloc"
  shows "byte_reader (\<lambda>_. enc_fread vt malloc (ucast k)) dest (\<lambda>_. inv) (\<lambda>_ _. \<forall>n. malloc n \<noteq> None)
    (\<lambda>_ s. decoded k (contents s)) cursor"
proof
  fix fs s and n :: u32 and buf :: bytes
  assume "inv s" "unat n \<le> length buf" "unat n < 2 ^ 31" "cursor s + unat n \<le> length (decoded k (contents s))"
  then show "\<exists>m buf' s'. enc_fread vt malloc (ucast k) s buf n = Some (m, buf', s') \<and> inv s' \<and>
      decoded k (contents s') = decoded k (contents s) \<and> (\<forall>n. malloc n \<noteq> None) = (\<forall>n. malloc n \<noteq> None) \<and>
      length buf' = length buf \<and> ((\<forall>n. malloc n \<noteq> None) \<longrightarrow> m = n) \<and>
      (m = n \<longrightarrow> cursor s' = cursor s + unat n \<and>
        take (unat n) buf' = slice (decoded k (contents s)) (cursor s) (unat n))"
    using enc_fread_result [of s n buf malloc k] assms by auto
qed auto

lemma upgrade_file_data_result:
  assumes "inv s" and fit: "cursor s + n < length (contents s)" "n < 2 ^ 31"
    and alloc: "alloc_sized malloc" and cfg: "0 < unat cfg" and name: "str_at filename 0 = Some p"
  shows "\<exists>ret s' fs'. upgrade_file_data vt malloc cfg (ucast k) statvfs fs s drive filename (word_of_nat n) =
      Some (ret, s', fs') \<and> inv s' \<and> contents s' = contents s \<and> fs_same p fs fs' \<and> fs_room fs \<le> fs_room fs' + n \<and>
    (ret = 0 \<longrightarrow> cursor s' = cursor s + n \<and> fs_files fs' p = Some (decoded k (slice (contents s) (cursor s) n))) \<and>
    ((\<forall>n. malloc n \<noteq> None) \<and> fs_sound fs \<and> writable fs p \<and> n \<le> fs_room fs \<and>
      \<not> out_of_space statvfs fs drive p (word_of_nat n) \<longrightarrow> ret = 0)"
proof -
  let ?rd = "\<lambda>_ :: fsys. enc_fread vt malloc (ucast k)" and ?w = "word_of_nat n :: u32"
  note rdr = enc_reader [OF alloc, of k p]
  define bufsize where "bufsize = (if cfg < ?w then cfg else ?w)"
  have ub: "unat bufsize = min n (unat cfg)"
    using fit(2) by (simp add: bufsize_def word_less_nat_alt unat_of_nat min_def)
  have bs: "n = 0 \<or> 0 < unat bufsize" and mb: "min n (unat bufsize) = unat bufsize"
    using cfg by (auto simp: ub)
  have fit': "cursor s + n \<le> length (decoded k (contents s))" using fit(1) by simp
  show ?thesis
  proof (cases "malloc (unat bufsize)")
    case None
    with assms(1) show ?thesis by (auto simp: upgrade_file_data_def bufsize_def [symmetric])
  next
    case buf: (Some buf)
    then have lbuf: "length buf = unat bufsize" using alloc by (auto simp: alloc_sized_def)
    note unf = upgrade_file_data_def [of vt malloc cfg "ucast k" statvfs fs s drive filename ?w,
        folded bufsize_def, unfolded Let_def, folded bufsize_def]
    show ?thesis
    proof (cases "out_of_space statvfs fs drive p ?w \<or> \<not> writable fs p")
      case True
      with assms(1) buf name show ?thesis by (auto simp: unf fopen_def)
    next
      case False
      let ?fs = "fs\<lparr>fs_files := (fs_files fs)(p := Some [])\<rparr>"
      let ?h = "\<lparr>f_path = p, f_pos = 0, f_write = True\<rparr>" and ?h2 = "\<lparr>f_path = p, f_pos = 0, f_write = False\<rparr>"
      have open_w: "fopen fs p True = (Some ?h, ?fs)" using False by (simp add: fopen_def)
      have same: "fs_same p fs ?fs" by (simp add: fs_same_def)
      have empty: "file_bytes ?fs p = []" by (simp add: file_bytes_def)
      have "\<exists>ret r' buf' h' fs'. copy_out ?rd 148 156 bufsize s buf ?w ?h ?fs = Some (ret, r', buf', h', fs') \<and>
          inv r' \<and> decoded k (contents r') = decoded k (contents s) \<and>
          (\<forall>n. malloc n \<noteq> None) = (\<forall>n. malloc n \<noteq> None) \<and> length buf' = length buf \<and>
          fs_same p ?fs fs' \<and> fs_files fs' p \<noteq> None \<and> fs_room ?fs \<le> fs_room fs' + n \<and>
          (ret = 0 \<longrightarrow> cursor r' = cursor s + n \<and> length (file_bytes fs' p) = length (file_bytes ?fs p) + n) \<and>
          ((\<forall>n. malloc n \<noteq> None) \<and> fs_sound ?fs \<and> n \<le> fs_room ?fs \<longrightarrow>
            ret = 0 \<and> file_bytes fs' p = file_bytes ?fs p @ slice (decoded k (contents s)) (cursor s) n)"
        by (rule byte_reader.copy_out_result [OF rdr]) (use assms(1) fit' fit(2) bs mb lbuf empty in auto)
      then obtain ret s1 buf1 h1 fs1 where out: "copy_out ?rd 148 156 bufsize s buf ?w ?h ?fs = Some (ret, s1, buf1, h1, fs1)"
          "inv s1" "decoded k (contents s1) = decoded k (contents s)" "length buf1 = length buf"
          "fs_same p ?fs fs1" "fs_files fs1 p \<noteq> None" "fs_room ?fs \<le> fs_room fs1 + n"
          "ret = 0 \<longrightarrow> cursor s1 = cursor s + n \<and> length (file_bytes fs1 p) = length (file_bytes ?fs p) + n"
          "(\<forall>n. malloc n \<noteq> None) \<and> fs_sound ?fs \<and> n \<le> fs_room ?fs \<longrightarrow>
            ret = 0 \<and> file_bytes fs1 p = file_bytes ?fs p @ slice (decoded k (contents s)) (cursor s) n"
        by (elim exE conjE) (rule that)
      have same1: "fs_same p fs fs1" by (rule fs_same_trans [OF same out(5)])
      have room: "fs_room fs \<le> fs_room fs1 + n" using out(7) by simp
      have cont: "contents s1 = contents s" using out(3) by (simp only: decoded_eq)
      show ?thesis
      proof (cases "ret = 0")
        case err: False
        have "upgrade_file_data vt malloc cfg (ucast k) statvfs fs s drive filename ?w = Some (ret, s1, fs1)"
          using buf name False open_w out(1) err by (simp add: unf)
        moreover have "\<not> ((\<forall>n. malloc n \<noteq> None) \<and> fs_sound fs \<and> n \<le> fs_room fs)"
          using out(9) err fs_same_sound [OF same] by auto
        ultimately show ?thesis using out(2) cont same1 err room by blast
      next
        case ret: True
        obtain b1 where b1: "fs_files fs1 p = Some b1" using out(6) by auto
        then have fb1: "file_bytes fs1 p = b1" by (simp add: file_bytes_def)
        have len1: "length b1 = n" and cur1: "cursor s1 = cursor s + n" using out(8) ret empty fb1 by auto
        have open_r: "fopen fs1 p False = (Some ?h2, fs1)" by (simp add: fopen_def b1)
        obtain s2 where s2: "vt_Seek vt s1 (- int n) SEEK_CUR = Some (0, s2)" "inv s2" "contents s2 = contents s"
            "cursor s2 = cursor s"
          using seek_law [OF out(2), of SEEK_CUR "- int n" "cursor s"] cur1 fit(1) cont
          by (auto simp: seek_target_def)
        have un: "uint ?w = int n" using fit(2) by (simp add: uint_nat unat_of_nat)
        have ver0: "\<exists>ret r' h'. copy_verify ?rd 204 214 221 fs1 bufsize s2 buf1 buf ?w ?h2 = Some (ret, r', h') \<and>
            inv r' \<and> decoded k (contents r') = decoded k (contents s2) \<and>
            (ret = 0 \<longrightarrow> cursor r' = cursor s2 + n \<and>
              slice (file_bytes fs1 (f_path ?h2)) (f_pos ?h2) n = slice (decoded k (contents s2)) (cursor s2) n) \<and>
            ((\<forall>n. malloc n \<noteq> None) \<and> fs_sound fs1 \<and>
              slice (file_bytes fs1 (f_path ?h2)) (f_pos ?h2) n = slice (decoded k (contents s2)) (cursor s2) n \<longrightarrow> ret = 0)"
          by (rule byte_reader.copy_verify_result [OF rdr])
            (use s2 fit' fit(2) bs mb lbuf out(4) in auto)
        have sl: "slice (file_bytes fs1 (f_path ?h2)) (f_pos ?h2) n = b1"
          using fb1 len1 by simp
        from ver0 [unfolded sl s2(3,4) decoded_simps(3)] obtain ret2 s3 h3 where ver: "copy_verify ?rd 204 214 221 fs1 bufsize s2 buf1 buf ?w ?h2 = Some (ret2, s3, h3)"
            "inv s3" "decoded k (contents s3) = decoded k (contents s)"
            "ret2 = 0 \<longrightarrow> cursor s3 = cursor s + n \<and> b1 = decoded k (slice (contents s) (cursor s) n)"
            "(\<forall>n. malloc n \<noteq> None) \<and> fs_sound fs1 \<and> b1 = decoded k (slice (contents s) (cursor s) n) \<longrightarrow> ret2 = 0"
          by (elim exE conjE) (rule that)
        have cont3: "contents s3 = contents s" using ver(3) by (simp only: decoded_eq)
        have "upgrade_file_data vt malloc cfg (ucast k) statvfs fs s drive filename ?w = Some (ret2, s3, fs1)"
          using buf name False open_w out(1) ret open_r s2(1) ver(1) by (simp add: unf un)
        moreover have "ret2 = 0" if "\<forall>n. malloc n \<noteq> None" "fs_sound fs" "n \<le> fs_room fs"
          using that out(9) ver(5) fs_same_sound [OF same] fs_same_sound [OF same1] fb1 empty by auto
        ultimately show ?thesis using ver(2,4) cont3 same1 b1 room by blast
      qed
    qed
  qed
qed

text \<open>The whole block, with its name and size.\<close>

lemma upgrade_file_result:
  assumes "inv s" and at: "contents s = a @ le32_bytes (word_of_nat (length nm + 1)) @ nm @ 0 #
      le32_bytes (word_of_nat (length data)) @ data @ rest" "cursor s = length a" "rest \<noteq> []"
    and size: "length (contents s) < 2 ^ 31"
    and stack: "length nm + 3 \<le> length stack" "length drive + 1 \<le> length stack" "2 \<le> length drive"
    and p: "p = take 2 drive @ nm" "0 \<notin> set p"
    and alloc: "alloc_sized malloc" and cfg: "0 < unat cfg"
  shows "\<exists>ret s' fs'. ugUpgradeFile vt malloc cfg (ucast k) statvfs stack fs s drive = Some (ret, s', fs') \<and>
    inv s' \<and> contents s' = contents s \<and> fs_same p fs fs' \<and> fs_room fs \<le> fs_room fs' + length data \<and>
    (ret = 0 \<longrightarrow> cursor s' = length (contents s) - length rest \<and> fs_files fs' p = Some (decoded k data)) \<and>
    ((\<forall>n. malloc n \<noteq> None) \<and> fs_sound fs \<and> writable fs p \<and> length data \<le> fs_room fs \<and>
      \<not> out_of_space statvfs fs drive p (word_of_nat (length data)) \<longrightarrow> ret = 0)"
proof -
  let ?m = "length nm + 1" and ?n = "length data"
  have len: "length (contents s) = length a + 4 + ?m + 4 + ?n + length rest" using at(1) by simp
  have small: "?m < 2 ^ 31" "?n < 2 ^ 31" using len size by auto
  obtain s1 where s1: "vt_Read vt s (replicate 4 0) (int 4) =
        Some (int 4, slice (contents s) (cursor s) 4 @ drop 4 (replicate 4 0), s1)"
      "inv s1" "contents s1 = contents s" "cursor s1 = cursor s + 4"
    using read_exact [OF assms(1), of 4 "replicate 4 0"] len at(2) by auto
  have h1: "slice (contents s) (cursor s) 4 = le32_bytes (word_of_nat ?m)"
    unfolding at(1,2) by (simp add: slice_def)
  define fn where "fn = drive @ 0 # drop (length drive + 1) stack"
  have fn: "memcpy stack 0 (drive @ [0]) 0 (int (length drive + 1)) = Some fn"
    using memcpy_int [of 0 "length drive + 1" stack 0 "drive @ [0]"] stack(2) by (simp add: fn_def)
  have lfn: "length fn = length stack" using stack(2) by (simp add: fn_def)
  obtain s2 where s2: "vt_Read vt s1 (drop 2 fn) (int ?m) =
        Some (int ?m, slice (contents s1) (cursor s1) ?m @ drop ?m (drop 2 fn), s2)"
      "inv s2" "contents s2 = contents s1" "cursor s2 = cursor s1 + ?m"
  proof -
    have "?m \<le> length (drop 2 fn)" using lfn stack(1) by simp
    moreover have "cursor s1 + ?m \<le> length (contents s1)" using s1(3,4) len at(2) by simp
    ultimately show thesis using read_exact [OF s1(2)] that by blast
  qed
  have h2: "slice (contents s1) (cursor s1) ?m = nm @ [0]"
    unfolding s1(3,4) at(1,2) by (simp add: slice_def)
  obtain s3 where s3: "vt_Read vt s2 (replicate 4 0) (int 4) =
        Some (int 4, slice (contents s2) (cursor s2) 4 @ drop 4 (replicate 4 0), s3)"
      "inv s3" "contents s3 = contents s2" "cursor s3 = cursor s2 + 4"
    using read_exact [OF s2(2), of 4 "replicate 4 0"] s1(3,4) s2(3,4) len at(2) by auto
  have h3: "slice (contents s2) (cursor s2) 4 = le32_bytes (word_of_nat ?n)"
    unfolding s2(3,4) s1(3,4) at(1,2) by (simp add: slice_def)
  have t2: "take 2 fn = take 2 drive" using stack(3) by (simp add: fn_def)
  have name: "str_at (take 2 drive @ (nm @ [0]) @ drop ?m (drop 2 fn)) 0 = Some p"
    using str_at_name [OF p(2), of "[]" "drop ?m (drop 2 fn)"] by (simp add: p(1))
  have data: "slice (contents s3) (cursor s3) ?n = data" "cursor s3 + ?n = length (contents s) - length rest"
      "cursor s3 + ?n < length (contents s3)"
    unfolding s3(3,4) s2(3,4) s1(3,4) using at(2,3) len by (simp_all add: at(1) slice_def)
  have sm: "sint (word_of_nat ?m :: u32) = int ?m" by (rule sint_of_nat_u32 [OF small(1)])
  have run: "ugUpgradeFile vt malloc cfg (ucast k) statvfs stack fs s drive =
      upgrade_file_data vt malloc cfg (ucast k) statvfs fs s3 drive
        (take 2 drive @ (nm @ [0]) @ drop ?m (drop 2 fn)) (word_of_nat ?n)"
    using s1(1) s2(1) s3(1) fn t2 by (simp add: ugUpgradeFile_def h1 h2 [unfolded Suc_eq_plus1 [symmetric]] h3 Let_def sm [simplified])
  have eqs: "contents s3 = contents s" using s1(3) s2(3) s3(3) by simp
  from upgrade_file_data_result [OF s3(2) data(3) small(2) alloc cfg name, of k statvfs fs drive]
  show ?thesis unfolding run data(1,2) eqs by (simp only: eqs [symmetric] data)
qed

end

section \<open>Properties of the file block\<close>

text \<open>
  C12. A file block of a package is written and verified. For every drive, also a faulty one
  (writes that come up short, bytes that are not kept, unreadable places), \<open>ugUpgradeFile\<close>
  ends without undefined behaviour and changes no other file; when it returns 0 the file holds
  exactly the decoded bytes of the package and the stream is behind the block. On a sound drive with
  room and memory it does return 0. The size of the buffer does not matter.
\<close>

theorem file_block_verified:
  assumes "array_inv s" and "as_array s = a @ le32_bytes (word_of_nat (length nm + 1)) @ nm @ 0 #
      le32_bytes (word_of_nat (length data)) @ data @ rest" "array_cursor s = length a" "rest \<noteq> []"
    and "length (as_array s) < 2 ^ 31"
    and "length nm + 3 \<le> length stack" "length drive + 1 \<le> length stack" "2 \<le> length drive"
    and "p = take 2 drive @ nm" "0 \<notin> set p"
    and "alloc_sized malloc" and "0 < unat cfg"
  shows "\<exists>ret s' fs'. ugUpgradeFile array_stream_vt malloc cfg (ucast k) statvfs stack fs s drive = Some (ret, s', fs') \<and>
    array_inv s' \<and> as_array s' = as_array s \<and> fs_same p fs fs' \<and> fs_room fs \<le> fs_room fs' + length data \<and>
    (ret = 0 \<longrightarrow> array_cursor s' = length (as_array s) - length rest \<and> fs_files fs' p = Some (decoded k data)) \<and>
    ((\<forall>n. malloc n \<noteq> None) \<and> fs_sound fs \<and> writable fs p \<and> length data \<le> fs_room fs \<and>
      \<not> out_of_space statvfs fs drive p (word_of_nat (length data)) \<longrightarrow> ret = 0)"
  by (rule array_src.upgrade_file_result [OF assms])

definition demo_drive :: fsys where
  "demo_drive = \<lparr>fs_files = (\<lambda>_. None), fs_creat = (\<lambda>_. True), fs_room = 1000, fs_keep = (\<lambda>_ _ b. b),
     fs_fault = (\<lambda>_. None), fs_stat = True,
     fs_dirs = (\<lambda>_. False)\<rparr>"

theorem file_block_verified_witness:
  "\<exists>s' fs'. ugUpgradeFile array_stream_vt (\<lambda>n. Some (replicate n 0)) 4 (ucast (7::u8)) (\<lambda>_. None)
      (replicate 16 1) demo_drive
      \<lparr>st_eof = False, st_size = 20, as_array = le32_bytes 3 @ [47, 97] @ 0 # le32_bytes 5 @ [1, 2, 3, 4, 5] @ [9, 9, 9, 9],
       as_pos = 0\<rparr> [65, 58, 47] = Some (0, s', fs') \<and>
    fs_files fs' [65, 58, 47, 97] = Some (decoded 7 [1, 2, 3, 4, 5])"
proof -
  let ?s = "\<lparr>st_eof = False, st_size = 20,
     as_array = le32_bytes 3 @ [47, 97] @ 0 # le32_bytes 5 @ [1, 2, 3, 4, 5] @ [9, 9, 9, 9], as_pos = 0\<rparr> :: array_stream"
  have "array_inv ?s" by (simp add: array_inv_def)
  from file_block_verified [OF this, of "[]" "[47, 97]" "[1, 2, 3, 4, 5]" "[9, 9, 9, 9]" "replicate 16 1" "[65, 58, 47]"
      "[65, 58, 47, 97]" "\<lambda>n. Some (replicate n 0)" 4 7 "\<lambda>_. None" demo_drive]
  show ?thesis
    by (auto simp: array_cursor_def alloc_sized_def fs_sound_def demo_drive_def writable_def out_of_space_def)
qed

end
