(* ===== verification/Posix_Device.thy ===== *)
theory Posix_Device
  imports Prelude
begin

text \<open>
  A storage device as the upgrade code uses it through \<open>open\<close>, \<open>ioctl\<close>,
  \<open>lseek\<close>, \<open>read\<close> and \<open>write\<close>: an array of blocks, addressed by block number. The
  drivers behind it (NAND, NOR, SD) work on hardware registers and are not modelled; what they can
  do wrong is part of the device: it may be absent or refuse an \<open>ioctl\<close>, a block may be
  unreadable or unwritable (the transfer then stops in front of it and the count is short), and
  \<open>dv_keep\<close> is what the medium makes of the bytes written to a block.
\<close>

record blkdev =
  dv_present :: bool
  dv_has_bsize :: bool
  dv_has_gap :: bool
  dv_bsize :: nat
  dv_gap :: nat
  dv_count :: nat
  dv_pos :: nat
  dv_block :: "nat \<Rightarrow> bytes"
  dv_readable :: "nat \<Rightarrow> bool"
  dv_writable :: "nat \<Rightarrow> bool"
  dv_keep :: "nat \<Rightarrow> bytes \<Rightarrow> bytes"

definition dev_lseek :: "blkdev \<Rightarrow> nat \<Rightarrow> int \<times> blkdev" where
  "dev_lseek d pos = (if pos < dv_count d then (int pos, d\<lparr>dv_pos := pos\<rparr>) else (-1, d))"

fun dev_read :: "blkdev \<Rightarrow> bytes \<Rightarrow> nat \<Rightarrow> nat \<Rightarrow> (nat \<times> bytes \<times> blkdev) option" where
  "dev_read d buf off 0 = Some (0, buf, d)"
| "dev_read d buf off (Suc n) =
     (if dv_pos d < dv_count d \<and> dv_readable d (dv_pos d) then do {
        buf \<leftarrow> memcpy buf (int off) (dv_block d (dv_pos d)) 0 (int (dv_bsize d));
        (k, buf, d) \<leftarrow> dev_read (d\<lparr>dv_pos := dv_pos d + 1\<rparr>) buf (off + dv_bsize d) n;
        Some (k + 1, buf, d)
      }
      else Some (0, buf, d))"

fun dev_write :: "blkdev \<Rightarrow> bytes \<Rightarrow> nat \<Rightarrow> nat \<Rightarrow> (nat \<times> blkdev) option" where
  "dev_write d buf off 0 = Some (0, d)"
| "dev_write d buf off (Suc n) =
     (if length buf < off + dv_bsize d then None
      else if dv_pos d < dv_count d \<and> dv_writable d (dv_pos d) then do {
        let new = dv_keep d (dv_pos d) (slice buf off (dv_bsize d));
        (k, d) \<leftarrow> dev_write (d\<lparr>dv_block := (dv_block d)(dv_pos d := new), dv_pos := dv_pos d + 1\<rparr>)
                    buf (off + dv_bsize d) n;
        Some (k + 1, d)
      }
      else Some (0, d))"

text \<open>Every block has the size of a block, also after a write.\<close>

definition dev_ok :: "blkdev \<Rightarrow> bool" where
  "dev_ok d \<longleftrightarrow> (\<forall>i. length (dv_block d i) = dv_bsize d) \<and>
     (\<forall>i b. length b = dv_bsize d \<longrightarrow> length (dv_keep d i b) = dv_bsize d)"

text \<open>One block of a sound device.\<close>

definition block_sound :: "blkdev \<Rightarrow> nat \<Rightarrow> bool" where
  "block_sound d i \<longleftrightarrow> i < dv_count d \<and> dv_readable d i \<and> dv_writable d i \<and> dv_keep d i = id"

lemma dev_read_1:
  "dev_ok d \<Longrightarrow> dv_pos d < dv_count d \<Longrightarrow> dv_readable d (dv_pos d) \<Longrightarrow> length buf = dv_bsize d \<Longrightarrow>
   dev_read d buf 0 1 = Some (1, dv_block d (dv_pos d), d\<lparr>dv_pos := dv_pos d + 1\<rparr>)"
  using memcpy_int [of 0 "dv_bsize d" buf 0 "dv_block d (dv_pos d)"]
  by (simp add: dev_ok_def One_nat_def del: One_nat_def [symmetric])

lemma dev_write_1:
  "dv_pos d < dv_count d \<Longrightarrow> dv_writable d (dv_pos d) \<Longrightarrow> length buf = dv_bsize d \<Longrightarrow>
   dev_write d buf 0 1 = Some (1, d\<lparr>dv_block := (dv_block d)(dv_pos d := dv_keep d (dv_pos d) buf),
     dv_pos := dv_pos d + 1\<rparr>)"
  by (simp add: One_nat_def Let_def)

end
