(* ===== verification/UG_Mark.thy ===== *)
theory UG_Mark
  imports Posix_Device
begin

text \<open>
  The progress mark (\<open>sdk/share/upgrade/ug_mark.c\<close>): one block of the boot medium says
  whether a backup or an upgrade is under way, so that the next boot sees an upgrade that was cut
  off. The state is the file's static variables and the device they refer to. The position of the
  mark, \<open>CFG_UPGRADE_MARK_POS\<close>, is the argument \<open>mark_pos\<close>; the code is compiled in
  when it is not 0. The branches of \<open>ugMarkInit\<close> differ in the name of the device only.

  The abstract view is a mark (idle, backing up, upgrading) and the flag in memory; the
  operations refine the obvious transitions on it when the block of the mark is sound.
\<close>

record mark_state =
  ugMarkFD :: bool
  ugMarkBlockSize :: nat
  ugMarkPos :: nat
  ugMarkBuf :: "bytes option"
  ugBackupPackageFinished :: bool
  mk_dev :: blkdev

definition ugMarkBackuping :: bytes where
  "ugMarkBackuping = [66, 65, 67, 75, 85, 80, 73, 78, 71]"

definition ugMarkUpgrading :: bytes where
  "ugMarkUpgrading = [85, 80, 71, 82, 65, 68, 73, 78, 71]"

definition ugMarkExit :: "mark_state \<Rightarrow> mark_state" where
  "ugMarkExit st = st\<lparr>ugMarkBuf := None, ugMarkFD := False\<rparr>"

text \<open>The code up to the label \<open>end\<close>; an assertion that fails is undefined.\<close>

definition mark_init_body ::
    "(nat \<Rightarrow> bytes option) \<Rightarrow> nat \<Rightarrow> mark_state \<Rightarrow> (int \<times> mark_state) option" where
  "mark_init_body malloc mark_pos st =
     (if ugMarkFD st then None
      else if \<not> dv_present (mk_dev st) then Some (59, st)
      else
        let st = st\<lparr>ugMarkFD := True\<rparr> in
        if \<not> dv_has_bsize (mk_dev st) then Some (66, st)
        else if dv_bsize (mk_dev st) = 0 then None
        else
          let bs = dv_bsize (mk_dev st);
              pos = mark_pos div bs;
              (r, d) = dev_lseek (mk_dev st) pos;
              st = st\<lparr>ugMarkBlockSize := bs, ugMarkPos := pos, mk_dev := d\<rparr>
          in
          if r \<noteq> int pos then Some (76, st)
          else if bs < 8 then None
          else
            case malloc bs of
              None \<Rightarrow> Some (85, st)
            | Some buf \<Rightarrow> do {
                (n, buf, d) \<leftarrow> dev_read (mk_dev st) buf 0 1;
                let st = st\<lparr>ugMarkBuf := Some buf, mk_dev := d\<rparr>;
                Some (if n \<noteq> 1 then 92 else 0, st)
              })"

definition ugMarkInit ::
    "(nat \<Rightarrow> bytes option) \<Rightarrow> nat \<Rightarrow> mark_state \<Rightarrow> (int \<times> mark_state) option" where
  "ugMarkInit malloc mark_pos st = do {
     (ret, st) \<leftarrow> mark_init_body malloc mark_pos st;
     Some (ret, if ret \<noteq> 0 then ugMarkExit st else st)
   }"

text \<open>\<open>memcmp(ugMarkBuf, mark, 9) == 0\<close> and \<open>memcpy(ugMarkBuf, mark, 9)\<close>.\<close>

definition mark_is :: "bytes \<Rightarrow> bytes \<Rightarrow> bool option" where
  "mark_is buf mark = (if length buf < length mark then None else Some (take (length mark) buf = mark))"

definition mark_put :: "bytes \<Rightarrow> bytes \<Rightarrow> bytes option" where
  "mark_put buf mark = memcpy buf 0 mark 0 (int (length mark))"

definition ugUpgradeCheck ::
    "(nat \<Rightarrow> bytes option) \<Rightarrow> nat \<Rightarrow> mark_state \<Rightarrow> (int \<times> mark_state) option" where
  "ugUpgradeCheck malloc mark_pos st = do {
     (ret, st) \<leftarrow> ugMarkInit malloc mark_pos st;
     if ret \<noteq> 0 then Some (ret, ugMarkExit st)
     else do {
       buf \<leftarrow> ugMarkBuf st;
       upgrading \<leftarrow> mark_is buf ugMarkUpgrading;
       if upgrading then Some (117, ugMarkExit st)
       else do {
         backuping \<leftarrow> mark_is buf ugMarkBackuping;
         Some (ret, ugMarkExit st)
       }
     }
   }"

definition ugUpgradeStart ::
    "(nat \<Rightarrow> bytes option) \<Rightarrow> nat \<Rightarrow> mark_state \<Rightarrow> (int \<times> mark_state) option" where
  "ugUpgradeStart malloc mark_pos st = do {
     let st = st\<lparr>ugBackupPackageFinished := False\<rparr>;
     (ret, st) \<leftarrow> ugMarkInit malloc mark_pos st;
     if ret \<noteq> 0 then Some (ret, ugMarkExit st)
     else do {
       buf \<leftarrow> ugMarkBuf st;
       buf \<leftarrow> mark_put buf ugMarkBackuping;
       let (r, d) = dev_lseek (mk_dev st) (ugMarkPos st);
       let st = st\<lparr>ugMarkBuf := Some buf, mk_dev := d\<rparr>;
       if r \<noteq> int (ugMarkPos st) then Some (149, ugMarkExit st)
       else do {
         (n, d) \<leftarrow> dev_write (mk_dev st) buf 0 1;
         let st = st\<lparr>mk_dev := d\<rparr>;
         if n \<noteq> 1 then Some (ret, ugMarkExit st)
         else Some (ret, ugMarkExit st)
       }
     }
   }"

definition ugUpgradeBackupFinish ::
    "(nat \<Rightarrow> bytes option) \<Rightarrow> nat \<Rightarrow> mark_state \<Rightarrow> (int \<times> mark_state) option" where
  "ugUpgradeBackupFinish malloc mark_pos st =
     (if ugBackupPackageFinished st then Some (0, ugMarkExit st)
      else do {
        (ret, st) \<leftarrow> ugMarkInit malloc mark_pos st;
        if ret \<noteq> 0 then Some (ret, ugMarkExit st)
        else do {
          buf \<leftarrow> ugMarkBuf st;
          buf \<leftarrow> mark_put buf ugMarkUpgrading;
          let (r, d) = dev_lseek (mk_dev st) (ugMarkPos st);
          let st = st\<lparr>ugMarkBuf := Some buf, mk_dev := d\<rparr>;
          if r \<noteq> int (ugMarkPos st) then Some (183, ugMarkExit st)
          else do {
            (n, d) \<leftarrow> dev_write (mk_dev st) buf 0 1;
            let st = st\<lparr>mk_dev := d\<rparr>;
            if n \<noteq> 1 then Some (ret, ugMarkExit st)
            else Some (ret, ugMarkExit (st\<lparr>ugBackupPackageFinished := True\<rparr>))
          }
        }
      })"

definition ugUpgradeFinish ::
    "(nat \<Rightarrow> bytes option) \<Rightarrow> nat \<Rightarrow> mark_state \<Rightarrow> (int \<times> mark_state) option" where
  "ugUpgradeFinish malloc mark_pos st = do {
     (ret, st) \<leftarrow> ugMarkInit malloc mark_pos st;
     if ret \<noteq> 0 then Some (ret, ugMarkExit st)
     else do {
       buf \<leftarrow> ugMarkBuf st;
       buf \<leftarrow> mark_put buf (replicate (length ugMarkUpgrading) 255);
       let (r, d) = dev_lseek (mk_dev st) (ugMarkPos st);
       let st = st\<lparr>ugMarkBuf := Some buf, mk_dev := d\<rparr>;
       if r \<noteq> int (ugMarkPos st) then Some (216, ugMarkExit st)
       else do {
         (n, d) \<leftarrow> dev_write (mk_dev st) buf 0 1;
         let st = st\<lparr>mk_dev := d\<rparr>;
         if n \<noteq> 1 then Some (ret, ugMarkExit st)
         else Some (ret, ugMarkExit st)
       }
     }
   }"

section \<open>The abstract view\<close>

datatype mark = Idle | Backuping | Upgrading

definition block_mark :: "bytes \<Rightarrow> mark" where
  "block_mark b = (if take 9 b = ugMarkUpgrading then Upgrading
     else if take 9 b = ugMarkBackuping then Backuping else Idle)"

definition mark_block :: "nat \<Rightarrow> mark_state \<Rightarrow> nat" where
  "mark_block mark_pos st = mark_pos div dv_bsize (mk_dev st)"

definition mark_abs :: "nat \<Rightarrow> mark_state \<Rightarrow> mark \<times> bool" where
  "mark_abs mark_pos st =
     (block_mark (dv_block (mk_dev st) (mark_block mark_pos st)), ugBackupPackageFinished st)"

text \<open>Between the operations nothing is open, and the block of the mark is readable.\<close>

definition mark_inv :: "nat \<Rightarrow> mark_state \<Rightarrow> bool" where
  "mark_inv mark_pos st \<longleftrightarrow> \<not> ugMarkFD st \<and> ugMarkBuf st = None \<and>
     dv_present (mk_dev st) \<and> dv_has_bsize (mk_dev st) \<and> dev_ok (mk_dev st) \<and> 9 \<le> dv_bsize (mk_dev st) \<and>
     mark_block mark_pos st < dv_count (mk_dev st) \<and> dv_readable (mk_dev st) (mark_block mark_pos st)"

text \<open>The block of the mark also takes and keeps what is written.\<close>

definition mark_sound :: "nat \<Rightarrow> mark_state \<Rightarrow> bool" where
  "mark_sound mark_pos st \<longleftrightarrow> block_sound (mk_dev st) (mark_block mark_pos st)"

datatype mark_op = OpCheck | OpStart | OpBackupFinish | OpFinish

fun mark_call ::
    "(nat \<Rightarrow> bytes option) \<Rightarrow> nat \<Rightarrow> mark_op \<Rightarrow> mark_state \<Rightarrow> (int \<times> mark_state) option" where
  "mark_call malloc mp OpCheck st = ugUpgradeCheck malloc mp st"
| "mark_call malloc mp OpStart st = ugUpgradeStart malloc mp st"
| "mark_call malloc mp OpBackupFinish st = ugUpgradeBackupFinish malloc mp st"
| "mark_call malloc mp OpFinish st = ugUpgradeFinish malloc mp st"

fun mark_spec :: "mark_op \<Rightarrow> mark \<times> bool \<Rightarrow> int \<times> mark \<times> bool" where
  "mark_spec OpCheck (m, f) = (if m = Upgrading then 117 else 0, m, f)"
| "mark_spec OpStart (m, f) = (0, Backuping, False)"
| "mark_spec OpBackupFinish (m, f) = (0, if f then m else Upgrading, True)"
| "mark_spec OpFinish (m, f) = (0, Idle, f)"

section \<open>The operations refine the transitions\<close>

lemma length_marks [simp]: "length ugMarkUpgrading = 9" "length ugMarkBackuping = 9"
  by (simp_all add: ugMarkUpgrading_def ugMarkBackuping_def)

lemma mark_put_eq: "9 \<le> length buf \<Longrightarrow> length m = 9 \<Longrightarrow> mark_put buf m = Some (m @ drop 9 buf)"
  using memcpy_int [of 0 9 buf 0 m] by (simp add: mark_put_def)

lemma block_mark_put:
  "block_mark (ugMarkUpgrading @ r) = Upgrading" "block_mark (ugMarkBackuping @ r) = Backuping"
  "block_mark (replicate 9 255 @ r) = Idle"
proof -
  have ff: "hd (replicate 9 (255::u8)) = 255" by simp
  have "hd ugMarkUpgrading = 85" "hd ugMarkBackuping = 66"
    by (simp_all add: ugMarkUpgrading_def ugMarkBackuping_def)
  moreover have "(85::u8) \<noteq> 66" "(255::u8) \<noteq> 85" "(255::u8) \<noteq> 66" by simp_all
  ultimately have "ugMarkUpgrading \<noteq> ugMarkBackuping" "replicate 9 255 \<noteq> ugMarkUpgrading"
      "replicate 9 255 \<noteq> ugMarkBackuping"
    using ff by metis+
  then show "block_mark (ugMarkUpgrading @ r) = Upgrading" "block_mark (ugMarkBackuping @ r) = Backuping"
    "block_mark (replicate 9 255 @ r) = Idle"
    by (simp_all add: block_mark_def)
qed

definition mark_ready :: "(nat \<Rightarrow> bytes option) \<Rightarrow> nat \<Rightarrow> mark_state \<Rightarrow> bool" where
  "mark_ready malloc mp st \<longleftrightarrow> mark_inv mp st \<and>
     (\<exists>b. malloc (dv_bsize (mk_dev st)) = Some b \<and> length b = dv_bsize (mk_dev st))"

text \<open>The state with the mark read in, and the device with nine bytes of it replaced.\<close>

definition mark_read :: "nat \<Rightarrow> mark_state \<Rightarrow> bytes" where
  "mark_read mp st = dv_block (mk_dev st) (mark_block mp st)"

definition mark_opened :: "nat \<Rightarrow> mark_state \<Rightarrow> mark_state" where
  "mark_opened mp st = st\<lparr>ugMarkFD := True, ugMarkBlockSize := dv_bsize (mk_dev st),
     ugMarkPos := mark_block mp st, ugMarkBuf := Some (mark_read mp st),
     mk_dev := (mk_dev st)\<lparr>dv_pos := mark_block mp st + 1\<rparr>\<rparr>"

definition mark_stored :: "nat \<Rightarrow> mark_state \<Rightarrow> bytes \<Rightarrow> blkdev" where
  "mark_stored mp st m = (mk_dev st)\<lparr>dv_block := (dv_block (mk_dev st))(mark_block mp st := m @ drop 9 (mark_read mp st)),
     dv_pos := mark_block mp st + 1\<rparr>"

lemma mark_init_ok:
  assumes "mark_ready malloc mp st"
  shows "ugMarkInit malloc mp st = Some (0, mark_opened mp st)"
proof -
  let ?d = "mk_dev st" and ?k = "mark_block mp st"
  obtain b where b: "malloc (dv_bsize ?d) = Some b" "length b = dv_bsize ?d"
    using assms by (auto simp: mark_ready_def)
  have d: "dv_present ?d" "dv_has_bsize ?d" "\<not> ugMarkFD st" "9 \<le> dv_bsize ?d" "dev_ok ?d"
      "?k < dv_count ?d" "dv_readable ?d ?k"
    using assms by (auto simp: mark_ready_def mark_inv_def)
  have "dev_read (?d\<lparr>dv_pos := ?k\<rparr>) b 0 1 = Some (1, mark_read mp st, ?d\<lparr>dv_pos := ?k + 1\<rparr>)"
    using dev_read_1 [of "?d\<lparr>dv_pos := ?k\<rparr>" b] d b by (simp add: dev_ok_def mark_read_def)
  then show ?thesis
    using d b by (simp add: ugMarkInit_def mark_init_body_def mark_opened_def dev_lseek_def Let_def
        mark_block_def [of mp st, symmetric] del: One_nat_def)
qed

lemma mark_read_long: "mark_ready malloc mp st \<Longrightarrow> 9 \<le> length (mark_read mp st)"
  by (simp add: mark_ready_def mark_inv_def dev_ok_def mark_read_def)

lemma mark_put_ok:
  assumes "mark_ready malloc mp st" "mark_sound mp st" "length m = 9"
  shows "mark_put (mark_read mp st) m = Some (m @ drop 9 (mark_read mp st))"
    "dev_lseek ((mk_dev st)\<lparr>dv_pos := mark_block mp st + 1\<rparr>) (mark_block mp st) =
      (int (mark_block mp st), (mk_dev st)\<lparr>dv_pos := mark_block mp st\<rparr>)"
    "dev_write ((mk_dev st)\<lparr>dv_pos := mark_block mp st\<rparr>) (m @ drop 9 (mark_read mp st)) 0 1 =
      Some (1, mark_stored mp st m)"
proof -
  note long = mark_read_long [OF assms(1)]
  show "mark_put (mark_read mp st) m = Some (m @ drop 9 (mark_read mp st))"
    using mark_put_eq [OF long assms(3)] .
  have s: "block_sound (mk_dev st) (mark_block mp st)" "dev_ok (mk_dev st)"
    using assms(1,2) by (auto simp: mark_ready_def mark_inv_def mark_sound_def)
  then show "dev_lseek ((mk_dev st)\<lparr>dv_pos := mark_block mp st + 1\<rparr>) (mark_block mp st) =
      (int (mark_block mp st), (mk_dev st)\<lparr>dv_pos := mark_block mp st\<rparr>)"
    by (simp add: dev_lseek_def block_sound_def)
  show "dev_write ((mk_dev st)\<lparr>dv_pos := mark_block mp st\<rparr>) (m @ drop 9 (mark_read mp st)) 0 1 =
      Some (1, mark_stored mp st m)"
    using dev_write_1 [of "(mk_dev st)\<lparr>dv_pos := mark_block mp st\<rparr>" "m @ drop 9 (mark_read mp st)"] s assms(3) long
    by (simp add: block_sound_def dev_ok_def mark_stored_def mark_read_def)
qed

lemma mark_stored_state:
  assumes "mark_ready malloc mp st" "mark_sound mp st" "length m = 9"
    "mk_dev st' = mark_stored mp st m" "\<not> ugMarkFD st'" "ugMarkBuf st' = None"
  shows "mark_inv mp st' \<and> mark_sound mp st' \<and>
    mark_abs mp st' = (block_mark (m @ drop 9 (mark_read mp st)), ugBackupPackageFinished st') \<and>
    (\<forall>i. i \<noteq> mark_block mp st \<longrightarrow> dv_block (mk_dev st') i = dv_block (mk_dev st) i)"
  using assms
  by (auto simp: mark_ready_def mark_inv_def mark_abs_def mark_block_def mark_stored_def dev_ok_def
      block_sound_def mark_read_def mark_sound_def)

lemmas mark_state_simps = mark_opened_def ugMarkExit_def Let_def

lemma mark_call_refines:
  assumes "mark_ready malloc mp st" "mark_sound mp st"
  shows "\<exists>ret st'. mark_call malloc mp op st = Some (ret, st') \<and>
     (ret, mark_abs mp st') = mark_spec op (mark_abs mp st) \<and> mark_inv mp st' \<and> mark_sound mp st' \<and>
     (\<forall>i. i \<noteq> mark_block mp st \<longrightarrow> dv_block (mk_dev st') i = dv_block (mk_dev st) i)"
proof -
  have inv: "mark_inv mp st" using assms by (simp add: mark_ready_def)
  note put = mark_put_ok [OF assms] and stored = mark_stored_state [OF assms]
  show ?thesis
  proof (cases op)
    case OpCheck
    let ?st = "ugMarkExit (mark_opened mp st)"
    have "ugUpgradeCheck malloc mp st =
        Some (if take 9 (mark_read mp st) = ugMarkUpgrading then 117 else 0, ?st)"
      using mark_read_long [OF assms(1)]
      by (simp add: ugUpgradeCheck_def mark_init_ok [OF assms(1)], simp add: mark_opened_def mark_is_def)
    moreover have "mark_inv mp ?st" "mark_sound mp ?st" "mark_abs mp ?st = mark_abs mp st"
        "dv_block (mk_dev ?st) = dv_block (mk_dev st)"
      using inv assms(2)
      by (auto simp: mark_inv_def mark_abs_def mark_block_def mark_state_simps dev_ok_def block_sound_def mark_sound_def)
    moreover have "(if take 9 (mark_read mp st) = ugMarkUpgrading then 117 else 0, mark_abs mp st) =
        mark_spec OpCheck (mark_abs mp st)"
      by (simp add: mark_abs_def mark_read_def block_mark_def)
    ultimately show ?thesis using OpCheck by (intro exI conjI) auto
  next
    case OpStart
    let ?st = "st\<lparr>ugBackupPackageFinished := False\<rparr>"
    let ?st' = "ugMarkExit ((mark_opened mp ?st)\<lparr>ugMarkBuf := Some (ugMarkBackuping @ drop 9 (mark_read mp st)),
      mk_dev := mark_stored mp st ugMarkBackuping\<rparr>)"
    have ready: "mark_ready malloc mp ?st"
      using assms(1) by (simp add: mark_ready_def mark_inv_def mark_block_def)
    have same: "mark_block mp ?st = mark_block mp st" "mark_read mp ?st = mark_read mp st"
      by (simp_all add: mark_block_def mark_read_def)
    have "ugUpgradeStart malloc mp st = Some (0, ?st')"
      using put [of ugMarkBackuping]
      by (simp add: ugUpgradeStart_def mark_init_ok [OF ready], simp add: mark_state_simps same)
    moreover have "mark_inv mp ?st' \<and> mark_sound mp ?st' \<and>
        mark_abs mp ?st' = (block_mark (ugMarkBackuping @ drop 9 (mark_read mp st)), ugBackupPackageFinished ?st') \<and>
        (\<forall>i. i \<noteq> mark_block mp st \<longrightarrow> dv_block (mk_dev ?st') i = dv_block (mk_dev st) i)"
      by (rule stored) (simp_all add: mark_state_simps)
    ultimately show ?thesis
      using OpStart by (auto simp: block_mark_put mark_abs_def mark_state_simps)
  next
    case OpBackupFinish
    show ?thesis
    proof (cases "ugBackupPackageFinished st")
      case True
      have "ugMarkExit st = st" using inv by (cases st) (simp add: ugMarkExit_def mark_inv_def)
      with True OpBackupFinish inv assms(2) show ?thesis
        by (auto simp: ugUpgradeBackupFinish_def mark_abs_def)
    next
      case False
      let ?st' = "ugMarkExit ((mark_opened mp st)\<lparr>ugMarkBuf := Some (ugMarkUpgrading @ drop 9 (mark_read mp st)),
        mk_dev := mark_stored mp st ugMarkUpgrading, ugBackupPackageFinished := True\<rparr>)"
      have "ugUpgradeBackupFinish malloc mp st = Some (0, ?st')"
        using put [of ugMarkUpgrading] False
        by (simp add: ugUpgradeBackupFinish_def mark_init_ok [OF assms(1)], simp add: mark_state_simps)
      moreover have "mark_inv mp ?st' \<and> mark_sound mp ?st' \<and>
          mark_abs mp ?st' = (block_mark (ugMarkUpgrading @ drop 9 (mark_read mp st)), ugBackupPackageFinished ?st') \<and>
          (\<forall>i. i \<noteq> mark_block mp st \<longrightarrow> dv_block (mk_dev ?st') i = dv_block (mk_dev st) i)"
        by (rule stored) (simp_all add: mark_state_simps)
      ultimately show ?thesis
        using OpBackupFinish False by (auto simp: block_mark_put mark_abs_def mark_state_simps)
    qed
  next
    case OpFinish
    let ?FF = "replicate 9 255 :: bytes"
    let ?st' = "ugMarkExit ((mark_opened mp st)\<lparr>ugMarkBuf := Some (?FF @ drop 9 (mark_read mp st)),
      mk_dev := mark_stored mp st ?FF\<rparr>)"
    have "ugUpgradeFinish malloc mp st = Some (0, ?st')"
      using put [of ?FF]
      by (simp add: ugUpgradeFinish_def mark_init_ok [OF assms(1)], simp add: mark_state_simps)
    moreover have "mark_inv mp ?st' \<and> mark_sound mp ?st' \<and>
        mark_abs mp ?st' = (block_mark (?FF @ drop 9 (mark_read mp st)), ugBackupPackageFinished ?st') \<and>
        (\<forall>i. i \<noteq> mark_block mp st \<longrightarrow> dv_block (mk_dev ?st') i = dv_block (mk_dev st) i)"
      by (rule stored) (simp_all add: mark_state_simps)
    ultimately show ?thesis
      using OpFinish by (auto simp: block_mark_put mark_abs_def mark_state_simps)
  qed
qed

section \<open>Sequences of calls and power losses\<close>

text \<open>A power loss forgets what is in memory; the device keeps its blocks.\<close>

datatype mark_event = Call mark_op | PowerLoss

definition power_loss :: "mark_state \<Rightarrow> mark_state" where
  "power_loss st = st\<lparr>ugMarkFD := False, ugMarkBuf := None, ugBackupPackageFinished := False\<rparr>"

fun mark_run :: "(nat \<Rightarrow> bytes option) \<Rightarrow> nat \<Rightarrow> mark_event list \<Rightarrow> mark_state \<Rightarrow> mark_state option" where
  "mark_run malloc mp [] st = Some st"
| "mark_run malloc mp (Call op # es) st = do {
     (_, st) \<leftarrow> mark_call malloc mp op st;
     mark_run malloc mp es st
   }"
| "mark_run malloc mp (PowerLoss # es) st = mark_run malloc mp es (power_loss st)"

fun event_spec :: "mark_event \<Rightarrow> mark \<times> bool \<Rightarrow> mark \<times> bool" where
  "event_spec (Call op) m = snd (mark_spec op m)"
| "event_spec PowerLoss (m, f) = (m, False)"

lemma power_loss_state:
  "mark_inv mp st \<Longrightarrow> mark_inv mp (power_loss st)" "mark_sound mp st \<Longrightarrow> mark_sound mp (power_loss st)"
  "mark_abs mp (power_loss st) = event_spec PowerLoss (mark_abs mp st)"
  by (simp_all add: mark_inv_def mark_sound_def mark_abs_def power_loss_def mark_block_def)

lemma mark_run_refines:
  assumes "mark_inv mp st" "mark_sound mp st" "\<And>n. \<exists>b. malloc n = Some b \<and> length b = n"
  shows "\<exists>st'. mark_run malloc mp es st = Some st' \<and> mark_inv mp st' \<and> mark_sound mp st' \<and>
    mark_abs mp st' = fold event_spec es (mark_abs mp st)"
  using assms(1,2)
proof (induction es arbitrary: st)
  case (Cons e es)
  show ?case
  proof (cases e)
    case (Call op)
    have "mark_ready malloc mp st" using Cons.prems assms(3) by (simp add: mark_ready_def)
    from mark_call_refines [OF this Cons.prems(2), of op] obtain ret st1 where
      "mark_call malloc mp op st = Some (ret, st1)" "snd (mark_spec op (mark_abs mp st)) = mark_abs mp st1"
      "mark_inv mp st1" "mark_sound mp st1"
      by (metis snd_conv)
    with Cons.IH [of st1] Call show ?thesis by simp
  next
    case PowerLoss
    with Cons.IH [OF power_loss_state(1) [OF Cons.prems(1)] power_loss_state(2) [OF Cons.prems(2)]]
    show ?thesis by (auto simp: power_loss_state(3))
  qed
qed simp

lemma fold_upgrading:
  "set es \<subseteq> {Call OpCheck, Call OpBackupFinish, PowerLoss} \<Longrightarrow>
   fst (fold event_spec es (Upgrading, f)) = Upgrading"
  by (induction es arbitrary: f) auto

lemma fold_idle:
  "set es \<subseteq> {Call OpCheck, Call OpFinish, PowerLoss} \<Longrightarrow> fst (fold event_spec es (Idle, f)) = Idle"
  by (induction es arbitrary: f) auto

section \<open>Properties of the mark\<close>

text \<open>
  C15. On a sound device each of the four operations does what the state machine of the mark
  says: the check reports 117 exactly in the mark \<open>Upgrading\<close> and changes nothing; the start,
  the end of the backup and the end of the upgrade set the mark and return 0. Nothing stays open,
  and no other block of the device changes.
\<close>

theorem mark_operations_refine:
  assumes "mark_ready malloc mp st" "mark_sound mp st"
  shows "\<exists>ret st'. mark_call malloc mp op st = Some (ret, st') \<and>
     (ret, mark_abs mp st') = mark_spec op (mark_abs mp st) \<and> mark_inv mp st' \<and> mark_sound mp st' \<and>
     (\<forall>i. i \<noteq> mark_block mp st \<longrightarrow> dv_block (mk_dev st') i = dv_block (mk_dev st) i)"
  by (rule mark_call_refines [OF assms])

definition demo_dev :: blkdev where
  "demo_dev = \<lparr>dv_present = True, dv_has_bsize = True, dv_has_gap = True, dv_bsize = 12, dv_gap = 0,
     dv_count = 8, dv_pos = 0, dv_block = (\<lambda>_. replicate 12 0), dv_readable = (\<lambda>_. True),
     dv_writable = (\<lambda>_. True), dv_keep = (\<lambda>_. id)\<rparr>"

definition demo_mark :: mark_state where
  "demo_mark = \<lparr>ugMarkFD = False, ugMarkBlockSize = 0, ugMarkPos = 0, ugMarkBuf = None,
     ugBackupPackageFinished = False, mk_dev = demo_dev\<rparr>"

lemma demo_mark_ok: "mark_ready (\<lambda>n. Some (replicate n 0)) 30 demo_mark" "mark_sound 30 demo_mark"
    "mark_inv 30 demo_mark"
  by (simp_all add: mark_ready_def mark_inv_def mark_sound_def block_sound_def dev_ok_def mark_block_def
      demo_mark_def demo_dev_def)

theorem mark_operations_refine_witness:
  "\<exists>ret st'. ugUpgradeStart (\<lambda>n. Some (replicate n 0)) 30 demo_mark = Some (ret, st') \<and>
     (ret, mark_abs 30 st') = mark_spec OpStart (mark_abs 30 demo_mark)"
  using mark_operations_refine [OF demo_mark_ok(1,2), of OpStart] by auto

text \<open>
  C14. An upgrade that is cut off is noticed. After the backup part of a started upgrade is
  finished, any sequence of power losses, checks and further calls of
  \<open>ugUpgradeBackupFinish\<close> leaves the device in a state where \<open>ugUpgradeCheck\<close> returns
  its error; after \<open>ugUpgradeFinish\<close> it returns 0 through any sequence without a new start.
\<close>

theorem interrupted_upgrade_detected:
  assumes "mark_inv mp st" "mark_sound mp st" "\<And>n. \<exists>b. malloc n = Some b \<and> length b = n"
    and "set es \<subseteq> {Call OpCheck, Call OpBackupFinish, PowerLoss}"
    and "set es' \<subseteq> {Call OpCheck, Call OpFinish, PowerLoss}"
  shows "(\<exists>st1 st2. mark_run malloc mp ([Call OpStart, Call OpBackupFinish] @ es) st = Some st1 \<and>
      ugUpgradeCheck malloc mp st1 = Some (117, st2)) \<and>
    (\<exists>st1 st2. mark_run malloc mp (Call OpFinish # es') st = Some st1 \<and>
      ugUpgradeCheck malloc mp st1 = Some (0, st2))"
proof -
  have check: "\<exists>st2. ugUpgradeCheck malloc mp st1 = Some (if fst (mark_abs mp st1) = Upgrading then 117 else 0, st2)"
    if "mark_inv mp st1" "mark_sound mp st1" for st1
  proof -
    have "mark_ready malloc mp st1" using that(1) assms(3) by (simp add: mark_ready_def)
    from mark_call_refines [OF this that(2), of OpCheck] show ?thesis
      by (cases "mark_abs mp st1") auto
  qed
  note run = mark_run_refines [OF assms(1-3)]
  obtain m f where m: "mark_abs mp st = (m, f)" by fastforce
  obtain st1 where "mark_run malloc mp ([Call OpStart, Call OpBackupFinish] @ es) st = Some st1"
      "mark_inv mp st1" "mark_sound mp st1" "fst (mark_abs mp st1) = Upgrading"
    using run [of "[Call OpStart, Call OpBackupFinish] @ es"] fold_upgrading [OF assms(4), of True]
    by (auto simp: m)
  moreover obtain st2 where "mark_run malloc mp (Call OpFinish # es') st = Some st2"
      "mark_inv mp st2" "mark_sound mp st2" "fst (mark_abs mp st2) = Idle"
    using run [of "Call OpFinish # es'"] fold_idle [OF assms(5), of f] by (auto simp: m)
  ultimately show ?thesis using check [of st1] check [of st2] by auto
qed

theorem interrupted_upgrade_detected_witness:
  "\<exists>st1 st2. mark_run (\<lambda>n. Some (replicate n 0)) 30 [Call OpStart, Call OpBackupFinish, PowerLoss] demo_mark = Some st1 \<and>
      ugUpgradeCheck (\<lambda>n. Some (replicate n 0)) 30 st1 = Some (117, st2)"
  using interrupted_upgrade_detected [OF demo_mark_ok(3,2), of "\<lambda>n. Some (replicate n 0)" "[PowerLoss]" "[]"]
  by (auto simp del: mark_run.simps)

text \<open>
  A mark that cannot be written is not reported: when the block is readable but refuses
  writes, the three operations that set the mark return 0 all the same, and the device is
  unchanged. An upgrade cut off after that is not noticed.
\<close>

theorem mark_write_failure_unreported:
  assumes "mark_ready malloc mp st" "\<not> dv_writable (mk_dev st) (mark_block mp st)" "op \<noteq> OpCheck"
  shows "\<exists>st'. mark_call malloc mp op st = Some (0, st') \<and> dv_block (mk_dev st') = dv_block (mk_dev st)"
proof -
  have init: "ugMarkInit malloc mp (st\<lparr>ugBackupPackageFinished := x\<rparr>) =
      Some (0, mark_opened mp (st\<lparr>ugBackupPackageFinished := x\<rparr>))" for x
    using assms(1) by (intro mark_init_ok) (simp add: mark_ready_def mark_inv_def mark_block_def)
  let ?k = "mark_block mp st"
  have put: "mark_put (mark_read mp st) m = Some (m @ drop 9 (mark_read mp st))"
      "dev_write ((mk_dev st)\<lparr>dv_pos := ?k\<rparr>) (m @ drop 9 (mark_read mp st)) 0 1 = Some (0, (mk_dev st)\<lparr>dv_pos := ?k\<rparr>)"
    if "length m = 9" for m
    using mark_put_eq [OF mark_read_long [OF assms(1)] that] assms(1,2) that
    by (auto simp: mark_ready_def mark_inv_def dev_ok_def mark_read_def)
  have seek: "dev_lseek ((mk_dev st)\<lparr>dv_pos := ?k + 1\<rparr>) ?k = (int ?k, (mk_dev st)\<lparr>dv_pos := ?k\<rparr>)"
    using assms(1) by (simp add: dev_lseek_def mark_ready_def mark_inv_def)
  have same: "mark_block mp (st\<lparr>ugBackupPackageFinished := x\<rparr>) = ?k"
    "mark_read mp (st\<lparr>ugBackupPackageFinished := x\<rparr>) = mark_read mp st" for x
    by (simp_all add: mark_block_def mark_read_def)
  show ?thesis
  proof (cases op)
    case OpCheck
    with assms(3) show ?thesis by simp
  next
    case OpStart
    then show ?thesis
      using put [of ugMarkBackuping] seek
      by (simp add: ugUpgradeStart_def init, simp add: mark_state_simps same)
  next
    case OpBackupFinish
    then show ?thesis
      using put [of ugMarkUpgrading] seek
      by (cases "ugBackupPackageFinished st")
        (simp_all add: ugUpgradeBackupFinish_def mark_init_ok [OF assms(1)] ugMarkExit_def [of st],
         simp add: mark_state_simps)
  next
    case OpFinish
    then show ?thesis
      using put [of "replicate 9 255"] seek
      by (simp add: ugUpgradeFinish_def mark_init_ok [OF assms(1)], simp add: mark_state_simps)
  qed
qed

theorem mark_write_failure_unreported_witness:
  "\<exists>st'. ugUpgradeStart (\<lambda>n. Some (replicate n 0)) 30
      (demo_mark\<lparr>mk_dev := demo_dev\<lparr>dv_writable := (\<lambda>_. False)\<rparr>\<rparr>) = Some (0, st') \<and>
    dv_block (mk_dev st') = dv_block demo_dev"
  using mark_write_failure_unreported [of "\<lambda>n. Some (replicate n 0)" 30
      "demo_mark\<lparr>mk_dev := demo_dev\<lparr>dv_writable := (\<lambda>_. False)\<rparr>\<rparr>" OpStart]
  by (simp add: mark_ready_def mark_inv_def dev_ok_def mark_block_def demo_mark_def demo_dev_def)

end
