(* ===== verification/UG_RawData.thy ===== *)
theory UG_RawData
  imports UG_Crc UG_Mark
begin

text \<open>
  The raw data block of a package (\<open>sdk/share/upgrade/ug_rawdata.c\<close>): bytes that go to a
  place of a device, outside any file system. A block with size 0 stands for the package itself: the
  whole stream is written behind its length, and the mark then says that the backup is finished.

  The devices are numbered by \<open>ITPDisk\<close>; the mark is on one of them. \<open>reserved\<close> is
  \<open>gNandReservedSize\<close>, which only selects a mode of the NAND driver; the check of the MAC
  address area is compiled in by an option that is off.
\<close>

abbreviation (input) ITP_DISK_SD0 :: int where "ITP_DISK_SD0 \<equiv> 0"
abbreviation (input) ITP_DISK_SD1 :: int where "ITP_DISK_SD1 \<equiv> 1"
abbreviation (input) ITP_DISK_NAND :: int where "ITP_DISK_NAND \<equiv> 5"
abbreviation (input) ITP_DISK_NOR :: int where "ITP_DISK_NOR \<equiv> 6"

record ug_disks =
  ud_dev :: "int \<Rightarrow> blkdev"
  ud_boot :: int
  ud_mark :: mark_state

text \<open>An operation of the mark, on the device that holds it.\<close>

definition with_mark ::
    "(mark_state \<Rightarrow> (int \<times> mark_state) option) \<Rightarrow> ug_disks \<Rightarrow> (int \<times> ug_disks) option" where
  "with_mark f d = do {
     (ret, st) \<leftarrow> f ((ud_mark d)\<lparr>mk_dev := ud_dev d (ud_boot d)\<rparr>);
     Some (ret, d\<lparr>ud_mark := st, ud_dev := (ud_dev d)(ud_boot d := mk_dev st)\<rparr>)
   }"

section \<open>Pieces\<close>

text \<open>The size of the next piece; the first one at the start of a NAND device has the gap too.\<close>

definition raw_piece :: "bool \<Rightarrow> nat \<Rightarrow> u32 \<Rightarrow> u32 \<Rightarrow> u32 \<Rightarrow> u32 \<times> nat" where
  "raw_piece nand pos2 blocksize gapsize remainsize =
     (if pos2 = 0 \<and> nand
      then (if remainsize < blocksize + gapsize then remainsize else blocksize + gapsize, pos2 + 1)
      else (if remainsize < blocksize then remainsize else blocksize, pos2))"

definition raw_blocks :: "u32 \<Rightarrow> u32 \<Rightarrow> nat" where
  "raw_blocks n blocksize = unat (ITH_ALIGN_UP n blocksize div blocksize)"

section \<open>Writing\<close>

definition raw_write_first ::
    "'s itc_vt \<Rightarrow> bool \<Rightarrow> u32 \<Rightarrow> u32 \<Rightarrow> u32 \<Rightarrow> 's \<Rightarrow> bytes \<Rightarrow> u32 \<Rightarrow> nat \<Rightarrow> blkdev \<Rightarrow>
     (int \<times> 's \<times> bytes \<times> u32 \<times> nat \<times> blkdev) option" where
  "raw_write_first vt nand blocksize gapsize rawdata_size f buf remainsize pos2 d = do {
     buf \<leftarrow> memcpy buf 0 (le32_bytes rawdata_size) 0 4;
     let (readsize, pos2) = raw_piece nand pos2 blocksize gapsize remainsize;
     let readsize = readsize - 4;
     (r, rest, f) \<leftarrow> vt_Read vt f (drop 4 buf) (sint readsize);
     let buf = take 4 buf @ rest;
     if word_of_int r \<noteq> readsize then Some (189, f, buf, remainsize, pos2, d)
     else do {
       let n = raw_blocks (readsize + 4) blocksize;
       (k, d) \<leftarrow> dev_write d buf 0 n;
       if k \<noteq> n then Some (198, f, buf, remainsize, pos2, d)
       else Some (0, f, buf, remainsize - readsize, pos2, d)
     }
   }"

partial_function (option) raw_write ::
    "'s itc_vt \<Rightarrow> bool \<Rightarrow> u32 \<Rightarrow> u32 \<Rightarrow> 's \<Rightarrow> bytes \<Rightarrow> u32 \<Rightarrow> nat \<Rightarrow> blkdev \<Rightarrow>
     (int \<times> 's \<times> bytes \<times> blkdev) option" where
  "raw_write vt nand blocksize gapsize f buf remainsize pos2 d =
     (let (readsize, pos2) = raw_piece nand pos2 blocksize gapsize remainsize in
      do {
        (r, buf, f) \<leftarrow> vt_Read vt f buf (sint readsize);
        if word_of_int r \<noteq> readsize then Some (226, f, buf, d)
        else do {
          let n = raw_blocks readsize blocksize;
          (k, d) \<leftarrow> dev_write d buf 0 n;
          if k \<noteq> n then Some (237, f, buf, d)
          else
            let remainsize = remainsize - readsize in
            if 0 < remainsize then raw_write vt nand blocksize gapsize f buf remainsize pos2 d
            else Some (0, f, buf, d)
        }
      })"

section \<open>Verifying\<close>

definition raw_verify_first ::
    "'s itc_vt \<Rightarrow> bool \<Rightarrow> u32 \<Rightarrow> u32 \<Rightarrow> u32 \<Rightarrow> 's \<Rightarrow> bytes \<Rightarrow> bytes \<Rightarrow> u32 \<Rightarrow> nat \<Rightarrow> blkdev \<Rightarrow>
     (int \<times> 's \<times> bytes \<times> bytes \<times> u32 \<times> nat \<times> blkdev) option" where
  "raw_verify_first vt nand blocksize gapsize rawdata_size f buf buf2 remainsize pos2 d = do {
     (r, f) \<leftarrow> vt_Seek vt f 0 SEEK_SET;
     if r \<noteq> 0 then Some (275, f, buf, buf2, remainsize, pos2, d)
     else do {
       let (readsize, pos2) = raw_piece nand pos2 blocksize gapsize remainsize;
       let readsize = readsize - 4;
       buf \<leftarrow> memcpy buf 0 (le32_bytes rawdata_size) 0 4;
       (r, rest, f) \<leftarrow> vt_Read vt f (drop 4 buf) (sint readsize);
       let buf = take 4 buf @ rest;
       if word_of_int r \<noteq> readsize then Some (297, f, buf, buf2, remainsize, pos2, d)
       else do {
         let n = raw_blocks readsize blocksize;
         (k, buf2, d) \<leftarrow> dev_read d buf2 0 n;
         if k \<noteq> n then Some (307, f, buf, buf2, remainsize, pos2, d)
         else if take (unat (readsize + 4)) buf \<noteq> take (unat (readsize + 4)) buf2
         then Some (315, f, buf, buf2, remainsize, pos2, d)
         else Some (0, f, buf, buf2, remainsize - readsize, pos2, d)
       }
     }
   }"

partial_function (option) raw_verify ::
    "'s itc_vt \<Rightarrow> bool \<Rightarrow> u32 \<Rightarrow> u32 \<Rightarrow> 's \<Rightarrow> bytes \<Rightarrow> bytes \<Rightarrow> u32 \<Rightarrow> nat \<Rightarrow> blkdev \<Rightarrow>
     (int \<times> 's \<times> blkdev) option" where
  "raw_verify vt nand blocksize gapsize f buf buf2 remainsize pos2 d =
     (let (readsize, pos2) = raw_piece nand pos2 blocksize gapsize remainsize in
      do {
        (r, buf, f) \<leftarrow> vt_Read vt f buf (sint readsize);
        if word_of_int r \<noteq> readsize then Some (353, f, d)
        else do {
          let n = raw_blocks readsize blocksize;
          (k, buf2, d) \<leftarrow> dev_read d buf2 0 n;
          if k \<noteq> n then Some (363, f, d)
          else if take (unat readsize) buf \<noteq> take (unat readsize) buf2 then Some (371, f, d)
          else
            let remainsize = remainsize - readsize in
            if 0 < remainsize then raw_verify vt nand blocksize gapsize f buf buf2 remainsize pos2 d
            else Some (0, f, d)
        }
      })"

section \<open>The block\<close>

text \<open>The transfer once the device is open: from the allocation of the buffer to the verification.\<close>

definition raw_transfer ::
    "'s itc_vt \<Rightarrow> (nat \<Rightarrow> bytes option) \<Rightarrow> u32 \<Rightarrow> bool \<Rightarrow> u32 \<Rightarrow> u32 \<Rightarrow> u32 \<Rightarrow> u32 \<Rightarrow> u32 \<Rightarrow> 's \<Rightarrow> blkdev \<Rightarrow>
     (int \<times> 's \<times> blkdev) option" where
  "raw_transfer vt malloc cfg nand blocksize gapsize position rawdata_size streampos f d =
     (let alignsize = ITH_ALIGN_UP rawdata_size (blocksize + gapsize);
          bufsize = (if cfg < alignsize then cfg else alignsize)
      in
      case malloc (unat bufsize) of
        None \<Rightarrow> Some (145, f, d)
      | Some buf \<Rightarrow>
          let pos = unat (position div (blocksize + gapsize));
              (r, d) = dev_lseek d pos
          in
          if r \<noteq> int pos then Some (161, f, d)
          else do {
            (ret, f, buf, remainsize, pos2, d) \<leftarrow>
              (if 0 < streampos
               then raw_write_first vt nand blocksize gapsize rawdata_size f buf rawdata_size pos d
               else Some (0, f, buf, rawdata_size, pos, d));
            if ret \<noteq> 0 then Some (ret, f, d)
            else do {
              (ret, f, buf, d) \<leftarrow> raw_write vt nand blocksize gapsize f buf remainsize pos2 d;
              if ret \<noteq> 0 then Some (ret, f, d)
              else
                let (r, d) = dev_lseek d pos in
                if r \<noteq> int pos then Some (254, f, d)
                else
                  case malloc (unat bufsize) of
                    None \<Rightarrow> Some (262, f, d)
                  | Some buf2 \<Rightarrow> do {
                      (ret, f, buf, buf2, remainsize, pos2, d) \<leftarrow>
                        (if 0 < streampos
                         then raw_verify_first vt nand blocksize gapsize rawdata_size f buf buf2 rawdata_size pos d
                         else do {
                           (r, f) \<leftarrow> vt_Seek vt f (- uint rawdata_size) SEEK_CUR;
                           Some (if r \<noteq> 0 then 333 else 0, f, buf, buf2, rawdata_size, pos, d)
                         });
                      if ret \<noteq> 0 then Some (ret, f, d)
                      else raw_verify vt nand blocksize gapsize f buf buf2 remainsize pos2 d
                    }
            }
          })"

definition ugUpgradeRawData ::
    "'s itc_vt \<Rightarrow> (nat \<Rightarrow> bytes option) \<Rightarrow> u32 \<Rightarrow> nat \<Rightarrow> 's \<Rightarrow> int \<Rightarrow> bool \<Rightarrow> ug_disks \<Rightarrow> (int \<times> 's \<times> ug_disks) option" where
  "ugUpgradeRawData vt malloc cfg mark_pos f disk restore disks = do {
     (r, header, f) \<leftarrow> vt_Read vt f (replicate 8 0) 8;
     if (word_of_int r :: u32) \<noteq> 8 then Some (36, f, disks)
     else do {
       let position = le32 header;
       let rawdata_size = le32 (drop 4 header);
       if rawdata_size = 0 \<and> restore then Some (0, f, disks)
       else do {
         (streampos, rawdata_size, f) \<leftarrow>
           (if rawdata_size = 0 then do {
              (streampos, f) \<leftarrow> vt_Tell vt f;
              (_, f) \<leftarrow> vt_Seek vt f 0 SEEK_SET;
              Some (word_of_int streampos :: u32, word_of_int (vt_size vt f), f)
            }
            else Some (0, rawdata_size, f));
         if disk \<notin> {ITP_DISK_NAND, ITP_DISK_NOR, ITP_DISK_SD0, ITP_DISK_SD1} then Some (-1, f, disks)
         else
           let d = ud_dev disks disk in
           if \<not> dv_present d then Some (-1, f, disks)
           else if \<not> dv_has_bsize d then Some (125, f, disks)
           else if \<not> dv_has_gap d then Some (132, f, disks)
           else
             let blocksize = word_of_nat (dv_bsize d); gapsize = word_of_nat (dv_gap d) in
             if blocksize = 0 \<or> blocksize + gapsize = 0 then None
             else do {
               (ret, f, d) \<leftarrow>
                 raw_transfer vt malloc cfg (disk = ITP_DISK_NAND) blocksize gapsize position rawdata_size streampos f d;
               let disks = disks\<lparr>ud_dev := (ud_dev disks)(disk := d)\<rparr>;
               if ret \<noteq> 0 \<or> streampos = 0 then Some (ret, f, disks)
               else do {
                 (_, f) \<leftarrow> vt_Seek vt f (sint streampos) SEEK_SET;
                 (ret, disks) \<leftarrow> with_mark (ugUpgradeBackupFinish malloc mark_pos) disks;
                 Some (ret, f, disks)
               }
             }
       }
     }
   }"

section \<open>Block arithmetic\<close>

lemma align_up_div:
  assumes "bs = 2 ^ j" "j < 30" "k + 2 ^ j < 2 ^ 31"
  shows "unat (ITH_ALIGN_UP (word_of_nat k) bs div bs) = (k + (2 ^ j - 1)) div 2 ^ j"
proof -
  define m where "m = (2::nat) ^ j - 1"
  have m: "m + 1 = 2 ^ j" by (simp add: m_def)
  then have small: "k + m < 2 ^ 31" using assms(3) by linarith
  have mask: "bs - 1 = mask j" by (simp add: assms(1) mask_eq_exp_minus_1)
  have mask': "(mask j :: u32) = word_of_nat m"
  proof -
    have "m = mask j" by (simp add: m_def mask_eq_exp_minus_1)
    then show ?thesis by (simp add: of_nat_mask_eq)
  qed
  have div: "(w AND NOT (mask j)) div 2 ^ j = drop_bit j w" for w :: u32
    by (simp add: drop_bit_eq_div [symmetric], rule bit_word_eqI) (auto simp: bit_simps dest: bit_imp_le_length)
  have "unat (ITH_ALIGN_UP (word_of_nat k) bs div bs) = unat (drop_bit j (word_of_nat k + mask j :: u32))"
    by (simp add: ITH_ALIGN_UP_def mask) (simp add: assms(1) div)
  also have "(word_of_nat k + mask j :: u32) = word_of_nat (k + m)" by (simp add: mask')
  also have "unat (drop_bit j (word_of_nat (k + m) :: u32)) = (k + m) div 2 ^ j"
    by (simp only: unat_drop_bit_eq unat_of_nat_u32 [OF small]) (simp only: drop_bit_eq_div)
  finally show ?thesis by (simp only: m_def)
qed

lemma raw_blocks_01:
  assumes "bs = 2 ^ j" "j < 30" "k \<le> 2 ^ j"
  shows "raw_blocks (word_of_nat k) bs = (if k = 0 then 0 else 1)"
proof -
  have p30: "(2::nat) ^ j < 2 ^ 30" using assms(2) by (intro power_strict_increasing) auto
  have "(2::nat) ^ 31 = 2 * 2 ^ 30" by simp
  then have "k + 2 ^ j < 2 ^ 31" using assms(3) p30 by linarith
  then have "raw_blocks (word_of_nat k) bs = (k + (2 ^ j - 1)) div 2 ^ j"
    unfolding raw_blocks_def by (rule align_up_div [OF assms(1,2)])
  also have "\<dots> = (if k = 0 then 0 else 1)"
  proof (cases "k = 0")
    case False
    then have "2 ^ j \<le> k + (2 ^ j - 1)" "k + (2 ^ j - 1) < 2 * 2 ^ j" using assms(3) by linarith+
    then have "(k + (2 ^ j - 1)) div 2 ^ j = 1" by (intro div_nat_eqI) simp_all
    with False show ?thesis by simp
  qed simp
  finally show ?thesis .
qed

text \<open>The bytes of a device from a block on.\<close>

definition dev_bytes :: "blkdev \<Rightarrow> nat \<Rightarrow> nat \<Rightarrow> bytes" where
  "dev_bytes d p n = map (\<lambda>i. dv_block d (p + i div dv_bsize d) ! (i mod dv_bsize d)) [0..<n]"

lemma dev_bytes_short:
  assumes "dev_ok d" "n \<le> dv_bsize d"
  shows "dev_bytes d p n = take n (dv_block d p)"
proof (rule nth_equalityI)
  show "length (dev_bytes d p n) = length (take n (dv_block d p))"
    using assms by (simp add: dev_bytes_def dev_ok_def)
  show "dev_bytes d p n ! i = take n (dv_block d p) ! i" if "i < length (dev_bytes d p n)" for i
    using that assms by (simp add: dev_bytes_def)
qed

lemma dev_bytes_long:
  assumes "dev_ok d" "0 < dv_bsize d" "dv_bsize d \<le> n"
  shows "dev_bytes d p n = dv_block d p @ dev_bytes d (p + 1) (n - dv_bsize d)"
proof (rule nth_equalityI)
  let ?b = "dv_bsize d"
  have len: "length (dv_block d i) = ?b" for i using assms(1) by (simp add: dev_ok_def)
  show "length (dev_bytes d p n) = length (dv_block d p @ dev_bytes d (p + 1) (n - ?b))"
    using assms(3) by (simp add: dev_bytes_def len)
  show "dev_bytes d p n ! i = (dv_block d p @ dev_bytes d (p + 1) (n - ?b)) ! i"
    if "i < length (dev_bytes d p n)" for i
  proof (cases "i < ?b")
    case False
    then have "i div ?b = Suc ((i - ?b) div ?b)" "i mod ?b = (i - ?b) mod ?b"
      using assms(2) by (simp_all add: le_div_geq le_mod_geq)
    moreover have "i - ?b < n - ?b" using False that by (simp add: dev_bytes_def)
    ultimately show ?thesis using False that by (simp add: dev_bytes_def nth_append len)
  qed (use that in \<open>simp add: dev_bytes_def nth_append len\<close>)
qed

definition dev_same :: "blkdev \<Rightarrow> blkdev \<Rightarrow> bool" where
  "dev_same d d' \<longleftrightarrow> d' = d\<lparr>dv_pos := dv_pos d', dv_block := dv_block d'\<rparr>"

text \<open>All blocks of a range are sound.\<close>

definition range_sound :: "blkdev \<Rightarrow> nat \<Rightarrow> nat \<Rightarrow> bool" where
  "range_sound d p n \<longleftrightarrow> (\<forall>i. p \<le> i \<and> i < p + (n + dv_bsize d - 1) div dv_bsize d \<longrightarrow> block_sound d i)"

lemma le32_append: "le32 (le32_bytes w @ x) = w"
proof -
  have "le32 (le32_bytes w @ x) = le32 (le32_bytes w)" by (simp add: le32_def)
  then show ?thesis by simp
qed

section \<open>The loops on a device without gaps\<close>

lemma dev_same_refl [simp]: "dev_same d d" "dev_same d (d\<lparr>dv_pos := p\<rparr>)"
  by (simp_all add: dev_same_def)

lemma dev_same_trans: "dev_same d d' \<Longrightarrow> dev_same d' d'' \<Longrightarrow> dev_same d d''"
  by (cases d; cases d'; cases d'') (simp add: dev_same_def)

lemma dev_sameD:
  assumes "dev_same d d'"
  shows "dv_bsize d' = dv_bsize d" "dv_count d' = dv_count d" "block_sound d' = block_sound d"
    "range_sound d' p n = range_sound d p n" "dv_readable d' = dv_readable d" "dv_keep d' = dv_keep d"
  using assms by (cases d; cases d'; simp add: dev_same_def range_sound_def block_sound_def fun_eq_iff)+

text \<open>One block, or none.\<close>

lemma dev_read_block:
  assumes "dev_ok d" "n \<le> 1" "dv_bsize d \<le> length buf"
  obtains k buf' where "dev_read d buf 0 n = Some (k, buf', d\<lparr>dv_pos := dv_pos d + k\<rparr>)" "k \<le> n"
    "length buf' = length buf" "k = 1 \<longrightarrow> take (dv_bsize d) buf' = dv_block d (dv_pos d)"
    "block_sound d (dv_pos d) \<longrightarrow> k = n"
proof (cases "n = 0")
  case True
  then show thesis by (intro that [of 0 buf]) simp_all
next
  case False
  then have n: "n = Suc 0" using assms(2) by simp
  have len: "length (dv_block d (dv_pos d)) = dv_bsize d" using assms(1) by (simp add: dev_ok_def)
  show thesis
  proof (cases "dv_pos d < dv_count d \<and> dv_readable d (dv_pos d)")
    case True
    have "memcpy buf (int 0) (dv_block d (dv_pos d)) (int 0) (int (dv_bsize d)) =
        Some (dv_block d (dv_pos d) @ drop (dv_bsize d) buf)"
      using memcpy_int [of 0 "dv_bsize d" buf 0 "dv_block d (dv_pos d)"] assms(3) len by simp
    with True n len assms(3) show thesis
      by (intro that [of 1 "dv_block d (dv_pos d) @ drop (dv_bsize d) buf"]) simp_all
  next
    case False
    with n show thesis by (intro that [of 0 buf]) (auto simp: block_sound_def)
  qed
qed

lemma dev_write_block:
  assumes "dev_ok d" "n \<le> 1" "dv_bsize d \<le> length buf"
  obtains k d' where "dev_write d buf 0 n = Some (k, d')" "k \<le> n" "dev_same d d'" "dev_ok d'"
    "dv_pos d' = dv_pos d + k" "\<forall>i. i \<noteq> dv_pos d \<longrightarrow> dv_block d' i = dv_block d i"
    "block_sound d (dv_pos d) \<longrightarrow> k = n \<and> (n = 1 \<longrightarrow> dv_block d' (dv_pos d) = take (dv_bsize d) buf)"
    "n = 0 \<longrightarrow> d' = d"
proof (cases "n = 1 \<and> dv_pos d < dv_count d \<and> dv_writable d (dv_pos d)")
  case True
  let ?d = "d\<lparr>dv_block := (dv_block d)(dv_pos d := dv_keep d (dv_pos d) (slice buf 0 (dv_bsize d))),
    dv_pos := dv_pos d + 1\<rparr>"
  have "length (slice buf 0 (dv_bsize d)) = dv_bsize d" using assms(3) by simp
  then have "dev_ok ?d" using assms(1) by (simp add: dev_ok_def)
  moreover have "dev_write d buf 0 n = Some (1, ?d)" using True assms(3) by (simp add: One_nat_def Let_def)
  ultimately show thesis
    using True by (intro that [of 1 ?d]) (auto simp: dev_same_def block_sound_def slice_def)
next
  case False
  have "n = 0 \<or> n = Suc 0" using assms(2) by auto
  then have "dev_write d buf 0 n = Some (0, d)" using False assms(3) by auto
  then show thesis using assms(1) False \<open>n = 0 \<or> n = Suc 0\<close>
    by (intro that [of 0 d]) (auto simp: block_sound_def)
qed

lemma raw_piece_min:
  assumes "bs = 2 ^ j" "j < 30" "n < 2 ^ 31"
  shows "fst (raw_piece nand p bs 0 (word_of_nat n)) = word_of_nat (min n (2 ^ j))"
proof -
  have p30: "(2::nat) ^ j < 2 ^ 30" using assms(2) by (intro power_strict_increasing) auto
  also have "(2::nat) ^ 30 < 2 ^ 31" by simp
  finally have "unat (word_of_nat (2 ^ j) :: u32) = 2 ^ j" by (rule unat_of_nat_u32)
  then have ub: "unat bs = 2 ^ j" by (simp add: assms(1))
  have bs: "bs = word_of_nat (2 ^ j)" by (simp add: assms(1))
  have "(word_of_nat n :: u32) < bs \<longleftrightarrow> n < 2 ^ j"
    by (simp only: word_less_nat_alt ub unat_of_nat_u32 [OF assms(3)])
  then show ?thesis by (auto simp: raw_piece_def min_def bs)
qed

lemma range_sound_first: "range_sound d p n \<Longrightarrow> 0 < n \<Longrightarrow> 0 < dv_bsize d \<Longrightarrow> block_sound d p"
  by (simp add: range_sound_def div_greater_zero_iff)

lemma range_sound_next:
  assumes "range_sound d p n" "dv_bsize d \<le> n" "0 < dv_bsize d"
  shows "range_sound d (p + 1) (n - dv_bsize d)"
proof -
  let ?b = "dv_bsize d"
  have "n + ?b - 1 = (n - ?b + ?b - 1) + ?b" using assms(2,3) by simp
  then have "(n + ?b - 1) div ?b = (n - ?b + ?b - 1) div ?b + 1" using assms(3) by (metis div_add_self2 gr_implies_not0)
  with assms(1) show ?thesis by (auto simp: range_sound_def)
qed

lemma dev_bytes_pos [simp]: "dev_bytes (d\<lparr>dv_pos := q\<rparr>) p n = dev_bytes d p n"
    "dev_ok (d\<lparr>dv_pos := q\<rparr>) = dev_ok d" "range_sound (d\<lparr>dv_pos := q\<rparr>) p n = range_sound d p n"
    "block_sound (d\<lparr>dv_pos := q\<rparr>) p = block_sound d p"
  by (simp_all add: dev_bytes_def dev_ok_def range_sound_def block_sound_def)

context itc_source
begin

lemma raw_verify_result:
  assumes bs: "bs = 2 ^ j" "j < 30" "dv_bsize d = 2 ^ j" and d: "dev_ok d"
    and "inv s" "cursor s + n \<le> length (contents s)" "n < 2 ^ 31"
    and "2 ^ j \<le> length buf" "2 ^ j \<le> length buf2"
  shows "\<exists>ret s' p. raw_verify vt nand bs 0 s buf buf2 (word_of_nat n) pos2 d = Some (ret, s', d\<lparr>dv_pos := p\<rparr>) \<and>
    inv s' \<and> contents s' = contents s \<and>
    (ret = 0 \<longrightarrow> cursor s' = cursor s + n \<and> dev_bytes d (dv_pos d) n = slice (contents s) (cursor s) n) \<and>
    (range_sound d (dv_pos d) n \<and> dev_bytes d (dv_pos d) n = slice (contents s) (cursor s) n \<longrightarrow> ret = 0)"
  using assms(3-)
proof (induction n arbitrary: s buf buf2 pos2 d rule: less_induct)
  case (less n)
  let ?b = "(2::nat) ^ j" and ?p = "dv_pos d"
  define k where "k = min n ?b"
  let ?w = "word_of_nat k :: u32"
  obtain pos3 where piece: "raw_piece nand pos2 bs 0 (word_of_nat n) = (?w, pos3)"
    using raw_piece_min [OF bs(1,2) less.prems(5), of nand pos2] unfolding k_def by (metis surj_pair fst_conv)
  have k: "k \<le> length buf" "cursor s + k \<le> length (contents s)" "k < 2 ^ 31" "k \<le> n" "k \<le> ?b"
    using less.prems by (auto simp: k_def)
  have uk: "unat ?w = k" "sint ?w = int k" using k(3) by (simp_all add: unat_of_nat_u32 sint_of_nat_u32)
  have rest: "(word_of_nat n :: u32) - ?w = word_of_nat (n - k)" using k(4) by simp
  have pos: "0 < (word_of_nat (n - k) :: u32) \<longleftrightarrow> k < n"
    using less.prems(5) by (simp add: word_less_nat_alt unat_of_nat)
  obtain s1 where s1: "vt_Read vt s buf (int k) = Some (int k, slice (contents s) (cursor s) k @ drop k buf, s1)"
    "inv s1" "contents s1 = contents s" "cursor s1 = cursor s + k"
    using read_exact [OF less.prems(3) k(1,2)] by blast
  define buf1 where "buf1 = slice (contents s) (cursor s) k @ drop k buf"
  have buf1: "length buf1 = length buf" "take k buf1 = slice (contents s) (cursor s) k"
    using k(1,2) by (simp_all add: buf1_def)
  let ?m = "raw_blocks ?w bs"
  have m: "?m = (if k = 0 then 0 else 1)" by (rule raw_blocks_01 [OF bs(1,2) k(5)])
  have m1: "?m \<le> 1" by (simp add: m)
  have blen: "dv_bsize d \<le> length buf2" using less.prems(1,7) by simp
  obtain k2 buf3 where rd: "dev_read d buf2 0 ?m = Some (k2, buf3, d\<lparr>dv_pos := ?p + k2\<rparr>)" "k2 \<le> ?m"
    "length buf3 = length buf2" "k2 = 1 \<longrightarrow> take (dv_bsize d) buf3 = dv_block d ?p"
    "block_sound d ?p \<longrightarrow> k2 = ?m"
    by (rule dev_read_block [OF less.prems(2) m1 blen])
  have kk: "(word_of_int (int k) :: u32) = ?w" by simp
  note step = raw_verify.simps [of vt nand bs 0 s buf buf2 "word_of_nat n" pos2 d, unfolded piece]
  have read: "raw_verify vt nand bs 0 s buf buf2 (word_of_nat n) pos2 d =
     (if k2 \<noteq> ?m then Some (363, s1, d\<lparr>dv_pos := ?p + k2\<rparr>)
      else if take k buf1 \<noteq> take k buf3 then Some (371, s1, d\<lparr>dv_pos := ?p + k2\<rparr>)
      else if k < n then raw_verify vt nand bs 0 s1 buf1 buf3 (word_of_nat (n - k)) pos3 (d\<lparr>dv_pos := ?p + k2\<rparr>)
      else Some (0, s1, d\<lparr>dv_pos := ?p + k2\<rparr>))"
    using s1(1) rd(1) kk by (simp add: step Let_def uk rest pos buf1_def [symmetric] del: of_nat_diff)
  have b0: "0 < dv_bsize d" "dv_bsize d = ?b" using less.prems(1) by simp_all
  have cut: "take k (dev_bytes d ?p n) = take k (dv_block d ?p)"
  proof (cases "n \<le> ?b")
    case True
    then show ?thesis using dev_bytes_short [OF less.prems(2), of n ?p] b0 by (simp add: k_def)
  next
    case False
    have "length (dv_block d ?p) = ?b" using less.prems(2) b0 by (simp add: dev_ok_def)
    with False show ?thesis using dev_bytes_long [OF less.prems(2) b0(1), of n ?p] b0 by (simp add: k_def)
  qed
  have cut': "take k (slice (contents s) (cursor s) n) = slice (contents s) (cursor s) k"
    using k(4) by (simp add: slice_def min_absorb1)
  show ?case
  proof (cases "k2 = ?m")
    case False
    have "\<not> range_sound d ?p n"
    proof
      assume "range_sound d ?p n"
      moreover have "n \<noteq> 0" by (rule notI) (use False m rd(2) in \<open>simp add: k_def\<close>)
      ultimately have "block_sound d ?p" using range_sound_first b0(1) by blast
      with False rd(5) show False by simp
    qed
    with False read s1 show ?thesis by auto
  next
    case full: True
    have got: "take k buf3 = take k (dv_block d ?p)"
    proof (cases "k = 0")
      case False
      then have "take (dv_bsize d) buf3 = dv_block d ?p" using full m rd(4) by simp
      then have "take k (take (dv_bsize d) buf3) = take k (dv_block d ?p)" by simp
      then show ?thesis using k(5) b0(2) by (simp add: min_absorb1)
    qed simp
    show ?thesis
    proof (cases "take k buf1 = take k buf3")
      case False
      then have "dev_bytes d ?p n \<noteq> slice (contents s) (cursor s) n"
        using cut cut' got buf1(2) by metis
      with False full read s1 show ?thesis by auto
    next
      case same: True
      show ?thesis
      proof (cases "k < n")
        case False
        then have kn: "k = n" "n \<le> ?b" using k(4,5) by simp_all
        have "dev_bytes d ?p n = slice (contents s) (cursor s) n"
          using dev_bytes_short [OF less.prems(2), of n ?p] kn b0(2) same got buf1(2) by simp
        then show ?thesis using read full same False s1 kn by auto
      next
        case True
        then have kb: "k = ?b" by (simp add: k_def)
        have k2: "k2 = 1" using full m kb by simp
        let ?d = "d\<lparr>dv_pos := ?p + 1\<rparr>"
        have "\<exists>ret s' p. raw_verify vt nand bs 0 s1 buf1 buf3 (word_of_nat (n - k)) pos3 ?d = Some (ret, s', ?d\<lparr>dv_pos := p\<rparr>) \<and>
          inv s' \<and> contents s' = contents s1 \<and>
          (ret = 0 \<longrightarrow> cursor s' = cursor s1 + (n - k) \<and>
            dev_bytes ?d (dv_pos ?d) (n - k) = slice (contents s1) (cursor s1) (n - k)) \<and>
          (range_sound ?d (dv_pos ?d) (n - k) \<and>
            dev_bytes ?d (dv_pos ?d) (n - k) = slice (contents s1) (cursor s1) (n - k) \<longrightarrow> ret = 0)"
          by (rule less.IH) (use True kb k less.prems s1 rd(3) buf1(1) in auto)
        then obtain ret s' p where ih: "raw_verify vt nand bs 0 s1 buf1 buf3 (word_of_nat (n - k)) pos3 ?d = Some (ret, s', d\<lparr>dv_pos := p\<rparr>)"
          "inv s'" "contents s' = contents s"
          "ret = 0 \<longrightarrow> cursor s' = cursor s + n \<and>
            dev_bytes d (?p + 1) (n - k) = slice (contents s) (cursor s + k) (n - k)"
          "range_sound d (?p + 1) (n - k) \<and>
            dev_bytes d (?p + 1) (n - k) = slice (contents s) (cursor s + k) (n - k) \<longrightarrow> ret = 0"
          using s1(3,4) True by auto
        have split: "dev_bytes d ?p n = slice (contents s) (cursor s) n \<longleftrightarrow>
            dev_bytes d (?p + 1) (n - k) = slice (contents s) (cursor s + k) (n - k)"
        proof -
          have len: "length (dv_block d ?p) = k" using less.prems(2) b0 kb by (simp add: dev_ok_def)
          have "dev_bytes d ?p n = dv_block d ?p @ dev_bytes d (?p + 1) (n - k)"
            using dev_bytes_long [OF less.prems(2) b0(1), of n ?p] b0(2) kb True by simp
          moreover have "slice (contents s) (cursor s) n =
              slice (contents s) (cursor s) k @ slice (contents s) (cursor s + k) (n - k)"
            using True by (simp add: slice_append)
          moreover have "dv_block d ?p = slice (contents s) (cursor s) k"
            using got same buf1(2) len by simp
          ultimately show ?thesis by simp
        qed
        have rs: "range_sound d ?p n \<Longrightarrow> range_sound d (?p + 1) (n - k)"
          using range_sound_next [of d ?p n] b0 kb True by simp
        have "raw_verify vt nand bs 0 s buf buf2 (word_of_nat n) pos2 d = Some (ret, s', d\<lparr>dv_pos := p\<rparr>)"
          using read full same True ih(1) k2 by simp
        then show ?thesis using ih(2-5) split rs by blast
      qed
    qed
  qed
qed

lemma raw_write_result:
  assumes bs: "bs = 2 ^ j" "j < 30" "dv_bsize d = 2 ^ j" and d: "dev_ok d"
    and "inv s" "cursor s + n \<le> length (contents s)" "n < 2 ^ 31"
    and "2 ^ j \<le> length buf"
  shows "\<exists>ret s' buf' d'. raw_write vt nand bs 0 s buf (word_of_nat n) pos2 d = Some (ret, s', buf', d') \<and>
    inv s' \<and> contents s' = contents s \<and> length buf' = length buf \<and> dev_same d d' \<and> dev_ok d' \<and>
    (\<forall>i. i < dv_pos d \<or> dv_pos d + (n + 2 ^ j - 1) div 2 ^ j \<le> i \<longrightarrow> dv_block d' i = dv_block d i) \<and>
    (ret = 0 \<longrightarrow> cursor s' = cursor s + n) \<and>
    (range_sound d (dv_pos d) n \<longrightarrow> ret = 0 \<and> dev_bytes d' (dv_pos d) n = slice (contents s) (cursor s) n)"
  using assms(3-)
proof (induction n arbitrary: s buf pos2 d rule: less_induct)
  case (less n)
  let ?b = "(2::nat) ^ j" and ?p = "dv_pos d"
  define k where "k = min n ?b"
  let ?w = "word_of_nat k :: u32"
  obtain pos3 where piece: "raw_piece nand pos2 bs 0 (word_of_nat n) = (?w, pos3)"
    using raw_piece_min [OF bs(1,2) less.prems(5), of nand pos2] unfolding k_def by (metis surj_pair fst_conv)
  have k: "k \<le> length buf" "cursor s + k \<le> length (contents s)" "k < 2 ^ 31" "k \<le> n" "k \<le> ?b"
    using less.prems by (auto simp: k_def)
  have uk: "unat ?w = k" "sint ?w = int k" using k(3) by (simp_all add: unat_of_nat_u32 sint_of_nat_u32)
  have rest: "(word_of_nat n :: u32) - ?w = word_of_nat (n - k)" using k(4) by simp
  have pos: "0 < (word_of_nat (n - k) :: u32) \<longleftrightarrow> k < n"
    using less.prems(5) by (simp add: word_less_nat_alt unat_of_nat)
  obtain s1 where s1: "vt_Read vt s buf (int k) = Some (int k, slice (contents s) (cursor s) k @ drop k buf, s1)"
    "inv s1" "contents s1 = contents s" "cursor s1 = cursor s + k"
    using read_exact [OF less.prems(3) k(1,2)] by blast
  define buf1 where "buf1 = slice (contents s) (cursor s) k @ drop k buf"
  have buf1: "length buf1 = length buf" "take k buf1 = slice (contents s) (cursor s) k"
    using k(1,2) by (simp_all add: buf1_def)
  let ?m = "raw_blocks ?w bs"
  have m: "?m = (if k = 0 then 0 else 1)" by (rule raw_blocks_01 [OF bs(1,2) k(5)])
  have m1: "?m \<le> 1" by (simp add: m)
  have b0: "0 < dv_bsize d" "dv_bsize d = ?b" using less.prems(1) by simp_all
  have blen: "dv_bsize d \<le> length buf1" using less.prems(1,6) buf1(1) by simp
  obtain k2 d1 where w: "dev_write d buf1 0 ?m = Some (k2, d1)" "k2 \<le> ?m" "dev_same d d1" "dev_ok d1"
    "dv_pos d1 = ?p + k2" "\<forall>i. i \<noteq> ?p \<longrightarrow> dv_block d1 i = dv_block d i"
    "block_sound d ?p \<longrightarrow> k2 = ?m \<and> (?m = 1 \<longrightarrow> dv_block d1 ?p = take (dv_bsize d) buf1)"
    "?m = 0 \<longrightarrow> d1 = d"
    by (rule dev_write_block [OF less.prems(2) m1 blen])
  have kk: "(word_of_int (int k) :: u32) = ?w" by simp
  note step = raw_write.simps [of vt nand bs 0 s buf "word_of_nat n" pos2 d, unfolded piece]
  have unrolled: "raw_write vt nand bs 0 s buf (word_of_nat n) pos2 d =
     (if k2 \<noteq> ?m then Some (237, s1, buf1, d1)
      else if k < n then raw_write vt nand bs 0 s1 buf1 (word_of_nat (n - k)) pos3 d1
      else Some (0, s1, buf1, d1))"
    using s1(1) w(1) kk by (simp add: step Let_def uk rest pos buf1_def [symmetric] del: of_nat_diff)
  have nblocks: "0 < n \<Longrightarrow> 0 < (n + ?b - 1) div ?b" by (simp add: div_greater_zero_iff)
  have out: "dv_block d1 i = dv_block d i" if "i < ?p \<or> ?p + (n + ?b - 1) div ?b \<le> i" for i
  proof (cases "n = 0")
    case True
    then have "?m = 0" unfolding m by (simp add: k_def)
    then show ?thesis using w(8) by simp
  next
    case False
    then have "i \<noteq> ?p" using that nblocks by auto
    then show ?thesis using w(6) by blast
  qed
  have sound: "k2 = ?m \<and> (0 < k \<longrightarrow> dv_block d1 ?p = take ?b buf1)" if "range_sound d ?p n"
  proof (cases "n = 0")
    case True
    then have "k = 0" by (simp add: k_def)
    then show ?thesis using m w(2) by simp
  next
    case False
    then have "block_sound d ?p" using range_sound_first that b0(1) by blast
    then show ?thesis using w(7) m b0(2) by simp
  qed
  show ?case
  proof (cases "k2 = ?m")
    case False
    then have "\<not> range_sound d ?p n" using sound by blast
    with False unrolled s1 w(3,4) out buf1(1) show ?thesis by auto
  next
    case full: True
    show ?thesis
    proof (cases "k < n")
      case False
      then have kn: "k = n" "n \<le> ?b" using k(4,5) by simp_all
      have "dev_bytes d1 ?p n = slice (contents s) (cursor s) n" if "range_sound d ?p n"
      proof (cases "n = 0")
        case False
        then have "dv_block d1 ?p = take ?b buf1" using sound [OF that] kn by simp
        then show ?thesis
          using dev_bytes_short [OF w(4), of n ?p] dev_sameD(1) [OF w(3)] b0(2) kn buf1(2)
          by (simp add: min_absorb1)
      qed (simp add: dev_bytes_def)
      then show ?thesis using unrolled full False s1 w(3,4) out kn buf1(1) by auto
    next
      case True
      then have kb: "k = ?b" by (simp add: k_def)
      have k2: "k2 = 1" using full m kb by simp
      have pos1: "dv_pos d1 = ?p + 1" using w(5) k2 by simp
      have "\<exists>ret s' buf' d'. raw_write vt nand bs 0 s1 buf1 (word_of_nat (n - k)) pos3 d1 = Some (ret, s', buf', d') \<and>
        inv s' \<and> contents s' = contents s1 \<and> length buf' = length buf1 \<and> dev_same d1 d' \<and> dev_ok d' \<and>
        (\<forall>i. i < dv_pos d1 \<or> dv_pos d1 + (n - k + 2 ^ j - 1) div 2 ^ j \<le> i \<longrightarrow> dv_block d' i = dv_block d1 i) \<and>
        (ret = 0 \<longrightarrow> cursor s' = cursor s1 + (n - k)) \<and>
        (range_sound d1 (dv_pos d1) (n - k) \<longrightarrow>
          ret = 0 \<and> dev_bytes d' (dv_pos d1) (n - k) = slice (contents s1) (cursor s1) (n - k))"
        by (rule less.IH) (use True kb k less.prems s1 w(4) dev_sameD(1) [OF w(3)] buf1(1) in auto)
      then obtain ret s' buf' d' where ih: "raw_write vt nand bs 0 s1 buf1 (word_of_nat (n - k)) pos3 d1 = Some (ret, s', buf', d')"
        "inv s'" "contents s' = contents s" "length buf' = length buf" "dev_same d1 d'" "dev_ok d'"
        "\<forall>i. i < ?p + 1 \<or> ?p + 1 + (n - k + ?b - 1) div ?b \<le> i \<longrightarrow> dv_block d' i = dv_block d1 i"
        "ret = 0 \<longrightarrow> cursor s' = cursor s + n"
        "range_sound d1 (?p + 1) (n - k) \<longrightarrow>
          ret = 0 \<and> dev_bytes d' (?p + 1) (n - k) = slice (contents s) (cursor s + k) (n - k)"
        using s1(3,4) True pos1 buf1(1) by auto
      have "n + ?b - 1 = (n - ?b + ?b - 1) + ?b" using True kb by simp
      then have nb: "(n + ?b - 1) div ?b = (n - k + ?b - 1) div ?b + 1"
        unfolding kb by (metis div_add_self2 power_not_zero zero_neq_numeral)
      have frame: "\<forall>i. i < ?p \<or> ?p + (n + ?b - 1) div ?b \<le> i \<longrightarrow> dv_block d' i = dv_block d i"
        using ih(7) out nb by auto
      have good: "ret = 0 \<and> dev_bytes d' ?p n = slice (contents s) (cursor s) n" if rs: "range_sound d ?p n"
      proof -
        have "range_sound d1 (?p + 1) (n - k)"
          using range_sound_next [OF rs] b0 kb True by (simp add: dev_sameD(4) [OF w(3)])
        with ih(9) have tail: "ret = 0" "dev_bytes d' (?p + 1) (n - k) = slice (contents s) (cursor s + k) (n - k)"
          by blast+
        have bsz: "dv_bsize d' = ?b" using dev_sameD(1) [OF ih(5)] dev_sameD(1) [OF w(3)] b0(2) by simp
        have "dv_block d' ?p = dv_block d1 ?p" using ih(7) by simp
        also have "\<dots> = slice (contents s) (cursor s) k" using sound [OF rs] kb buf1(2) by simp
        finally have "dev_bytes d' ?p n = slice (contents s) (cursor s) k @ dev_bytes d' (?p + 1) (n - k)"
          using dev_bytes_long [OF ih(6), of n ?p] bsz kb True by simp
        then show ?thesis using tail True by (simp add: slice_append)
      qed
      have "raw_write vt nand bs 0 s buf (word_of_nat n) pos2 d = Some (ret, s', buf', d')"
        using unrolled full True ih(1) k2 by simp
      then show ?thesis using ih(2-4,6,8) dev_same_trans [OF w(3) ih(5)] frame good by blast
    qed
  qed
qed

lemma raw_transfer_result:
  assumes bs: "bs = 2 ^ j" "j < 30" "dv_bsize d = 2 ^ j" and d: "dev_ok d"
    and "inv s" and fit: "cursor s + n < length (contents s)" "0 < n" "n + 2 ^ j < 2 ^ 31"
    and alloc: "alloc_sized malloc" and cfg: "2 ^ j \<le> unat cfg" and P: "P = unat position div 2 ^ j"
  shows "\<exists>ret s' d'. raw_transfer vt malloc cfg nand bs 0 position (word_of_nat n) 0 s d = Some (ret, s', d') \<and>
    inv s' \<and> contents s' = contents s \<and> dev_same d d' \<and> dev_ok d' \<and>
    (\<forall>i. i < P \<or> P + (n + 2 ^ j - 1) div 2 ^ j \<le> i \<longrightarrow> dv_block d' i = dv_block d i) \<and>
    (ret = 0 \<longrightarrow> cursor s' = cursor s + n \<and> dev_bytes d' P n = slice (contents s) (cursor s) n) \<and>
    (range_sound d P n \<and> (\<forall>n. malloc n \<noteq> None) \<longrightarrow> ret = 0)"
proof -
  let ?w = "word_of_nat n :: u32" and ?b = "(2::nat) ^ j"
  have n31: "n < 2 ^ 31" using fit(3) by linarith
  have p30: "(2::nat) ^ j < 2 ^ 30" using bs(2) by (intro power_strict_increasing) auto
  also have "(2::nat) ^ 30 < 2 ^ 31" by simp
  finally have "unat (word_of_nat (2 ^ j) :: u32) = 2 ^ j" by (rule unat_of_nat_u32)
  then have ub: "unat bs = ?b" by (simp add: bs(1))
  define bufsize where "bufsize = (if cfg < ITH_ALIGN_UP ?w bs then cfg else ITH_ALIGN_UP ?w bs)"
  have "?b \<le> unat (ITH_ALIGN_UP ?w bs)"
  proof -
    have "unat (ITH_ALIGN_UP ?w bs) div ?b = (n + (?b - 1)) div ?b"
      using align_up_div [OF bs(1,2) fit(3)] by (simp only: unat_div ub)
    also have "0 < \<dots>" using fit(2) by (simp add: div_greater_zero_iff)
    finally show ?thesis by (simp add: div_greater_zero_iff)
  qed
  then have room: "?b \<le> unat bufsize" using cfg by (simp add: bufsize_def)
  have pos: "unat (position div (bs + 0)) = P" by (simp add: unat_div ub P)
  note unf = raw_transfer_def [of vt malloc cfg nand bs 0 position ?w 0 s d, unfolded add_0_right Let_def,
      folded bufsize_def, unfolded pos [unfolded add_0_right]]
  show ?thesis
  proof (cases "malloc (unat bufsize)")
    case None
    with assms(4,5) show ?thesis by (auto simp: unf)
  next
    case buf: (Some buf)
    then have lbuf: "?b \<le> length buf" using alloc room by (auto simp: alloc_sized_def)
    show ?thesis
    proof (cases "P < dv_count d")
      case False
      have "0 < (n + ?b - 1) div ?b" using fit(2) by (simp add: div_greater_zero_iff)
      then have "\<not> range_sound d P n" using False bs(3) by (auto simp: range_sound_def block_sound_def)
      with False buf assms(4,5) show ?thesis by (simp add: unf dev_lseek_def)
    next
      case True
      let ?d = "d\<lparr>dv_pos := P\<rparr>"
      have seek: "dev_lseek d P = (int P, ?d)" using True by (simp add: dev_lseek_def)
      have "\<exists>ret s' buf' d'. raw_write vt nand bs 0 s buf ?w P ?d = Some (ret, s', buf', d') \<and>
        inv s' \<and> contents s' = contents s \<and> length buf' = length buf \<and> dev_same ?d d' \<and> dev_ok d' \<and>
        (\<forall>i. i < dv_pos ?d \<or> dv_pos ?d + (n + 2 ^ j - 1) div 2 ^ j \<le> i \<longrightarrow> dv_block d' i = dv_block ?d i) \<and>
        (ret = 0 \<longrightarrow> cursor s' = cursor s + n) \<and>
        (range_sound ?d (dv_pos ?d) n \<longrightarrow> ret = 0 \<and> dev_bytes d' (dv_pos ?d) n = slice (contents s) (cursor s) n)"
        by (rule raw_write_result [OF bs(1,2)]) (use assms n31 lbuf in auto)
      then obtain ret s1 buf1 d1 where w: "raw_write vt nand bs 0 s buf ?w P ?d = Some (ret, s1, buf1, d1)"
          "inv s1" "contents s1 = contents s" "length buf1 = length buf" "dev_same ?d d1" "dev_ok d1"
          "\<forall>i. i < P \<or> P + (n + ?b - 1) div ?b \<le> i \<longrightarrow> dv_block d1 i = dv_block d i"
          "ret = 0 \<longrightarrow> cursor s1 = cursor s + n"
          "range_sound d P n \<longrightarrow> ret = 0 \<and> dev_bytes d1 P n = slice (contents s) (cursor s) n"
        by auto
      have same1: "dev_same d d1" using dev_same_trans [OF dev_same_refl(2) w(5)] .
      show ?thesis
      proof (cases "ret = 0")
        case False
        have "raw_transfer vt malloc cfg nand bs 0 position ?w 0 s d = Some (ret, s1, d1)"
          using buf seek w(1) False by (simp add: unf)
        then show ?thesis using w(2,3,6,7,9) same1 False by blast
      next
        case ret: True
        let ?d1 = "d1\<lparr>dv_pos := P\<rparr>"
        have seek1: "dev_lseek d1 P = (int P, ?d1)"
          using True dev_sameD(2) [OF same1] by (simp add: dev_lseek_def)
        have cur: "cursor s1 = cursor s + n" using w(8) ret by simp
        obtain s2 where s2: "vt_Seek vt s1 (- int n) SEEK_CUR = Some (0, s2)" "inv s2" "contents s2 = contents s"
            "cursor s2 = cursor s"
          using seek_law [OF w(2), of SEEK_CUR "- int n" "cursor s"] cur fit(1) w(3)
          by (auto simp: seek_target_def)
        have un: "uint ?w = int n" using n31 by (simp add: uint_nat unat_of_nat_u32)
        have bsz: "dv_bsize d1 = ?b" using dev_sameD(1) [OF same1] bs(3) by simp
        have "\<exists>ret s' p. raw_verify vt nand bs 0 s2 buf1 buf ?w P ?d1 = Some (ret, s', ?d1\<lparr>dv_pos := p\<rparr>) \<and>
          inv s' \<and> contents s' = contents s2 \<and>
          (ret = 0 \<longrightarrow> cursor s' = cursor s2 + n \<and> dev_bytes ?d1 (dv_pos ?d1) n = slice (contents s2) (cursor s2) n) \<and>
          (range_sound ?d1 (dv_pos ?d1) n \<and> dev_bytes ?d1 (dv_pos ?d1) n = slice (contents s2) (cursor s2) n \<longrightarrow> ret = 0)"
          by (rule raw_verify_result [OF bs(1,2)]) (use s2 w(4,6) bsz fit(1) n31 lbuf in auto)
        then obtain ret2 s3 q where v: "raw_verify vt nand bs 0 s2 buf1 buf ?w P ?d1 = Some (ret2, s3, d1\<lparr>dv_pos := q\<rparr>)"
            "inv s3" "contents s3 = contents s"
            "ret2 = 0 \<longrightarrow> cursor s3 = cursor s + n \<and> dev_bytes d1 P n = slice (contents s) (cursor s) n"
            "range_sound d P n \<and> dev_bytes d1 P n = slice (contents s) (cursor s) n \<longrightarrow> ret2 = 0"
          using s2(3,4) dev_sameD(4) [OF same1] by auto
        let ?d3 = "d1\<lparr>dv_pos := q\<rparr>"
        have "raw_transfer vt malloc cfg nand bs 0 position ?w 0 s d = Some (ret2, s3, ?d3)"
          using buf seek w(1) ret seek1 s2(1) v(1) by (simp add: unf un)
        moreover have "dev_same d ?d3" using dev_same_trans [OF same1 dev_same_refl(2)] .
        moreover have "dev_ok ?d3" "dv_block ?d3 = dv_block d1" "dev_bytes ?d3 P n = dev_bytes d1 P n" using w(6) by simp_all
        ultimately show ?thesis using v(2-5) w(7,9)
          by (intro exI [of _ ret2] exI [of _ s3] exI [of _ ?d3] conjI) auto
      qed
    qed
  qed
qed

lemma raw_data_result:
  assumes "inv s" and at: "contents s = a @ le32_bytes position @ le32_bytes (word_of_nat (length data)) @ data @ rest"
      "cursor s = length a" "rest \<noteq> []" "data \<noteq> []"
    and size: "length (contents s) + 2 ^ j < 2 ^ 31"
    and disk: "disk \<in> {ITP_DISK_NAND, ITP_DISK_NOR, ITP_DISK_SD0, ITP_DISK_SD1}" "d = ud_dev disks disk"
    and dev: "dv_present d" "dv_has_bsize d" "dv_has_gap d" "dv_gap d = 0" "dv_bsize d = 2 ^ j" "j < 30" "dev_ok d"
    and alloc: "alloc_sized malloc" and cfg: "2 ^ j \<le> unat cfg" and P: "P = unat position div 2 ^ j"
  shows "\<exists>ret s' d'. ugUpgradeRawData vt malloc cfg mp s disk restore disks =
      Some (ret, s', disks\<lparr>ud_dev := (ud_dev disks)(disk := d')\<rparr>) \<and>
    inv s' \<and> contents s' = contents s \<and> dev_same d d' \<and> dev_ok d' \<and>
    (\<forall>i. i < P \<or> P + (length data + 2 ^ j - 1) div 2 ^ j \<le> i \<longrightarrow> dv_block d' i = dv_block d i) \<and>
    (ret = 0 \<longrightarrow> cursor s' = length (contents s) - length rest \<and> dev_bytes d' P (length data) = data) \<and>
    (range_sound d P (length data) \<and> (\<forall>n. malloc n \<noteq> None) \<longrightarrow> ret = 0)"
proof -
  let ?n = "length data"
  have len: "length (contents s) = length a + 8 + ?n + length rest" using at(1) by simp
  obtain s1 where s1: "vt_Read vt s (replicate 8 0) (int 8) =
        Some (int 8, slice (contents s) (cursor s) 8 @ drop 8 (replicate 8 0), s1)"
      "inv s1" "contents s1 = contents s" "cursor s1 = cursor s + 8"
    using read_exact [OF assms(1), of 8 "replicate 8 0"] len at(2) by auto
  have h: "slice (contents s) (cursor s) 8 = le32_bytes position @ le32_bytes (word_of_nat ?n)"
    unfolding at(1,2) by (simp add: slice_def)
  have n31: "?n < 2 ^ 31" "?n + 2 ^ j < 2 ^ 31" using len size by linarith+
  have n0: "(word_of_nat ?n :: u32) \<noteq> 0"
    using unat_of_nat_u32 [OF n31(1)] at(4) by (metis length_0_conv unsigned_0)
  have bs: "(word_of_nat (dv_bsize d) :: u32) = 2 ^ j" "(word_of_nat (dv_gap d) :: u32) = 0"
    using dev(4,5) by simp_all
  have bs0: "(2 :: u32) ^ j \<noteq> 0"
  proof -
    have p30: "(2::nat) ^ j < 2 ^ 30" using dev(6) by (intro power_strict_increasing) auto
    also have "(2::nat) ^ 30 < 2 ^ 31" by simp
    finally have "unat (word_of_nat (2 ^ j) :: u32) = 2 ^ j" by (rule unat_of_nat_u32)
    then have "unat ((2 :: u32) ^ j) = 2 ^ j" by simp
    then show ?thesis by (metis power_not_zero unsigned_0 zero_neq_numeral)
  qed
  have data: "slice (contents s1) (cursor s1) ?n = data" "cursor s1 + ?n = length (contents s) - length rest"
      "cursor s1 + ?n < length (contents s1)"
    unfolding s1(3,4) using at(2,3) len by (simp_all add: at(1) slice_def)
  have "\<exists>ret s' d'. raw_transfer vt malloc cfg (disk = ITP_DISK_NAND) (2 ^ j) 0 position (word_of_nat ?n) 0 s1 d = Some (ret, s', d') \<and>
    inv s' \<and> contents s' = contents s1 \<and> dev_same d d' \<and> dev_ok d' \<and>
    (\<forall>i. i < P \<or> P + (?n + 2 ^ j - 1) div 2 ^ j \<le> i \<longrightarrow> dv_block d' i = dv_block d i) \<and>
    (ret = 0 \<longrightarrow> cursor s' = cursor s1 + ?n \<and> dev_bytes d' P ?n = slice (contents s1) (cursor s1) ?n) \<and>
    (range_sound d P ?n \<and> (\<forall>n. malloc n \<noteq> None) \<longrightarrow> ret = 0)"
    by (rule raw_transfer_result [OF refl dev(6,5,7) s1(2) data(3) _ n31(2) alloc cfg P]) (use at(4) in simp)
  from this [unfolded data] obtain ret s' d' where
      t: "raw_transfer vt malloc cfg (disk = ITP_DISK_NAND) (2 ^ j) 0 position (word_of_nat ?n) 0 s1 d = Some (ret, s', d')"
      "inv s'" "contents s' = contents s1" "dev_same d d'" "dev_ok d'"
      "\<forall>i. i < P \<or> P + (?n + 2 ^ j - 1) div 2 ^ j \<le> i \<longrightarrow> dv_block d' i = dv_block d i"
      "ret = 0 \<longrightarrow> cursor s' = length (contents s) - length rest \<and> dev_bytes d' P ?n = data"
      "range_sound d P ?n \<and> (\<forall>n. malloc n \<noteq> None) \<longrightarrow> ret = 0"
    by (elim exE conjE) (rule that)
  have "ugUpgradeRawData vt malloc cfg mp s disk restore disks =
      Some (ret, s', disks\<lparr>ud_dev := (ud_dev disks)(disk := d')\<rparr>)"
    using s1(1) n0 disk(1) dev(1-3) bs bs0 t(1)
    by (simp add: ugUpgradeRawData_def h le32_append Let_def disk(2) [symmetric])
  then show ?thesis using t(2-8) s1(3) by (intro exI [of _ ret] exI [of _ s'] exI [of _ d'] conjI) simp_all
qed

end

section \<open>Properties of the raw data block\<close>

text \<open>
  C13. A raw data block is written to its place and verified. On a device without gaps whose
  block size is a power of two, also on a faulty one, \<open>ugUpgradeRawData\<close> ends without
  undefined behaviour and touches only the blocks of the target range of this device; when it
  returns 0 the device holds exactly the bytes of the package from the block that contains the
  position, and the stream is behind the block. When the blocks are sound and there is memory it
  returns 0.
\<close>

theorem raw_block_verified:
  assumes "array_inv s" and "as_array s = a @ le32_bytes position @ le32_bytes (word_of_nat (length data)) @ data @ rest"
      "array_cursor s = length a" "rest \<noteq> []" "data \<noteq> []"
    and "length (as_array s) + 2 ^ j < 2 ^ 31"
    and "disk \<in> {ITP_DISK_NAND, ITP_DISK_NOR, ITP_DISK_SD0, ITP_DISK_SD1}" "d = ud_dev disks disk"
    and "dv_present d" "dv_has_bsize d" "dv_has_gap d" "dv_gap d = 0" "dv_bsize d = 2 ^ j" "j < 30" "dev_ok d"
    and "alloc_sized malloc" and "2 ^ j \<le> unat cfg" and "P = unat position div 2 ^ j"
  shows "\<exists>ret s' d'. ugUpgradeRawData array_stream_vt malloc cfg mp s disk restore disks =
      Some (ret, s', disks\<lparr>ud_dev := (ud_dev disks)(disk := d')\<rparr>) \<and>
    array_inv s' \<and> as_array s' = as_array s \<and> dev_same d d' \<and> dev_ok d' \<and>
    (\<forall>i. i < P \<or> P + (length data + 2 ^ j - 1) div 2 ^ j \<le> i \<longrightarrow> dv_block d' i = dv_block d i) \<and>
    (ret = 0 \<longrightarrow> array_cursor s' = length (as_array s) - length rest \<and> dev_bytes d' P (length data) = data) \<and>
    (range_sound d P (length data) \<and> (\<forall>n. malloc n \<noteq> None) \<longrightarrow> ret = 0)"
  by (rule array_src.raw_data_result [OF assms])

definition demo_disks :: ug_disks where
  "demo_disks = \<lparr>ud_dev = (\<lambda>_. demo_dev\<lparr>dv_bsize := 4, dv_block := (\<lambda>_. [0, 0, 0, 0])\<rparr>), ud_boot = 0, ud_mark = demo_mark\<rparr>"

theorem raw_block_verified_witness:
  "\<exists>s' disks'. ugUpgradeRawData array_stream_vt (\<lambda>n. Some (replicate n 0)) 16 30
      \<lparr>st_eof = False, st_size = 15, as_array = le32_bytes 9 @ le32_bytes 5 @ [1, 2, 3, 4, 5] @ [9, 9], as_pos = 0\<rparr>
      ITP_DISK_NOR False demo_disks = Some (0, s', disks') \<and>
    dev_bytes (ud_dev disks' ITP_DISK_NOR) 2 (length [1, 2, 3, 4, 5::u8]) = [1, 2, 3, 4, 5]"
proof -
  let ?s = "\<lparr>st_eof = False, st_size = 15, as_array = le32_bytes 9 @ le32_bytes 5 @ [1, 2, 3, 4, 5] @ [9, 9], as_pos = 0\<rparr> :: array_stream"
  let ?d = "demo_dev\<lparr>dv_bsize := 4, dv_block := (\<lambda>_. [0, 0, 0, 0])\<rparr>"
  have "array_inv ?s" by (simp add: array_inv_def)
  from raw_block_verified [OF this, of "[]" 9 "[1, 2, 3, 4, 5]" "[9, 9]" 2 ITP_DISK_NOR ?d demo_disks
      "\<lambda>n. Some (replicate n 0)" 16 2 30 False]
  show ?thesis
    by (auto simp: array_cursor_def alloc_sized_def demo_disks_def demo_dev_def dev_ok_def range_sound_def block_sound_def)
qed

end
