(* ===== verification/Dirent.thy ===== *)
theory Dirent
  imports Stdio "HOL-Library.Sublist"
begin

text \<open>
  The directories of the file system: \<open>mkdir\<close>, \<open>remove\<close>, \<open>rmdir\<close>,
  \<open>access\<close> and the walk over the entries of a directory (\<open>opendir\<close>,
  \<open>readdir\<close>, \<open>closedir\<close>). Which entries \<open>readdir\<close> delivers, and in which
  order, is the environment's: \<open>de_readdir\<close> gives the names, each with whether it is a directory,
  from the state in which the directory is opened, \<open>None\<close> when it cannot be opened. A path that does not fit
  a buffer of \<open>PATH_MAX\<close> bytes is undefined behaviour. Paths are compared as they are
  written: \<open>.\<close> and \<open>..\<close> inside a path are not resolved.
\<close>

record dir_env =
  de_readdir :: "fsys \<Rightarrow> path \<Rightarrow> (bytes \<times> bool) list option"
  de_path_max :: nat
  de_malloc :: "nat \<Rightarrow> bytes option"
  de_bufsize :: u32
  de_statvfs :: "path \<Rightarrow> u64 option"

definition path_join :: "path \<Rightarrow> bytes \<Rightarrow> path" where
  "path_join d n = d @ 47 # n"

definition path_buf :: "dir_env \<Rightarrow> path \<Rightarrow> path option" where
  "path_buf env p = (if length p < de_path_max env then Some p else None)"

definition dot_entry :: "bytes \<Rightarrow> bool" where
  "dot_entry n \<longleftrightarrow> n = [46] \<or> n = [46, 46]"

definition present :: "fsys \<Rightarrow> path \<Rightarrow> bool" where
  "present fs p \<longleftrightarrow> fs_dirs fs p \<or> fs_files fs p \<noteq> None"

definition mkdir :: "fsys \<Rightarrow> path \<Rightarrow> int \<times> fsys" where
  "mkdir fs p = (if fs_creat fs p \<and> \<not> fs_dirs fs p \<and> fs_files fs p = None
     then (0, fs\<lparr>fs_dirs := (fs_dirs fs)(p := True)\<rparr>) else (-1, fs))"

definition access :: "fsys \<Rightarrow> path \<Rightarrow> int" where
  "access fs p = (if present fs p \<and> fs_creat fs p then 0 else -1)"

definition remove :: "fsys \<Rightarrow> path \<Rightarrow> int \<times> fsys" where
  "remove fs p = (if fs_files fs p \<noteq> None \<and> fs_creat fs p
     then (0, fs\<lparr>fs_files := (fs_files fs)(p := None), fs_room := fs_room fs + length (file_bytes fs p)\<rparr>)
     else (-1, fs))"

definition rmdir :: "dir_env \<Rightarrow> fsys \<Rightarrow> path \<Rightarrow> int \<times> fsys" where
  "rmdir env fs p = (case de_readdir env fs p of
       None \<Rightarrow> (-1, fs)
     | Some ents \<Rightarrow>
         if fs_dirs fs p \<and> fs_creat fs p \<and> list_all (dot_entry \<circ> fst) ents
         then (0, fs\<lparr>fs_dirs := (fs_dirs fs)(p := False)\<rparr>) else (-1, fs))"

text \<open>The loop over the entries; the rule lets its body call the function being defined.\<close>

primrec walk :: "('e \<Rightarrow> 's \<Rightarrow> 's option) \<Rightarrow> 'e list \<Rightarrow> 's \<Rightarrow> 's option" where
  "walk f [] s = Some s"
| "walk f (e # es) s = do { s \<leftarrow> f e s; walk f es s }"

lemma walk_mono [partial_function_mono]:
  assumes "\<And>e s. monotone (fun_ord option_ord) option_ord (\<lambda>g. B g e s)"
  shows "monotone (fun_ord option_ord) option_ord (\<lambda>g. walk (B g) es s)"
proof (induction es arbitrary: s)
  case Nil
  then show ?case by (simp add: option.const_mono)
next
  case (Cons e es)
  then show ?case by (simp add: bind_mono assms)
qed

lemma walk_append: "walk f (es @ es') s = do { s \<leftarrow> walk f es s; walk f es' s }"
  by (induction es arbitrary: s) (simp_all add: Option.bind_assoc)

lemma walk_done:
  assumes "I [] s"
    and "\<And>xs e ys s. es = xs @ e # ys \<Longrightarrow> I xs s \<Longrightarrow> \<exists>s'. f e s = Some s' \<and> I (xs @ [e]) s'"
  shows "\<exists>s'. walk f es s = Some s' \<and> I es s'"
proof -
  have "\<exists>s'. walk f xs s = Some s' \<and> I xs s'" if "es = xs @ ys" for xs ys
    using that
  proof (induction xs arbitrary: ys rule: rev_induct)
    case Nil
    then show ?case using assms(1) by simp
  next
    case (snoc e xs)
    then obtain s1 where "walk f xs s = Some s1" "I xs s1" by fastforce
    with snoc.prems assms(2) [of xs e ys s1] show ?case by (auto simp: walk_append)
  qed
  then show ?thesis by simp
qed

end
