(* ===== verification/UG_Partition.thy ===== *)
theory UG_Partition
  imports UG_Crc UG_Copy Dirent
begin

text \<open>
  Devices, partitions and the small blocks of a package (\<open>ug_device.c\<close>,
  \<open>ug_partition.c\<close>, \<open>ug_unformatted.c\<close>, \<open>ug_end.c\<close> and
  \<open>ugUpgradeDirectory\<close> of \<open>ug_directory.c\<close> in \<open>sdk/share/upgrade\<close>).

  The FAT driver wraps a third-party library and is a parameter: the record \<open>fat_ops\<close> has the
  \<open>ioctl\<close> calls the code makes, on the file system as their state. The 80 bytes of the array
  \<open>size\<close> of \<open>UGDevice\<close> are kept as bytes, as the package is read straight into them.
  Log messages are not modelled; in builds that print them \<open>ugUpgradeDevice\<close> indexes the
  table of device names with the type before it checks it.
\<close>

abbreviation (input) ITP_MAX_DRIVE :: nat where "ITP_MAX_DRIVE \<equiv> 26"
abbreviation (input) ITP_MAX_PARTITION :: nat where "ITP_MAX_PARTITION \<equiv> 10"

record UGDevice =
  device_type :: u32
  unformatted_size :: u32
  partition_count :: u32
  ugd_disk :: int
  size_bytes :: bytes
  ugd_partition :: bool
  ugd_nopartition :: bool
  ugd_restore :: bool

text \<open>\<open>device->size[i]\<close>; an index behind the array is undefined.\<close>

definition device_size :: "UGDevice \<Rightarrow> nat \<Rightarrow> u64 option" where
  "device_size dev i =
     (if i < ITP_MAX_PARTITION then Some (le64 (slice (size_bytes dev) (8 * i) 8)) else None)"

text \<open>The disk of a device type, in the order NAND, NOR, SD0, SD1.\<close>

definition type_disk :: "u32 \<Rightarrow> int option" where
  "type_disk t = (if t = 0 then Some 5 else if t = 1 then Some 6 else if t = 2 then Some 0
     else if t = 3 then Some 1 else None)"

section \<open>The device block\<close>

definition ugUpgradeDevice :: "'s itc_vt \<Rightarrow> 's \<Rightarrow> UGDevice \<Rightarrow> (int \<times> 's \<times> UGDevice) option" where
  "ugUpgradeDevice vt f device = do {
     (r, dev, f) \<leftarrow> vt_Read vt f (replicate 12 0) 12;
     if (word_of_int r :: u32) \<noteq> 12 then Some (44, f, device)
     else do {
       let device = device\<lparr>device_type := le32 dev, unformatted_size := le32 (drop 4 dev),
                           partition_count := le32 (drop 8 dev)\<rparr>;
       let n = 8 * partition_count device;
       (r, sizes, f) \<leftarrow> vt_Read vt f (size_bytes device) (sint n);
       let device = device\<lparr>size_bytes := sizes\<rparr>;
       if word_of_int r \<noteq> n then Some (62, f, device)
       else if sint (partition_count device) > int ITP_MAX_PARTITION then None
       else
         case type_disk (device_type device) of
           Some disk \<Rightarrow> Some (0, f, device\<lparr>ugd_disk := disk\<rparr>)
         | None \<Rightarrow> Some (95, f, device)
     }
   }"

section \<open>The blocks without effect\<close>

definition ugUpgradeUnformatted :: "'s itc_vt \<Rightarrow> 's \<Rightarrow> (int \<times> 's) option" where
  "ugUpgradeUnformatted vt f = do {
     (r, fmt, f) \<leftarrow> vt_Read vt f (replicate 4 0) 4;
     Some (if (word_of_int r :: u32) \<noteq> 4 then 24 else 0, f)
   }"

definition ugUpgradeEnd :: "'s itc_vt \<Rightarrow> 's \<Rightarrow> (int \<times> 's) option" where
  "ugUpgradeEnd vt f = do {
     (r, end_crc, f) \<leftarrow> vt_Read vt f (replicate 4 0) 4;
     Some (if (word_of_int r :: u32) \<noteq> 4 then 22 else 0, f)
   }"

section \<open>The directory block\<close>

text \<open>A slash at the end of the name is cut off.\<close>

definition trim_slash :: "bytes \<Rightarrow> bytes option" where
  "trim_slash buf = do {
     s \<leftarrow> str_at buf 0;
     if s = [] then None else Some (if last s = 47 then butlast s else s)
   }"

definition ugUpgradeDirectory :: "'s itc_vt \<Rightarrow> bytes \<Rightarrow> fsys \<Rightarrow> 's \<Rightarrow> path \<Rightarrow> (int \<times> 's \<times> fsys) option" where
  "ugUpgradeDirectory vt stack fs f drive = do {
     (r, dir, f) \<leftarrow> vt_Read vt f (replicate 4 0) 4;
     if (word_of_int r :: u32) \<noteq> 4 then Some (25, f, fs)
     else do {
       let dirname_size = le32 dir;
       buf \<leftarrow> memcpy stack 0 (drive @ [0]) 0 (int (length drive + 1));
       (r, rest, f) \<leftarrow> vt_Read vt f (drop 2 buf) (sint dirname_size);
       let buf = take 2 buf @ rest;
       if word_of_int r \<noteq> dirname_size then Some (38, f, fs)
       else if \<not> fs_dirs fs drive then Some (47, f, fs)
       else do {
         name \<leftarrow> trim_slash buf;
         let (ret, fs) = mkdir fs name;
         Some (0, f, fs)
       }
     }
   }"

section \<open>The partition block\<close>

record drive_status =
  ds_disk :: int
  ds_avail :: bool
  ds_name :: path

record ITPPartition =
  par_disk :: int
  par_count :: int
  par_size :: "u64 list"
  par_start :: "u64 list"
  par_exbr_start :: u64

record fat_ops =
  fat_get_table :: "fsys \<Rightarrow> drive_status list"
  fat_format :: "fsys \<Rightarrow> nat \<Rightarrow> int \<times> fsys"
  fat_get_partition :: "fsys \<Rightarrow> ITPPartition \<Rightarrow> int \<times> ITPPartition"
  fat_unmount :: "fsys \<Rightarrow> int \<Rightarrow> int \<times> fsys"
  fat_create_partition :: "fsys \<Rightarrow> ITPPartition \<Rightarrow> int \<times> ITPPartition \<times> fsys"
  fat_force_mount :: "fsys \<Rightarrow> int \<Rightarrow> int \<times> fsys"
  fat_nor_read :: "fsys \<Rightarrow> u32 \<Rightarrow> nat \<Rightarrow> bytes option"

text \<open>
  The search for the \<open>part\<close>-th available drive of a disk from table index \<open>i\<close> on;
  \<open>j\<close> counts the drives of the disk passed.
\<close>

function find_drive :: "drive_status list \<Rightarrow> int \<Rightarrow> int \<Rightarrow> nat \<Rightarrow> int \<Rightarrow> (nat \<times> path) option" where
  "find_drive table disk part i j =
     (if ITP_MAX_DRIVE \<le> i then None
      else if ds_disk (table ! i) = disk \<and> ds_avail (table ! i) then
        (if j = part then Some (i, ds_name (table ! i))
         else find_drive table disk part (i + 1) (j + 1))
      else find_drive table disk part (i + 1) j)"
  by pat_completeness auto
termination by (relation "measure (\<lambda>(_, _, _, i, _). ITP_MAX_DRIVE - i)") auto

declare find_drive.simps [simp del]

text \<open>The result has the name written to \<open>drive\<close>, if any.\<close>

definition ugUpgradePartition ::
    "'s itc_vt \<Rightarrow> fat_ops \<Rightarrow> fsys \<Rightarrow> 's \<Rightarrow> int \<Rightarrow> int \<Rightarrow> path option \<Rightarrow> bool \<Rightarrow>
     (int \<times> 's \<times> path option \<times> fsys) option" where
  "ugUpgradePartition vt fat fs f disk part drive format = do {
     (r, par, f) \<leftarrow> vt_Read vt f (replicate 8 0) 8;
     if (word_of_int r :: u32) \<noteq> 8 then Some (76, f, drive, fs)
     else
       let partition_size = le64 par; table = fat_get_table fat fs in
       if length table \<noteq> ITP_MAX_DRIVE then None
       else
         case find_drive table disk part 0 0 of
           None \<Rightarrow> Some (124, f, drive, fs)
         | Some (i, name) \<Rightarrow>
             let fs = (if format \<and> 0 < partition_size then snd (fat_format fat fs i) else fs) in
             Some (0, f, Some name, fs)
   }"

section \<open>Partitioning\<close>

text \<open>Is there a partition whose size is given and differs?\<close>

definition size_differs :: "UGDevice \<Rightarrow> ITPPartition \<Rightarrow> bool option" where
  "size_differs device par =
     (let n = nat (sint (partition_count device)) in
      if ITP_MAX_PARTITION < n then None
      else Some (\<exists>i \<in> set [0..<n]. device_size device i \<noteq> Some 0 \<and> device_size device i \<noteq> Some (par_size par ! i)))"

text \<open>The new layout: partition after partition from the unformatted space on.\<close>

fun layout :: "UGDevice \<Rightarrow> nat \<Rightarrow> nat \<Rightarrow> u64 \<Rightarrow> ITPPartition \<Rightarrow> ITPPartition option" where
  "layout device i 0 inc par = Some par"
| "layout device i (Suc n) inc par = do {
     sz \<leftarrow> device_size device i;
     layout device (i + 1) n (inc + sz)
       (par\<lparr>par_start := (par_start par)[i := inc], par_size := (par_size par)[i := sz]\<rparr>)
   }"

text \<open>Formatting every drive of the disk.\<close>

function format_drives :: "fat_ops \<Rightarrow> drive_status list \<Rightarrow> int \<Rightarrow> nat \<Rightarrow> fsys \<Rightarrow> int \<times> fsys" where
  "format_drives fat table disk i fs =
     (if ITP_MAX_DRIVE \<le> i then (0, fs)
      else if ds_disk (table ! i) = disk \<and> ds_avail (table ! i) then
        let (ret, fs) = fat_format fat fs i in
        if ret \<noteq> 0 then (ret, fs) else format_drives fat table disk (i + 1) fs
      else format_drives fat table disk (i + 1) fs)"
  by pat_completeness auto
termination by (relation "measure (\<lambda>(_, _, _, i, _). ITP_MAX_DRIVE - i)") auto

declare format_drives.simps [simp del]

text \<open>The copy of the extended boot record of a NOR device with more than three partitions.\<close>

definition le64_bytes :: "u64 \<Rightarrow> bytes" where
  "le64_bytes w = map (\<lambda>i. ucast (drop_bit (8 * i) w)) [0..<8]"

definition exbr_path :: path where
  "exbr_path = map of_char ''B:/fat_exbr_recovery''"

definition save_exbr :: "fat_ops \<Rightarrow> ITPPartition \<Rightarrow> fsys \<Rightarrow> fsys" where
  "save_exbr fat par fs =
     (case fat_nor_read fat fs (ucast (par_exbr_start par)) 512 of
        None \<Rightarrow> fs
      | Some record_bytes \<Rightarrow>
          (case fopen fs exbr_path True of
             (None, fs) \<Rightarrow> fs
           | (Some f, fs) \<Rightarrow>
               (case fwrite fs f (le64_bytes (par_exbr_start par) @ record_bytes) 520 of
                  None \<Rightarrow> fs | Some (_, _, fs) \<Rightarrow> fs)))"

definition repartition :: "fat_ops \<Rightarrow> UGDevice \<Rightarrow> ITPPartition \<Rightarrow> fsys \<Rightarrow> (int \<times> fsys) option" where
  "repartition fat device par fs = do {
     let n = partition_count device;
     par \<leftarrow> layout device 0 (nat (sint n)) (ucast (unformatted_size device)) (par\<lparr>par_count := sint n\<rparr>);
     let (_, fs) = fat_unmount fat fs (par_disk par);
     let (ret, par, fs) = fat_create_partition fat fs par;
     if ret \<noteq> 0 then Some (ret, fs)
     else
       let (ret, fs) = fat_force_mount fat fs (par_disk par) in
       if ret \<noteq> 0 then Some (ret, fs)
       else
         let table = fat_get_table fat fs in
         if length table \<noteq> ITP_MAX_DRIVE then None
         else
           let (ret, fs) = format_drives fat table (par_disk par) 0 fs in
           if ret \<noteq> 0 then Some (ret, fs)
           else Some (0, if par_disk par = 6 \<and> 3 < par_count par then save_exbr fat par fs else fs)
   }"

definition ugUpgradeDoPartition :: "fat_ops \<Rightarrow> UGDevice \<Rightarrow> fsys \<Rightarrow> (int \<times> fsys) option" where
  "ugUpgradeDoPartition fat device fs =
     (case type_disk (device_type device) of
        None \<Rightarrow> Some (161, fs)
      | Some disk \<Rightarrow>
          let par = \<lparr>par_disk = disk, par_count = 0, par_size = replicate ITP_MAX_PARTITION 0,
                     par_start = replicate ITP_MAX_PARTITION 0, par_exbr_start = 0\<rparr> in
          if partition_count device = 0 then Some (0, fs)
          else if ugd_partition device then repartition fat device par fs
          else if ugd_nopartition device then Some (0, fs)
          else
            let (ret, par) = fat_get_partition fat fs par in
            if ret \<noteq> 0 then repartition fat device par fs
            else if word_of_int (par_count par) \<noteq> partition_count device then repartition fat device par fs
            else do {
              differs \<leftarrow> size_differs device par;
              if differs then repartition fat device par fs else Some (0, fs)
            })"

section \<open>The search for a drive\<close>

text \<open>The table indices of the available drives of a disk.\<close>

definition disk_drives :: "drive_status list \<Rightarrow> int \<Rightarrow> nat list" where
  "disk_drives table disk =
     filter (\<lambda>i. ds_disk (table ! i) = disk \<and> ds_avail (table ! i)) [0..<ITP_MAX_DRIVE]"

lemma find_drive_from:
  "i \<le> ITP_MAX_DRIVE \<Longrightarrow> find_drive table disk (j + int k) i j =
     (let ds = filter (\<lambda>i. ds_disk (table ! i) = disk \<and> ds_avail (table ! i)) [i..<ITP_MAX_DRIVE] in
      if k < length ds then Some (ds ! k, ds_name (table ! (ds ! k))) else None)"
proof (induction "ITP_MAX_DRIVE - i" arbitrary: i j k)
  case 0
  then show ?case by (subst find_drive.simps) simp
next
  case (Suc n)
  then have i: "i < ITP_MAX_DRIVE" and n: "n = ITP_MAX_DRIVE - (i + 1)" "i + 1 \<le> ITP_MAX_DRIVE" by simp_all
  have upt: "[i..<ITP_MAX_DRIVE] = i # [i + 1..<ITP_MAX_DRIVE]" using i by (simp add: upt_conv_Cons)
  show ?case
  proof (cases "ds_disk (table ! i) = disk \<and> ds_avail (table ! i)")
    case False
    then show ?thesis
      using i Suc.hyps(1) [OF n, of j k] by (subst find_drive.simps) (auto simp: upt simp del: upt_rec_numeral)
  next
    case True
    show ?thesis
    proof (cases k)
      case 0
      with True i show ?thesis by (subst find_drive.simps) (simp add: upt del: upt_rec_numeral)
    next
      case (Suc k')
      have "find_drive table disk (j + int k) i j = find_drive table disk ((j + 1) + int k') (i + 1) (j + 1)"
        using True i Suc by (subst find_drive.simps) (simp add: algebra_simps)
      then show ?thesis
        using True Suc.hyps(1) [OF n, of "j + 1" k'] Suc by (simp add: upt Let_def del: upt_rec_numeral)
    qed
  qed
qed

section \<open>The layout\<close>

text \<open>The sum of the sizes of \<open>k\<close> partitions from number \<open>i\<close> on, as the code adds them.\<close>

definition sizes_from :: "UGDevice \<Rightarrow> nat \<Rightarrow> nat \<Rightarrow> u64" where
  "sizes_from device i k = sum_list (map (\<lambda>j. the (device_size device j)) [i..<i + k])"

lemma sizes_from_simps:
  "sizes_from device i 0 = 0"
  "sizes_from device i (Suc k) = the (device_size device i) + sizes_from device (i + 1) k"
  by (simp_all add: sizes_from_def upt_conv_Cons del: upt_Suc)

lemma layout_from:
  assumes "layout device i n inc par = Some par'" "length (par_start par) = ITP_MAX_PARTITION"
      "length (par_size par) = ITP_MAX_PARTITION"
  shows "length (par_start par') = ITP_MAX_PARTITION \<and> length (par_size par') = ITP_MAX_PARTITION \<and>
    (\<forall>k < n. i + k < ITP_MAX_PARTITION \<and> par_start par' ! (i + k) = inc + sizes_from device i k \<and>
       Some (par_size par' ! (i + k)) = device_size device (i + k)) \<and>
    (\<forall>k < i. par_start par' ! k = par_start par ! k \<and> par_size par' ! k = par_size par ! k) \<and>
    par_disk par' = par_disk par \<and> par_count par' = par_count par"
  using assms
proof (induction n arbitrary: i inc par)
  case (Suc n)
  obtain sz where sz: "device_size device i = Some sz"
    using Suc.prems(1) by (cases "device_size device i") simp_all
  have i: "i < ITP_MAX_PARTITION" using sz by (simp add: device_size_def split: if_splits)
  let ?par = "par\<lparr>par_start := (par_start par)[i := inc], par_size := (par_size par)[i := sz]\<rparr>"
  have "layout device (i + 1) n (inc + sz) ?par = Some par'" using Suc.prems(1) sz by simp
  from Suc.IH [OF this] Suc.prems(2,3) have ih:
      "length (par_start par') = ITP_MAX_PARTITION" "length (par_size par') = ITP_MAX_PARTITION"
      "\<And>k. k < n \<Longrightarrow> i + 1 + k < ITP_MAX_PARTITION \<and> par_start par' ! (i + 1 + k) = inc + sz + sizes_from device (i + 1) k \<and>
         Some (par_size par' ! (i + 1 + k)) = device_size device (i + 1 + k)"
      "\<And>k. k < i + 1 \<Longrightarrow> par_start par' ! k = par_start ?par ! k \<and> par_size par' ! k = par_size ?par ! k"
      "par_disk par' = par_disk par" "par_count par' = par_count par"
    by auto
  have new: "i + k < ITP_MAX_PARTITION \<and> par_start par' ! (i + k) = inc + sizes_from device i k \<and>
       Some (par_size par' ! (i + k)) = device_size device (i + k)" if "k < Suc n" for k
  proof (cases k)
    case 0
    then show ?thesis using ih(4) [of i] sz i Suc.prems(2,3) by (simp add: sizes_from_simps)
  next
    case (Suc k')
    then show ?thesis using ih(3) [of k'] that sz by (simp add: sizes_from_simps algebra_simps)
  qed
  have old: "par_start par' ! k = par_start par ! k \<and> par_size par' ! k = par_size par ! k" if "k < i" for k
    using ih(4) [of k] that by simp
  show ?case using ih(1,2,5,6) new old by blast
qed simp

text \<open>Up to ten partitions there is a layout.\<close>

lemma layout_some: "i + n \<le> ITP_MAX_PARTITION \<Longrightarrow> \<exists>par'. layout device i n inc par = Some par'"
  by (induction n arbitrary: i inc par) (simp_all add: device_size_def)

text \<open>The sum of sizes as a number, when it fits.\<close>

lemma unat_sizes_from:
  "(\<Sum>j = i..<i + k. unat (the (device_size device j))) < 2 ^ 64 \<Longrightarrow>
   unat (sizes_from device i k) = (\<Sum>j = i..<i + k. unat (the (device_size device j)))"
proof (induction k arbitrary: i)
  case (Suc k)
  let ?f = "\<lambda>j. unat (the (device_size device j))"
  have split: "sum ?f {i..<i + Suc k} = ?f i + sum ?f {i + 1..<i + 1 + k}"
    by (simp add: sum.atLeast_Suc_lessThan)
  then have "sum ?f {i + 1..<i + 1 + k} < 2 ^ 64" using Suc.prems by linarith
  note ih = Suc.IH [OF this]
  have "unat (the (device_size device i) + sizes_from device (i + 1) k) = ?f i + sum ?f {i + 1..<i + 1 + k}"
    using Suc.prems unfolding split ih [symmetric] by (subst unat_plus_simple [THEN iffD1]) (simp_all add: word_le_nat_alt unat_word_ariths)
  then show ?case unfolding split by (simp add: sizes_from_simps)
qed (simp add: sizes_from_simps)

section \<open>Properties of partitioning\<close>

text \<open>
  The partitions of a new layout lie side by side. For up to ten partitions whose sizes sum up to
  less than the range of 64 bits, \<open>layout\<close> succeeds, partition k starts at the
  unformatted size plus the sizes of its predecessors, has the size the device asks for, and ends
  where or before every later one starts.
\<close>

theorem partition_layout_contiguous:
  assumes "n \<le> ITP_MAX_PARTITION" "length (par_start par) = ITP_MAX_PARTITION"
      "length (par_size par) = ITP_MAX_PARTITION"
    and "unat inc + (\<Sum>j = 0..<n. unat (the (device_size device j))) < 2 ^ 64"
  shows "\<exists>par'. layout device 0 n inc par = Some par' \<and>
    (\<forall>k < n. unat (par_start par' ! k) = unat inc + (\<Sum>j = 0..<k. unat (the (device_size device j))) \<and>
       Some (par_size par' ! k) = device_size device k) \<and>
    (\<forall>k < n. \<forall>l < n. k < l \<longrightarrow> unat (par_start par' ! k) + unat (par_size par' ! k) \<le> unat (par_start par' ! l))"
proof -
  let ?f = "\<lambda>j. unat (the (device_size device j))"
  obtain par' where par': "layout device 0 n inc par = Some par'"
    using layout_some [of 0 n device inc par] assms(1) by auto
  note lay = layout_from [OF par' assms(2,3)]
  have start: "unat (par_start par' ! k) = unat inc + sum ?f {0..<k}" if "k \<le> n" "k < n" for k
  proof -
    have "sum ?f {0..<k} \<le> sum ?f {0..<n}" by (rule sum_mono2) (use that in auto)
    then have fit: "unat inc + sum ?f {0..<0 + k} < 2 ^ 64" using assms(4) by simp
    have "unat (sizes_from device 0 k) = sum ?f {0..<k}" using unat_sizes_from [of device 0 k] fit by simp
    moreover have "par_start par' ! k = inc + sizes_from device 0 k" using lay that by auto
    ultimately show ?thesis using fit by (simp add: unat_word_ariths)
  qed
  have size: "Some (par_size par' ! k) = device_size device k" if "k < n" for k using lay that by auto
  have apart: "unat (par_start par' ! k) + unat (par_size par' ! k) \<le> unat (par_start par' ! l)"
    if "k < l" "l < n" for k l
  proof -
    have "?f k = unat (par_size par' ! k)" using size [of k] that by (metis option.sel order_less_trans)
    moreover have "sum ?f {0..<Suc k} \<le> sum ?f {0..<l}" by (rule sum_mono2) (use that in auto)
    ultimately show ?thesis using start [of k] start [of l] that by simp
  qed
  show ?thesis using par' start size apart by auto
qed

text \<open>The array \<open>size\<close> of a device.\<close>

definition sizes_bytes :: "u64 list \<Rightarrow> bytes" where
  "sizes_bytes szs = concat (map le64_bytes szs)"

theorem partition_layout_contiguous_witness:
  "\<exists>par'. layout \<lparr>device_type = 1, unformatted_size = 16, partition_count = 2, ugd_disk = 6,
      size_bytes = sizes_bytes [32, 64] @ replicate 64 0, ugd_partition = False, ugd_nopartition = False,
      ugd_restore = False\<rparr> 0 2 16 \<lparr>par_disk = 6, par_count = 2, par_size = replicate 10 0,
      par_start = replicate 10 0, par_exbr_start = 0\<rparr> = Some par' \<and>
    unat (par_start par' ! 1) = 48 \<and> unat (par_start par' ! 0) + unat (par_size par' ! 0) \<le> unat (par_start par' ! 1)"
proof -
  let ?dev = "\<lparr>device_type = 1, unformatted_size = 16, partition_count = 2, ugd_disk = 6,
      size_bytes = sizes_bytes [32, 64] @ replicate 64 0, ugd_partition = False, ugd_nopartition = False,
      ugd_restore = False\<rparr> :: UGDevice"
  have szs: "device_size ?dev 0 = Some 32" "device_size ?dev 1 = Some 64"
    by (simp_all add: device_size_def sizes_bytes_def le64_bytes_def upt_rec slice_def le64_def)
  have sum2: "(\<Sum>j = 0..<2. unat (the (device_size ?dev j))) = 96"
  proof -
    have two: "{0..<2::nat} = {0, 1}" by auto
    show ?thesis unfolding two using szs by simp
  qed
  from partition_layout_contiguous [of 2 "\<lparr>par_disk = 6, par_count = 2, par_size = replicate 10 0,
      par_start = replicate 10 0, par_exbr_start = 0\<rparr>" 16 ?dev, unfolded sum2]
  show ?thesis using szs by (auto simp: less_2_cases_iff)
qed

text \<open>
  \<open>ugUpgradePartition\<close> takes the right drive: its search is equivalent to listing the
  available drives of the disk in the order of the table and taking the one with the number of
  the partition, if there are that many.
\<close>

theorem find_drive_nth:
  "find_drive table disk (int k) 0 0 =
     (if k < length (disk_drives table disk)
      then Some (disk_drives table disk ! k, ds_name (table ! (disk_drives table disk ! k))) else None)"
  using find_drive_from [of 0 table disk 0 k] by (simp add: disk_drives_def Let_def del: upt_rec_numeral)

end
