(* ===== verification/UG_Package.thy ===== *)
theory UG_Package
  imports UG_File UG_RawData UG_Partition
begin

text \<open>
  Upgrading from a package (\<open>sdk/share/upgrade/ug_package.c\<close>): a header of 24 bytes, then
  blocks, each with a tag, up to the end block. The state has the file system, the devices with the
  mark, the static \<open>ugDevice\<close> and the progress. What the library takes from outside is the
  record \<open>ug_env\<close>.

  The code declares \<open>partition\<close> and \<open>drive\<close> inside the body of its loop and relies on them
  keeping their values from one iteration to the next, which the language does not promise. The
  model gives them the values the code relies on; a value that was never set is undefined.
\<close>

record ug_env =
  env_malloc :: "nat \<Rightarrow> bytes option"
  env_buf_size :: u32
  env_key :: u32
  env_mark_pos :: nat
  env_statvfs :: "path \<Rightarrow> u64 option"
  env_stack :: bytes
  env_fat :: fat_ops

record ug_state =
  ug_fs :: fsys
  ug_disks :: ug_disks
  ugDevice :: UGDevice
  ugProgressPercentage :: int

definition FLAG_PARTITION :: u32 where "FLAG_PARTITION = push_bit 1 1"
definition FLAG_NO_PARTITION :: u32 where "FLAG_NO_PARTITION = push_bit 2 1"
definition FLAG_FORMAT_PARTITION :: u32 where "FLAG_FORMAT_PARTITION = push_bit 3 1"

definition ugGetProrgessPercentage :: "ug_state \<Rightarrow> int" where
  "ugGetProrgessPercentage st = ugProgressPercentage st"

definition ugRestoreStart :: "ug_state \<Rightarrow> ug_state" where
  "ugRestoreStart st = st\<lparr>ugDevice := (ugDevice st)\<lparr>ugd_restore := True\<rparr>\<rparr>"

section \<open>One block\<close>

text \<open>
  The handling of one tag. The result says whether the loop is left, and with which value; then the
  stream, \<open>partition\<close>, \<open>drive\<close> and the state.
\<close>

type_synonym 's block_result = "(bool \<times> int \<times> 's \<times> int option \<times> path option \<times> ug_state) option"

definition tag_end :: "'s itc_vt \<Rightarrow> ug_env \<Rightarrow> 's \<Rightarrow> int option \<Rightarrow> path option \<Rightarrow> ug_state \<Rightarrow> 's block_result" where
  "tag_end vt env f part drive st = do {
     (ret, f) \<leftarrow> ugUpgradeEnd vt f;
     if ret \<noteq> 0 then Some (True, ret, f, part, drive, st)
     else do {
       (ret, disks) \<leftarrow> with_mark (ugUpgradeFinish (env_malloc env) (env_mark_pos env)) (ug_disks st);
       Some (True, ret, f, part, drive, st\<lparr>ug_disks := disks\<rparr>)
     }
   }"

definition tag_device :: "'s itc_vt \<Rightarrow> u32 \<Rightarrow> 's \<Rightarrow> int option \<Rightarrow> path option \<Rightarrow> ug_state \<Rightarrow> 's block_result" where
  "tag_device vt flags f part drive st = do {
     (ret, f, device) \<leftarrow> ugUpgradeDevice vt f (ugDevice st);
     if ret \<noteq> 0 then Some (True, ret, f, part, drive, st\<lparr>ugDevice := device\<rparr>)
     else
       let device = device\<lparr>ugd_partition := (flags AND FLAG_PARTITION \<noteq> 0),
                           ugd_nopartition := (flags AND FLAG_NO_PARTITION \<noteq> 0)\<rparr>
       in Some (False, 0, f, Some 0, drive, st\<lparr>ugDevice := device\<rparr>)
   }"

definition tag_partition ::
    "'s itc_vt \<Rightarrow> ug_env \<Rightarrow> u32 \<Rightarrow> 's \<Rightarrow> int option \<Rightarrow> path option \<Rightarrow> ug_state \<Rightarrow> 's block_result" where
  "tag_partition vt env flags f part drive st = do {
     p \<leftarrow> part;
     (ret, fs) \<leftarrow>
       (if p = 0 then ugUpgradeDoPartition (env_fat env) (ugDevice st) (ug_fs st) else Some (0, ug_fs st));
     let st = st\<lparr>ug_fs := fs\<rparr>;
     if ret \<noteq> 0 then Some (True, ret, f, part, drive, st)
     else do {
       (ret, f, drive, fs) \<leftarrow>
         ugUpgradePartition vt (env_fat env) (ug_fs st) f (ugd_disk (ugDevice st)) p drive
           (flags AND FLAG_FORMAT_PARTITION \<noteq> 0);
       let st = st\<lparr>ug_fs := fs\<rparr>;
       if ret \<noteq> 0 then Some (True, ret, f, part, drive, st)
       else Some (False, 0, f, Some (p + 1), drive, st)
     }
   }"

definition package_block ::
    "'s itc_vt \<Rightarrow> ug_env \<Rightarrow> u32 \<Rightarrow> u32 \<Rightarrow> 's \<Rightarrow> int option \<Rightarrow> path option \<Rightarrow> ug_state \<Rightarrow> 's block_result" where
  "package_block vt env flags tag f part drive st =
     (if tag = 0 then tag_end vt env f part drive st
      else if tag = 1 then tag_device vt flags f part drive st
      else if tag = 2 then do {
        (ret, f) \<leftarrow> ugUpgradeUnformatted vt f;
        Some (ret \<noteq> 0, ret, f, part, drive, st)
      }
      else if tag = 3 then do {
        (ret, f, disks) \<leftarrow> ugUpgradeRawData vt (env_malloc env) (env_buf_size env) (env_mark_pos env) f
          (ugd_disk (ugDevice st)) (ugd_restore (ugDevice st)) (ug_disks st);
        Some (ret \<noteq> 0, ret, f, part, drive, st\<lparr>ug_disks := disks\<rparr>)
      }
      else if tag = 4 then tag_partition vt env flags f part drive st
      else if tag = 5 then do {
        d \<leftarrow> drive;
        (ret, f, fs) \<leftarrow> ugUpgradeDirectory vt (env_stack env) (ug_fs st) f d;
        Some (ret \<noteq> 0, ret, f, part, drive, st\<lparr>ug_fs := fs\<rparr>)
      }
      else if tag = 6 then do {
        d \<leftarrow> drive;
        (ret, f, fs) \<leftarrow> ugUpgradeFile vt (env_malloc env) (env_buf_size env) (env_key env) (env_statvfs env)
          (env_stack env) (ug_fs st) f d;
        Some (ret \<noteq> 0, ret, f, part, drive, st\<lparr>ug_fs := fs\<rparr>)
      }
      else Some (True, 161, f, part, drive, st))"

section \<open>The package\<close>

definition progress :: "int \<Rightarrow> int \<Rightarrow> int option" where
  "progress sz avail =
     (if sz = 0 then None
      else Some (c_int (uint (word_of_int (sz - avail) * 100 div (word_of_int sz :: u64)))))"

text \<open>\<open>ret\<close> is 0 whenever a tag is read, so a short read there leaves with 0.\<close>

partial_function (option) package_loop ::
    "'s itc_vt \<Rightarrow> ug_env \<Rightarrow> u32 \<Rightarrow> 's \<Rightarrow> int option \<Rightarrow> path option \<Rightarrow> ug_state \<Rightarrow> (int \<times> 's \<times> ug_state) option" where
  "package_loop vt env flags f part drive st = do {
     (r, tag, f) \<leftarrow> vt_Read vt f (replicate 4 0) 4;
     if (word_of_int r :: u32) \<noteq> 4 then Some (0, f, st)
     else do {
       (stop, ret, f, part, drive, st) \<leftarrow> package_block vt env flags (le32 tag) f part drive st;
       if stop then Some (ret, f, st)
       else do {
         (avail, f) \<leftarrow> vt_Available vt f;
         percent \<leftarrow> progress (vt_size vt f) avail;
         package_loop vt env flags f part drive (st\<lparr>ugProgressPercentage := percent\<rparr>)
       }
     }
   }"

definition ugUpgradePackage ::
    "'s itc_vt \<Rightarrow> ug_env \<Rightarrow> 's \<Rightarrow> ug_state \<Rightarrow> (int \<times> 's \<times> ug_state) option" where
  "ugUpgradePackage vt env f st = do {
     let st = st\<lparr>ugProgressPercentage := 0\<rparr>;
     (ret, disks) \<leftarrow> with_mark (ugUpgradeStart (env_malloc env) (env_mark_pos env)) (ug_disks st);
     let st = st\<lparr>ug_disks := disks\<rparr>;
     (ret, f, st) \<leftarrow>
       (if ret \<noteq> 0 then Some (ret, f, st)
        else do {
          (r, pkg, f) \<leftarrow> vt_Read vt f (replicate 24 0) 24;
          if (word_of_int r :: u32) \<noteq> 24 then Some (0, f, st)
          else package_loop vt env (le32 (drop 20 pkg)) f None None st
        });
     (_, f) \<leftarrow> vt_Close vt f;
     Some (ret, f, st)
   }"

section \<open>Packages as data\<close>

type_synonym file_entry = "path \<times> bytes"

definition file_block :: "file_entry \<Rightarrow> bytes" where
  "file_block e = le32_bytes 6 @ le32_bytes (word_of_nat (length (fst e) + 1)) @ fst e @ 0 #
     le32_bytes (word_of_nat (length (snd e))) @ snd e"

definition file_blocks :: "file_entry list \<Rightarrow> bytes" where
  "file_blocks es = concat (map file_block es)"

definition data_size :: "file_entry list \<Rightarrow> nat" where
  "data_size es = sum_list (map (\<lambda>e. length (snd e)) es)"

lemma file_blocks_Cons:
  "file_blocks ((nm, data) # es) = le32_bytes 6 @ le32_bytes (word_of_nat (length nm + 1)) @ nm @ 0 #
     le32_bytes (word_of_nat (length data)) @ data @ file_blocks es"
  by (simp add: file_blocks_def file_block_def)

lemma word_of_nat_neq: "k < n \<Longrightarrow> n < 2 ^ 31 \<Longrightarrow> (word_of_nat k :: u32) \<noteq> word_of_nat n"
  by (simp add: word_of_nat_eq_iff take_bit_nat_eq_self)

text \<open>A package with the flag not to partition: a device block, a partition block and files.\<close>

definition package ::
    "bytes \<Rightarrow> u32 \<Rightarrow> u32 \<Rightarrow> u32 \<Rightarrow> u32 \<Rightarrow> bytes \<Rightarrow> u64 \<Rightarrow> file_entry list \<Rightarrow> u32 \<Rightarrow> bytes \<Rightarrow> bytes" where
  "package hdr off t unf n sizes psize es crc trailer =
     hdr @ le32_bytes off @ le32_bytes FLAG_NO_PARTITION @
     le32_bytes 1 @ le32_bytes t @ le32_bytes unf @ le32_bytes n @ sizes @
     le32_bytes 4 @ le64_bytes psize @ file_blocks es @ le32_bytes 0 @ le32_bytes crc @ trailer"

text \<open>The path of an entry on a drive, and the entries whose names are C strings that fit.\<close>

definition entry_path :: "path \<Rightarrow> path \<Rightarrow> path" where
  "entry_path drive nm = take 2 drive @ nm"

definition names_ok :: "bytes \<Rightarrow> path \<Rightarrow> file_entry list \<Rightarrow> bool" where
  "names_ok stack drive es \<longleftrightarrow> length drive + 1 \<le> length stack \<and> 2 \<le> length drive \<and>
     (\<forall>(nm, data) \<in> set es. length nm + 3 \<le> length stack \<and> 0 \<notin> set (entry_path drive nm)) \<and>
     distinct (map fst es)"

text \<open>The drive takes the files.\<close>

definition drive_takes :: "ug_env \<Rightarrow> path \<Rightarrow> file_entry list \<Rightarrow> fsys \<Rightarrow> bool" where
  "drive_takes env drive es fs \<longleftrightarrow> (\<forall>n. env_malloc env n \<noteq> None) \<and> fs_sound fs \<and> data_size es \<le> fs_room fs \<and>
     (\<forall>(nm, data) \<in> set es. writable fs (entry_path drive nm)) \<and> env_statvfs env drive = None"

lemma progress_some: "sz \<noteq> 0 \<Longrightarrow> \<exists>p. progress sz avail = Some p"
  by (simp add: progress_def)

lemma entry_path_eq: "entry_path drive a = entry_path drive b \<longleftrightarrow> a = b"
  by (simp add: entry_path_def)

lemma device_run:
  assumes "vt_Read vt s (replicate 12 0) 12 = Some (12, h, s1)"
    and "le32 h = t" "le32 (drop 4 h) = unf" "le32 (drop 8 h) = c"
    and "vt_Read vt s1 (size_bytes dev) (sint (8 * c)) = Some (r, sizes, s2)"
    and "word_of_int r = 8 * c" "\<not> sint c > int ITP_MAX_PARTITION" "type_disk t = Some disk"
  shows "ugUpgradeDevice vt s dev = Some (0, s2, dev\<lparr>device_type := t, unformatted_size := unf,
    partition_count := c, size_bytes := sizes, ugd_disk := disk\<rparr>)"
  using assms by (simp add: ugUpgradeDevice_def Let_def)

context itc_source
begin

text \<open>Reading what comes next, and a tag.\<close>

lemma read_next:
  assumes "inv s" "contents s = a @ h @ r" "cursor s = length a" "length buf = length h"
  obtains s1 where "vt_Read vt s buf (int (length h)) = Some (int (length h), h, s1)" "inv s1"
    "contents s1 = contents s" "cursor s1 = length (a @ h)"
proof -
  have c: "cursor s + length h \<le> length (contents s)" using assms(2,3) by simp
  have "slice (contents s) (cursor s) (length h) = h" unfolding assms(2,3) by (simp add: slice_def)
  then show thesis using read_exact [OF assms(1) _ c, of buf] that assms(3,4) by auto
qed

lemma read_tag:
  assumes "inv s" "contents s = a @ le32_bytes t @ r" "cursor s = length a"
  obtains s1 where "vt_Read vt s (replicate 4 0) 4 = Some (4, le32_bytes t, s1)" "inv s1"
    "contents s1 = contents s" "cursor s1 = length (a @ le32_bytes t)"
  using read_next [OF assms, of "replicate 4 0"] that by auto

text \<open>The end block, with the mark taken back.\<close>

lemma package_end:
  assumes "inv s" "contents s = a @ le32_bytes 0 @ le32_bytes crc @ trailer" "cursor s = length a"
    and finish: "with_mark (ugUpgradeFinish (env_malloc env) (env_mark_pos env)) (ug_disks st) = Some (ret, disks)"
  shows "\<exists>s'. package_loop vt env flags s part drive st = Some (ret, s', st\<lparr>ug_disks := disks\<rparr>) \<and> inv s' \<and>
    contents s' = contents s"
proof -
  obtain s1 where s1: "vt_Read vt s (replicate 4 0) 4 = Some (4, le32_bytes 0, s1)" "inv s1"
      "contents s1 = contents s" "cursor s1 = length (a @ le32_bytes 0)"
    by (rule read_tag [OF assms(1-3)])
  have at: "contents s1 = (a @ le32_bytes 0) @ le32_bytes crc @ trailer" using s1(3) assms(2) by simp
  obtain s2 where s2: "vt_Read vt s1 (replicate 4 0) 4 = Some (4, le32_bytes crc, s2)" "inv s2" "contents s2 = contents s1"
    by (rule read_tag [OF s1(2) at s1(4)])
  have "package_block vt env flags 0 s1 part drive st = Some (True, ret, s2, part, drive, st\<lparr>ug_disks := disks\<rparr>)"
    using s2(1) finish by (simp add: package_block_def tag_end_def ugUpgradeEnd_def)
  then show ?thesis using s1 s2 by (subst package_loop.simps) simp
qed

text \<open>File blocks up to the end block.\<close>

lemma package_files:
  assumes "inv s" and at: "contents s = a @ file_blocks es @ le32_bytes 0 @ le32_bytes crc @ trailer" "cursor s = length a"
    and size: "length (contents s) < 2 ^ 31"
    and names: "names_ok (env_stack env) drive es"
    and alloc: "alloc_sized (env_malloc env)" and buf: "0 < unat (env_buf_size env)" and key: "env_key env = ucast k"
    and finish: "with_mark (ugUpgradeFinish (env_malloc env) (env_mark_pos env)) (ug_disks st) = Some (0, disks)"
  shows "\<exists>ret s' st'. package_loop vt env flags s part (Some drive) st = Some (ret, s', st') \<and> inv s' \<and>
    contents s' = contents s \<and>
    (\<forall>q. q \<notin> entry_path drive ` fst ` set es \<longrightarrow> fs_files (ug_fs st') q = fs_files (ug_fs st) q) \<and>
    ug_disks st' = (if ret = 0 then disks else ug_disks st) \<and>
    (ret = 0 \<longrightarrow> (\<forall>(nm, data) \<in> set es. fs_files (ug_fs st') (entry_path drive nm) = Some (decoded k data))) \<and>
    (drive_takes env drive es (ug_fs st) \<longrightarrow> ret = 0)"
  using assms(1-5) finish
proof (induction es arbitrary: s a st)
  case Nil
  have at: "contents s = a @ le32_bytes 0 @ le32_bytes crc @ trailer"
    using Nil.prems(2) by (simp add: file_blocks_def)
  obtain s' where "package_loop vt env flags s part (Some drive) st = Some (0, s', st\<lparr>ug_disks := disks\<rparr>)" "inv s'"
      "contents s' = contents s"
    using package_end [OF Nil.prems(1) at Nil.prems(3,6)] by blast
  then show ?case by (intro exI [of _ 0] exI [of _ s'] exI [of _ "st\<lparr>ug_disks := disks\<rparr>"] conjI) auto
next
  case (Cons e es)
  obtain nm data where e: "e = (nm, data)" by fastforce
  let ?rest = "file_blocks es @ le32_bytes 0 @ le32_bytes crc @ trailer"
  let ?p = "entry_path drive nm" and ?fs = "ug_fs st"
  have at: "contents s = a @ le32_bytes 6 @ le32_bytes (word_of_nat (length nm + 1)) @ nm @ 0 #
      le32_bytes (word_of_nat (length data)) @ data @ ?rest"
    using Cons.prems(2) by (simp add: e file_blocks_Cons)
  obtain s1 where s1: "vt_Read vt s (replicate 4 0) 4 = Some (4, le32_bytes 6, s1)" "inv s1"
      "contents s1 = contents s" "cursor s1 = length (a @ le32_bytes 6)"
    by (rule read_tag [OF Cons.prems(1) at Cons.prems(3)])
  have at1: "contents s1 = (a @ le32_bytes 6) @ le32_bytes (word_of_nat (length nm + 1)) @ nm @ 0 #
      le32_bytes (word_of_nat (length data)) @ data @ ?rest"
    using s1(3) at by simp
  have nm: "length nm + 3 \<le> length (env_stack env)" "length drive + 1 \<le> length (env_stack env)" "2 \<le> length drive"
      "0 \<notin> set ?p" and nm': "names_ok (env_stack env) drive es" "nm \<notin> fst ` set es"
    using Cons.prems(5) by (auto simp: names_ok_def e)
  have rest: "?rest \<noteq> []" by (simp add: le32_bytes_def)
  have "\<exists>ret s' fs'. ugUpgradeFile vt (env_malloc env) (env_buf_size env) (ucast k) (env_statvfs env) (env_stack env) ?fs s1 drive =
      Some (ret, s', fs') \<and> inv s' \<and> contents s' = contents s1 \<and> fs_same ?p ?fs fs' \<and>
    fs_room ?fs \<le> fs_room fs' + length data \<and>
    (ret = 0 \<longrightarrow> cursor s' = length (contents s1) - length ?rest \<and> fs_files fs' ?p = Some (decoded k data)) \<and>
    ((\<forall>n. env_malloc env n \<noteq> None) \<and> fs_sound ?fs \<and> writable ?fs ?p \<and> length data \<le> fs_room ?fs \<and>
      \<not> out_of_space (env_statvfs env) ?fs drive ?p (word_of_nat (length data)) \<longrightarrow> ret = 0)"
    by (rule upgrade_file_result [OF s1(2) at1 s1(4) rest _ nm(1-3) entry_path_def nm(4) alloc buf])
      (use Cons.prems(4) s1(3) in simp)
  then obtain ret s2 fs2 where up: "ugUpgradeFile vt (env_malloc env) (env_buf_size env) (ucast k) (env_statvfs env)
        (env_stack env) ?fs s1 drive = Some (ret, s2, fs2)" "inv s2" "contents s2 = contents s1" "fs_same ?p ?fs fs2"
      "fs_room ?fs \<le> fs_room fs2 + length data"
      "ret = 0 \<longrightarrow> cursor s2 = length (contents s1) - length ?rest \<and> fs_files fs2 ?p = Some (decoded k data)"
      "(\<forall>n. env_malloc env n \<noteq> None) \<and> fs_sound ?fs \<and> writable ?fs ?p \<and> length data \<le> fs_room ?fs \<and>
        \<not> out_of_space (env_statvfs env) ?fs drive ?p (word_of_nat (length data)) \<longrightarrow> ret = 0"
    by (elim exE conjE) (rule that)
  let ?st = "st\<lparr>ug_fs := fs2\<rparr>"
  have block: "package_block vt env flags 6 s1 part (Some drive) st = Some (ret \<noteq> 0, ret, s2, part, Some drive, ?st)"
    using up(1) by (simp add: package_block_def key)
  have loop: "package_loop vt env flags s part (Some drive) st =
     (if ret \<noteq> 0 then Some (ret, s2, ?st)
      else do {
        (avail, f) \<leftarrow> vt_Available vt s2;
        percent \<leftarrow> progress (vt_size vt f) avail;
        package_loop vt env flags f part (Some drive) (?st\<lparr>ugProgressPercentage := percent\<rparr>)
      })"
    using s1(1) block by (subst package_loop.simps) simp
  have frame: "fs_files fs2 q = fs_files ?fs q" if "q \<noteq> ?p" for q
    using up(4) that by (simp add: fs_same_def)
  show ?case
  proof (cases "ret = 0")
    case False
    have "\<not> drive_takes env drive (e # es) ?fs"
      using False up(7) by (auto simp: drive_takes_def data_size_def e out_of_space_def)
    with False show ?thesis
      using loop up(2,3) s1(3) frame by (intro exI [of _ ret] exI [of _ s2] exI [of _ ?st] conjI) (auto simp: e)
  next
    case True
    have len: "vt_size vt s2 \<noteq> 0" using size_contents [OF up(2)] up(3) at1 by (simp add: le32_bytes_def)
    obtain pc where pc: "progress (vt_size vt s2) (int (length (contents s2)) - int (cursor s2)) = Some pc"
      using progress_some [OF len] by blast
    let ?st1 = "?st\<lparr>ugProgressPercentage := pc\<rparr>"
    let ?a = "a @ file_block e"
    have at2: "contents s2 = ?a @ ?rest" using up(3) at1 by (simp add: file_block_def e)
    have "length (contents s1) = length ?a + length ?rest" using arg_cong [OF at2, of length] up(3) by simp
    then have cur2: "cursor s2 = length ?a" using up(6) True by simp
    have size2: "length (contents s2) < 2 ^ 31" using up(3) s1(3) Cons.prems(4) by simp
    have fin2: "with_mark (ugUpgradeFinish (env_malloc env) (env_mark_pos env)) (ug_disks ?st1) = Some (0, disks)"
      using Cons.prems(6) by simp
    from Cons.IH [OF up(2) at2 cur2 size2 nm'(1) fin2] obtain ret' s' st' where ih:
        "package_loop vt env flags s2 part (Some drive) ?st1 = Some (ret', s', st')" "inv s'" "contents s' = contents s2"
        "\<forall>q. q \<notin> entry_path drive ` fst ` set es \<longrightarrow> fs_files (ug_fs st') q = fs_files (ug_fs ?st1) q"
        "ug_disks st' = (if ret' = 0 then disks else ug_disks ?st1)"
        "ret' = 0 \<longrightarrow> (\<forall>(nm, data) \<in> set es. fs_files (ug_fs st') (entry_path drive nm) = Some (decoded k data))"
        "drive_takes env drive es (ug_fs ?st1) \<longrightarrow> ret' = 0"
      by (elim exE conjE) (rule that)
    have run: "package_loop vt env flags s part (Some drive) st = Some (ret', s', st')"
      using loop True available_law [OF up(2)] pc ih(1) by simp
    have "?p \<notin> entry_path drive ` fst ` set es" using nm'(2) entry_path_eq by auto
    then have here: "fs_files (ug_fs st') ?p = Some (decoded k data)" using ih(4) up(6) True by simp
    have takes: "drive_takes env drive es fs2" if "drive_takes env drive (e # es) ?fs"
      using that up(4,5) fs_same_sound [OF up(4)] by (auto simp: drive_takes_def data_size_def e fs_same_def writable_def)
    show ?thesis
    proof (rule exI [of _ ret'], rule exI [of _ s'], rule exI [of _ st'], intro conjI)
      show "\<forall>q. q \<notin> entry_path drive ` fst ` set (e # es) \<longrightarrow> fs_files (ug_fs st') q = fs_files (ug_fs st) q"
        using ih(4) frame by (auto simp: e)
      show "ret' = 0 \<longrightarrow>
          (\<forall>(nm, data) \<in> set (e # es). fs_files (ug_fs st') (entry_path drive nm) = Some (decoded k data))"
        using ih(6) here by (auto simp: e)
      show "drive_takes env drive (e # es) (ug_fs st) \<longrightarrow> ret' = 0" using ih(7) takes by simp
    qed (use run ih(2,3,5) up(3) s1(3) in simp_all)
  qed
qed

text \<open>The device block.\<close>

lemma device_result:
  assumes "inv s" and at: "contents s = a @ (le32_bytes t @ le32_bytes unf @ le32_bytes (word_of_nat n)) @ sizes @ r"
      "cursor s = length a" "length sizes = 8 * n" "n \<le> ITP_MAX_PARTITION"
    and room: "length (size_bytes dev) = 80" and disk: "type_disk t = Some disk"
  obtains s' where "ugUpgradeDevice vt s dev = Some (0, s', dev\<lparr>device_type := t, unformatted_size := unf,
      partition_count := word_of_nat n, size_bytes := sizes @ drop (8 * n) (size_bytes dev), ugd_disk := disk\<rparr>)"
    "inv s'" "contents s' = contents s" "cursor s' = length a + 12 + 8 * n"
proof -
  let ?h = "le32_bytes t @ le32_bytes unf @ le32_bytes (word_of_nat n)"
  have h12: "length ?h = 12" by simp
  obtain s1 where s1: "vt_Read vt s (replicate 12 0) 12 = Some (12, ?h, s1)"
      "inv s1" "contents s1 = contents s" "cursor s1 = length (a @ ?h)"
    using read_next [OF assms(1) at(1,2), of "replicate 12 0"] h12 by auto
  have cap: "8 * n \<le> 80" using at(4) by simp
  have at1: "cursor s1 + 8 * n \<le> length (contents s1)" using s1(3,4) at(1,3) by simp
  have here: "slice (contents s1) (cursor s1) (8 * n) = sizes"
    unfolding s1(3,4) at(1) using at(3) by (simp add: slice_def)
  have fit: "8 * n \<le> length (size_bytes dev)" using cap room by simp
  let ?sizes = "sizes @ drop (8 * n) (size_bytes dev)"
  obtain s2 where s2: "vt_Read vt s1 (size_bytes dev) (int (8 * n)) = Some (int (8 * n), ?sizes, s2)"
      "inv s2" "contents s2 = contents s1" "cursor s2 = cursor s1 + 8 * n"
    using read_exact [OF s1(2) fit at1] unfolding here .
  have small: "8 * n < 2 ^ 31" "n < 2 ^ 31" using cap by simp_all
  have w: "word_of_int (sint ((8 :: u32) * word_of_nat n)) = (8 :: u32) * word_of_nat n" by simp
  have sn: "sint ((8 :: u32) * word_of_nat n) = int (8 * n)"
    using sint_of_nat_u32 [OF small(1)] by simp
  let ?dev = "dev\<lparr>device_type := t, unformatted_size := unf, partition_count := word_of_nat n,
    size_bytes := ?sizes, ugd_disk := disk\<rparr>"
  have fields: "le32 ?h = t" "le32 (drop 4 ?h) = unf" "le32 (drop 8 ?h) = word_of_nat n"
    by (simp_all add: le32_append)
  have cnt: "\<not> sint (word_of_nat n :: u32) > int ITP_MAX_PARTITION"
    using sint_of_nat_u32 [OF small(2)] at(4) by simp
  have run: "ugUpgradeDevice vt s dev = Some (0, s2, ?dev)"
    by (rule device_run [OF s1(1) fields s2(1) [folded sn] w cnt disk])
  show thesis
    by (rule that [OF run s2(2)]) (use s1 s2 in simp_all)
qed

text \<open>The loop over a block that does not leave it.\<close>

lemma package_step:
  assumes "inv s" and at: "contents s = a @ le32_bytes t @ r" "cursor s = length a"
    and block: "\<And>s1. inv s1 \<Longrightarrow> contents s1 = contents s \<Longrightarrow> cursor s1 = length (a @ le32_bytes t) \<Longrightarrow>
      \<exists>s2. package_block vt env flags t s1 part drive st = Some (False, 0, s2, part', drive', st') \<and>
        inv s2 \<and> contents s2 = contents s1 \<and> cursor s2 = c"
  obtains s2 pc where "package_loop vt env flags s part drive st =
      package_loop vt env flags s2 part' drive' (st'\<lparr>ugProgressPercentage := pc\<rparr>)"
    "inv s2" "contents s2 = contents s" "cursor s2 = c"
proof -
  obtain s1 where s1: "vt_Read vt s (replicate 4 0) 4 = Some (4, le32_bytes t, s1)" "inv s1"
      "contents s1 = contents s" "cursor s1 = length (a @ le32_bytes t)"
    by (rule read_tag [OF assms(1) at])
  obtain s2 where s2: "package_block vt env flags t s1 part drive st = Some (False, 0, s2, part', drive', st')"
      "inv s2" "contents s2 = contents s1" "cursor s2 = c"
    using block [OF s1(2-4)] by blast
  have "vt_size vt s2 \<noteq> 0" using size_contents [OF s2(2)] s2(3) s1(3) at(1) by (simp add: le32_bytes_def)
  then obtain pc where pc: "progress (vt_size vt s2) (int (length (contents s2)) - int (cursor s2)) = Some pc"
    using progress_some by blast
  have "package_loop vt env flags s part drive st =
      package_loop vt env flags s2 part' drive' (st'\<lparr>ugProgressPercentage := pc\<rparr>)"
    using s1(1) s2(1) available_law [OF s2(2)] pc by (subst package_loop.simps) simp
  then show thesis using that s1(3) s2(2-4) by simp
qed

text \<open>The partition block, without formatting.\<close>

lemma partition_result:
  assumes "inv s" "contents s = a @ le64_bytes psize @ r" "cursor s = length a"
    and "length (fat_get_table fat fs) = ITP_MAX_DRIVE"
      "find_drive (fat_get_table fat fs) disk part 0 0 = Some (i, name)"
  shows "\<exists>s'. ugUpgradePartition vt fat fs s disk part drive False = Some (0, s', Some name, fs) \<and> inv s' \<and>
    contents s' = contents s \<and> cursor s' = length a + 8"
proof -
  have len: "length (replicate 8 (0 :: u8)) = length (le64_bytes psize)" by (simp add: le64_bytes_def)
  obtain s1 where "vt_Read vt s (replicate 8 0) 8 = Some (8, le64_bytes psize, s1)" "inv s1"
      "contents s1 = contents s" "cursor s1 = length a + 8"
    using read_next [OF assms(1-3) len] by (auto simp: le64_bytes_def)
  then show ?thesis using assms(4,5) by (simp add: ugUpgradePartition_def Let_def)
qed

text \<open>A package with one device, one partition and files, from its header on.\<close>

lemma package_result:
  assumes "inv s" and at: "contents s = package hdr off t unf (word_of_nat n) sizes psize es crc trailer" "cursor s = 0"
      "length hdr = 16" "length sizes = 8 * n" "n \<le> ITP_MAX_PARTITION"
    and size: "length (contents s) < 2 ^ 31"
    and dev: "length (size_bytes (ugDevice st)) = 80" "type_disk t = Some disk"
    and table: "length (fat_get_table (env_fat env) (ug_fs st)) = ITP_MAX_DRIVE"
      "find_drive (fat_get_table (env_fat env) (ug_fs st)) disk 0 0 0 = Some (i, drive)"
    and names: "names_ok (env_stack env) drive es"
    and alloc: "alloc_sized (env_malloc env)" and buf: "0 < unat (env_buf_size env)" and key: "env_key env = ucast k"
    and start: "with_mark (ugUpgradeStart (env_malloc env) (env_mark_pos env)) (ug_disks st) = Some (0, disks1)"
    and finish: "with_mark (ugUpgradeFinish (env_malloc env) (env_mark_pos env)) disks1 = Some (0, disks2)"
  shows "\<exists>ret s' st'. ugUpgradePackage vt env s st = Some (ret, s', st') \<and>
    (\<forall>q. q \<notin> entry_path drive ` fst ` set es \<longrightarrow> fs_files (ug_fs st') q = fs_files (ug_fs st) q) \<and>
    ug_disks st' = (if ret = 0 then disks2 else disks1) \<and>
    (ret = 0 \<longrightarrow> (\<forall>(nm, data) \<in> set es. fs_files (ug_fs st') (entry_path drive nm) = Some (decoded k data))) \<and>
    (drive_takes env drive es (ug_fs st) \<longrightarrow> ret = 0)"
proof -
  let ?st = "st\<lparr>ugProgressPercentage := 0, ug_disks := disks1\<rparr>"
  let ?h = "hdr @ le32_bytes off @ le32_bytes FLAG_NO_PARTITION"
  let ?dev = "le32_bytes t @ le32_bytes unf @ le32_bytes (word_of_nat n)"
  let ?files = "file_blocks es @ le32_bytes 0 @ le32_bytes crc @ trailer"
  let ?part = "le32_bytes 4 @ le64_bytes psize @ ?files"
  have at0: "contents s = [] @ ?h @ le32_bytes 1 @ ?dev @ sizes @ ?part" using at(1) by (simp add: package_def)
  have len: "length ?h = 24" using at(3) by simp
  obtain s1 where s1: "vt_Read vt s (replicate 24 0) 24 = Some (24, ?h, s1)" "inv s1" "contents s1 = contents s"
      "cursor s1 = length ?h"
    using read_next [OF assms(1) at0, of "replicate 24 0"] at(2) len by auto
  have flags: "le32 (drop 20 ?h) = FLAG_NO_PARTITION" using at(3) by simp
  have at1: "contents s1 = ?h @ le32_bytes 1 @ ?dev @ sizes @ ?part" using s1(3) at0 by simp
  let ?dv = "(ugDevice st)\<lparr>device_type := t, unformatted_size := unf, partition_count := word_of_nat n,
    size_bytes := sizes @ drop (8 * n) (size_bytes (ugDevice st)), ugd_disk := disk,
    ugd_partition := False, ugd_nopartition := True\<rparr>"
  have block1: "\<exists>s3. package_block vt env FLAG_NO_PARTITION 1 s2 None None ?st =
        Some (False, 0, s3, Some 0, None, ?st\<lparr>ugDevice := ?dv\<rparr>) \<and>
      inv s3 \<and> contents s3 = contents s2 \<and> cursor s3 = length ?h + 4 + 12 + 8 * n"
    if s2: "inv s2" "contents s2 = contents s1" "cursor s2 = length (?h @ le32_bytes 1)" for s2
  proof -
    have at2: "contents s2 = (?h @ le32_bytes 1) @ ?dev @ sizes @ ?part" using s2(2) at1 by simp
    obtain s3 where "ugUpgradeDevice vt s2 (ugDevice st) = Some (0, s3, (ugDevice st)\<lparr>device_type := t,
        unformatted_size := unf, partition_count := word_of_nat n,
        size_bytes := sizes @ drop (8 * n) (size_bytes (ugDevice st)), ugd_disk := disk\<rparr>)"
      "inv s3" "contents s3 = contents s2" "cursor s3 = length (?h @ le32_bytes 1) + 12 + 8 * n"
      by (rule device_result [OF s2(1) at2 s2(3) at(4,5) dev])
    then show ?thesis
      by (simp add: package_block_def tag_device_def Let_def FLAG_PARTITION_def FLAG_NO_PARTITION_def)
  qed
  obtain s2 pc where s2: "package_loop vt env FLAG_NO_PARTITION s1 None None ?st =
      package_loop vt env FLAG_NO_PARTITION s2 (Some 0) None (?st\<lparr>ugDevice := ?dv\<rparr>\<lparr>ugProgressPercentage := pc\<rparr>)"
      "inv s2" "contents s2 = contents s1" "cursor s2 = length ?h + 4 + 12 + 8 * n"
    by (rule package_step [OF s1(2) at1 s1(4) block1])
  let ?st2 = "?st\<lparr>ugDevice := ?dv\<rparr>\<lparr>ugProgressPercentage := pc\<rparr>"
  let ?a = "?h @ le32_bytes 1 @ ?dev @ sizes"
  have at2: "contents s2 = ?a @ le32_bytes 4 @ le64_bytes psize @ ?files" using s2(3) at1 by simp
  have cur2: "cursor s2 = length ?a" using s2(4) at(4) by simp
  have nopart: "ugUpgradeDoPartition (env_fat env) ?dv (ug_fs st) = Some (0, ug_fs st)"
    using dev(2) by (simp add: ugUpgradeDoPartition_def Let_def)
  have block4: "\<exists>s4. package_block vt env FLAG_NO_PARTITION 4 s3 (Some 0) None ?st2 =
        Some (False, 0, s4, Some 1, Some drive, ?st2) \<and>
      inv s4 \<and> contents s4 = contents s3 \<and> cursor s4 = length (?a @ le32_bytes 4) + 8"
    if s3: "inv s3" "contents s3 = contents s2" "cursor s3 = length (?a @ le32_bytes 4)" for s3
  proof -
    have at3: "contents s3 = (?a @ le32_bytes 4) @ le64_bytes psize @ ?files" using s3(2) at2 by simp
    obtain s4 where "ugUpgradePartition vt (env_fat env) (ug_fs st) s3 disk 0 None False = Some (0, s4, Some drive, ug_fs st)"
        "inv s4" "contents s4 = contents s3" "cursor s4 = length (?a @ le32_bytes 4) + 8"
      using partition_result [OF s3(1) at3 s3(3) table] by blast
    then show ?thesis
      using nopart by (simp add: package_block_def tag_partition_def Let_def FLAG_FORMAT_PARTITION_def FLAG_NO_PARTITION_def)
  qed
  obtain s3 pc' where s3: "package_loop vt env FLAG_NO_PARTITION s2 (Some 0) None ?st2 =
      package_loop vt env FLAG_NO_PARTITION s3 (Some 1) (Some drive) (?st2\<lparr>ugProgressPercentage := pc'\<rparr>)"
      "inv s3" "contents s3 = contents s2" "cursor s3 = length (?a @ le32_bytes 4) + 8"
    by (rule package_step [OF s2(2) at2 cur2 block4])
  let ?st3 = "?st2\<lparr>ugProgressPercentage := pc'\<rparr>"
  let ?b = "?a @ le32_bytes 4 @ le64_bytes psize"
  have at3: "contents s3 = ?b @ ?files" using s3(3) at2 by simp
  have cur3: "cursor s3 = length ?b" using s3(4) by (simp add: le64_bytes_def)
  have size3: "length (contents s3) < 2 ^ 31" using size s1(3) s2(3) s3(3) by simp
  have fin: "with_mark (ugUpgradeFinish (env_malloc env) (env_mark_pos env)) (ug_disks ?st3) = Some (0, disks2)"
    using finish by simp
  obtain ret s' st' where run: "package_loop vt env FLAG_NO_PARTITION s3 (Some 1) (Some drive) ?st3 = Some (ret, s', st')"
      "inv s'" "contents s' = contents s3" and res:
      "\<forall>q. q \<notin> entry_path drive ` fst ` set es \<longrightarrow> fs_files (ug_fs st') q = fs_files (ug_fs ?st3) q"
      "ug_disks st' = (if ret = 0 then disks2 else ug_disks ?st3)"
      "ret = 0 \<longrightarrow> (\<forall>(nm, data) \<in> set es. fs_files (ug_fs st') (entry_path drive nm) = Some (decoded k data))"
      "drive_takes env drive es (ug_fs ?st3) \<longrightarrow> ret = 0"
    using package_files [OF s3(2) at3 cur3 size3 names alloc buf key fin, of FLAG_NO_PARTITION "Some 1"] by (elim exE conjE) (rule that)
  obtain r s'' where close: "vt_Close vt s' = Some (r, s'')" using close_law [OF run(2)] by blast
  have "ugUpgradePackage vt env s st = Some (ret, s'', st')"
    using start s1(1) flags s2(1) s3(1) run(1) close by (simp add: ugUpgradePackage_def)
  then show ?thesis
    using res by (intro exI [of _ ret] exI [of _ s''] exI [of _ st'] conjI) simp_all
qed

text \<open>A stream that ends in the header or in the first tag.\<close>

lemma package_truncated:
  assumes "inv s" "cursor s = 0" "length (contents s) < 28"
    and start: "with_mark (ugUpgradeStart (env_malloc env) (env_mark_pos env)) (ug_disks st) = Some (0, disks1)"
  shows "\<exists>s'. ugUpgradePackage vt env s st = Some (0, s', st\<lparr>ugProgressPercentage := 0, ug_disks := disks1\<rparr>)"
proof (cases "length (contents s) < 24")
  case True
  then have "length (contents s) < cursor s + 24" using assms(2) by simp
  moreover have "24 \<le> length (replicate 24 (0 :: u8))" by simp
  ultimately obtain k b s1 where r1: "vt_Read vt s (replicate 24 0) (int 24) = Some (int k, b, s1)" "k < 24" "inv s1"
    using read_short [OF assms(1)] by metis
  then have s1: "vt_Read vt s (replicate 24 0) 24 = Some (int k, b, s1)" "k < 24" "inv s1" by simp_all
  have "(word_of_nat k :: u32) \<noteq> 24" using s1(2) word_of_nat_neq [of k 24] by simp
  moreover obtain r s2 where "vt_Close vt s1 = Some (r, s2)" using close_law [OF s1(3)] by blast
  ultimately show ?thesis using start s1(1) by (simp add: ugUpgradePackage_def)
next
  case False
  let ?h = "take 24 (contents s)"
  have at: "contents s = [] @ ?h @ drop 24 (contents s)" by simp
  have len: "length ?h = 24" using False by simp
  obtain s1 where s1: "vt_Read vt s (replicate 24 0) 24 = Some (24, ?h, s1)" "inv s1" "contents s1 = contents s"
      "cursor s1 = 24"
    using read_next [OF assms(1) at, of "replicate 24 0"] assms(2) len by auto
  have "length (contents s1) < cursor s1 + 4" using assms(3) s1(3,4) by simp
  moreover have "4 \<le> length (replicate 4 (0 :: u8))" by simp
  ultimately obtain k b s2 where r2: "vt_Read vt s1 (replicate 4 0) (int 4) = Some (int k, b, s2)" "k < 4" "inv s2"
    using read_short [OF s1(2)] by metis
  then have s2: "vt_Read vt s1 (replicate 4 0) 4 = Some (int k, b, s2)" "k < 4" "inv s2" by simp_all
  have "(word_of_nat k :: u32) \<noteq> 4" using s2(2) word_of_nat_neq [of k 4] by simp
  then have "package_loop vt env flags s1 None None st1 = Some (0, s2, st1)" for flags st1
    using s2(1) by (subst package_loop.simps) simp
  moreover obtain r s3 where "vt_Close vt s2 = Some (r, s3)" using close_law [OF s2(3)] by blast
  ultimately show ?thesis using start s1(1) by (simp add: ugUpgradePackage_def)
qed

end

section \<open>The mark on its disk\<close>

definition disks_mark :: "ug_disks \<Rightarrow> mark_state" where
  "disks_mark d = (ud_mark d)\<lparr>mk_dev := ud_dev d (ud_boot d)\<rparr>"

lemma with_mark_refines:
  assumes "\<And>n. \<exists>b. malloc n = Some b \<and> length b = n" "mark_inv mp (disks_mark d)" "mark_sound mp (disks_mark d)"
  obtains ret d' where "with_mark (mark_call malloc mp op) d = Some (ret, d')"
    "(ret, mark_abs mp (disks_mark d')) = mark_spec op (mark_abs mp (disks_mark d))"
    "mark_inv mp (disks_mark d')" "mark_sound mp (disks_mark d')"
proof -
  have ready: "mark_ready malloc mp (disks_mark d)" using assms(1,2) by (simp add: mark_ready_def)
  obtain ret st where st: "mark_call malloc mp op (disks_mark d) = Some (ret, st)"
      "(ret, mark_abs mp st) = mark_spec op (mark_abs mp (disks_mark d))" "mark_inv mp st" "mark_sound mp st"
    using mark_call_refines [OF ready assms(3), of op] by blast
  let ?d = "d\<lparr>ud_mark := st, ud_dev := (ud_dev d)(ud_boot d := mk_dev st)\<rparr>"
  have "disks_mark ?d = st" by (simp add: disks_mark_def)
  moreover have "with_mark (mark_call malloc mp op) d = Some (ret, ?d)"
    using st(1) by (simp add: with_mark_def disks_mark_def)
  ultimately show thesis using that st(2-4) by simp
qed

text \<open>A start and a finish that work.\<close>

lemma mark_start_finish:
  assumes "\<And>n. \<exists>b. malloc n = Some b \<and> length b = n" "mark_inv mp (disks_mark d)" "mark_sound mp (disks_mark d)"
  obtains d1 d2 where "with_mark (ugUpgradeStart malloc mp) d = Some (0, d1)"
    "with_mark (ugUpgradeFinish malloc mp) d1 = Some (0, d2)"
    "fst (mark_abs mp (disks_mark d1)) = Backuping" "fst (mark_abs mp (disks_mark d2)) = Idle"
proof -
  obtain m f where m: "mark_abs mp (disks_mark d) = (m, f)" by fastforce
  obtain r1 d1 where d1: "with_mark (mark_call malloc mp OpStart) d = Some (r1, d1)"
      "(r1, mark_abs mp (disks_mark d1)) = mark_spec OpStart (mark_abs mp (disks_mark d))"
      "mark_inv mp (disks_mark d1)" "mark_sound mp (disks_mark d1)"
    by (rule with_mark_refines [OF assms])
  have m1: "r1 = 0" "mark_abs mp (disks_mark d1) = (Backuping, False)" using d1(2) by (simp_all add: m)
  obtain r2 d2 where d2: "with_mark (mark_call malloc mp OpFinish) d1 = Some (r2, d2)"
      "(r2, mark_abs mp (disks_mark d2)) = mark_spec OpFinish (mark_abs mp (disks_mark d1))"
    by (rule with_mark_refines [OF assms(1) d1(3,4)])
  have m2: "r2 = 0" "mark_abs mp (disks_mark d2) = (Idle, False)" using d2(2) by (simp_all add: m1)
  have calls: "mark_call malloc mp OpStart = ugUpgradeStart malloc mp" "mark_call malloc mp OpFinish = ugUpgradeFinish malloc mp"
    by (simp_all add: fun_eq_iff)
  show thesis
    using that [of d1 d2] d1(1) d2(1) m1 m2 unfolding calls by simp
qed

section \<open>Properties of the package\<close>


text \<open>A NOR device with one partition, and a package with one file for it.\<close>

definition demo_env :: ug_env where
  "demo_env = \<lparr>env_malloc = (\<lambda>n. Some (replicate n 0)), env_buf_size = 4, env_key = ucast (7 :: u8), env_mark_pos = 30,
     env_statvfs = (\<lambda>_. None), env_stack = replicate 16 1,
     env_fat = \<lparr>fat_get_table = (\<lambda>_. \<lparr>ds_disk = 6, ds_avail = True, ds_name = [65, 58, 47]\<rparr> #
         replicate 25 \<lparr>ds_disk = 0, ds_avail = False, ds_name = []\<rparr>),
       fat_format = (\<lambda>fs _. (0, fs)), fat_get_partition = (\<lambda>_ par. (0, par)), fat_unmount = (\<lambda>fs _. (0, fs)),
       fat_create_partition = (\<lambda>fs par. (0, par, fs)), fat_force_mount = (\<lambda>fs _. (0, fs)),
       fat_nor_read = (\<lambda>_ _ _. None)\<rparr>\<rparr>"

definition demo_ug :: ug_state where
  "demo_ug = \<lparr>ug_fs = demo_drive, ug_disks = demo_disks\<lparr>ud_dev := (\<lambda>_. demo_dev)\<rparr>,
     ugDevice = \<lparr>device_type = 0, unformatted_size = 0, partition_count = 0, ugd_disk = 0, size_bytes = replicate 80 0,
       ugd_partition = False, ugd_nopartition = False, ugd_restore = False\<rparr>,
     ugProgressPercentage = 0\<rparr>"

definition demo_package :: bytes where
  "demo_package = package (replicate 16 0) 0 1 16 (word_of_nat 1) (replicate 8 0) 64 [([47, 97], [1, 2, 3])] 0 []"

definition demo_package_stream :: array_stream where
  "demo_package_stream = \<lparr>st_eof = False, st_size = int (length demo_package), as_array = demo_package, as_pos = 0\<rparr>"

lemma demo_lengths: "length demo_package = 86"
  by (simp add: demo_package_def package_def file_blocks_def file_block_def le64_bytes_def)

lemma demo_ug_mark: "mark_inv 30 (disks_mark (ug_disks demo_ug))" "mark_sound 30 (disks_mark (ug_disks demo_ug))"
proof -
  have "disks_mark (ug_disks demo_ug) = demo_mark"
    by (simp add: disks_mark_def demo_ug_def demo_disks_def demo_mark_def)
  then show "mark_inv 30 (disks_mark (ug_disks demo_ug))" "mark_sound 30 (disks_mark (ug_disks demo_ug))"
    using demo_mark_ok by simp_all
qed


text \<open>
  C35. A package that is cut off is reported as installed. When the stream ends inside the header or
  inside the first tag, \<open>ugUpgradePackage\<close> returns 0 although it has not changed any
  file; only the mark is left saying that an upgrade was begun.
\<close>

theorem package_truncated_unreported:
  assumes "array_inv s" "as_pos s = 0" "length (as_array s) < 28"
    and "\<And>n. \<exists>b. env_malloc env n = Some b \<and> length b = n"
    and "mark_inv (env_mark_pos env) (disks_mark (ug_disks st))" "mark_sound (env_mark_pos env) (disks_mark (ug_disks st))"
  shows "\<exists>s' st'. ugUpgradePackage array_stream_vt env s st = Some (0, s', st') \<and> ug_fs st' = ug_fs st \<and>
    fst (mark_abs (env_mark_pos env) (disks_mark (ug_disks st'))) = Backuping"
proof -
  obtain d1 d2 where d: "with_mark (ugUpgradeStart (env_malloc env) (env_mark_pos env)) (ug_disks st) = Some (0, d1)"
      "with_mark (ugUpgradeFinish (env_malloc env) (env_mark_pos env)) d1 = Some (0, d2)"
      "fst (mark_abs (env_mark_pos env) (disks_mark d1)) = Backuping"
      "fst (mark_abs (env_mark_pos env) (disks_mark d2)) = Idle"
    by (rule mark_start_finish [OF assms(4-6)])
  have pos: "array_cursor s = 0" using assms(2) by (simp add: array_cursor_def)
  show ?thesis using array_src.package_truncated [OF assms(1) pos assms(3) d(1)] d(3) by auto
qed

theorem package_truncated_unreported_witness:
  "\<exists>s' st'. ugUpgradePackage array_stream_vt demo_env
       \<lparr>st_eof = False, st_size = 26, as_array = take 26 demo_package, as_pos = 0\<rparr> demo_ug = Some (0, s', st') \<and>
     ug_fs st' = demo_drive"
proof -
  let ?s = "\<lparr>st_eof = False, st_size = 26, as_array = take 26 demo_package, as_pos = 0\<rparr> :: array_stream"
  have "array_inv ?s" by (simp add: array_inv_def demo_lengths)
  moreover have "length (as_array ?s) < 28" by simp
  moreover have "env_mark_pos demo_env = 30" "\<And>n. \<exists>b. env_malloc demo_env n = Some b \<and> length b = n" "ug_fs demo_ug = demo_drive"
    by (simp_all add: demo_env_def demo_ug_def)
  ultimately show ?thesis
    using package_truncated_unreported [of ?s demo_env demo_ug] demo_ug_mark by auto
qed

end
