(* ===== verification/UG_Reset.thy ===== *)
theory UG_Reset
  imports UG_Copy
begin

text \<open>
  Copying one file (\<open>ugCopyFile\<close> in \<open>sdk/share/upgrade/ug_reset.c\<close>).
\<close>

definition GetFileSize :: "fsys \<Rightarrow> path \<Rightarrow> u32" where
  "GetFileSize fs input =
     (case fs_files fs input of Some b \<Rightarrow> word_of_nat (length b) | None \<Rightarrow> 0)"

text \<open>From the allocation of the buffer on; \<open>rf\<close> is open for reading.\<close>

definition copy_file_data ::
    "(nat \<Rightarrow> bytes option) \<Rightarrow> u32 \<Rightarrow> fsys \<Rightarrow> path \<Rightarrow> u32 \<Rightarrow> FILE \<Rightarrow> (int \<times> fsys) option" where
  "copy_file_data malloc cfg fs destPath filesize rf =
     (let bufsize = (if cfg < filesize then cfg else filesize) in
      case malloc (unat bufsize) of
        None \<Rightarrow> Some (63, fs)
      | Some buf \<Rightarrow>
          case fopen fs destPath True of
            (None, fs) \<Rightarrow> Some (70, fs)
          | (Some wfile, fs) \<Rightarrow> do {
              (ret, rf, buf, wfile, fs) \<leftarrow> copy_out fread_reader 82 90 bufsize rf buf filesize wfile fs;
              if ret \<noteq> 0 then Some (ret, fs)
              else
                case malloc (unat bufsize) of
                  None \<Rightarrow> Some (111, fs)
                | Some buf2 \<Rightarrow>
                    case fopen fs destPath False of
                      (None, fs) \<Rightarrow> Some (119, fs)
                    | (Some wfile, fs) \<Rightarrow>
                        let (r, rf) = fseek fs rf 0 SEEK_SET in
                        if r \<noteq> 0 then Some (126, fs)
                        else do {
                          (ret, rf, wfile) \<leftarrow> copy_verify fread_reader 140 148 155 fs bufsize rf buf buf2 filesize wfile;
                          Some (ret, fs)
                        }
            })"

definition ugCopyFile ::
    "(nat \<Rightarrow> bytes option) \<Rightarrow> u32 \<Rightarrow> (path \<Rightarrow> u64 option) \<Rightarrow> fsys \<Rightarrow> path \<Rightarrow> path \<Rightarrow> (int \<times> fsys) option" where
  "ugCopyFile malloc cfg statvfs fs destPath srcPath =
     (let filesize = GetFileSize fs srcPath in
      if out_of_space statvfs fs destPath destPath filesize then Some (46, fs)
      else
        case fopen fs srcPath False of
          (None, fs) \<Rightarrow> Some (54, fs)
        | (Some rf, fs) \<Rightarrow> copy_file_data malloc cfg fs destPath filesize rf)"

section \<open>A copy that reports success is a copy\<close>

lemma copy_file_result:
  assumes src: "fs_files fs src = Some b" "length b < 2 ^ 31" and ne: "src \<noteq> dest"
    and alloc: "alloc_sized malloc" and cfg: "0 < unat cfg"
  shows "\<exists>ret fs'. ugCopyFile malloc cfg statvfs fs dest src = Some (ret, fs') \<and> fs_same dest fs fs' \<and>
    fs_room fs \<le> fs_room fs' + length b \<and> (ret = 0 \<longrightarrow> fs_files fs' dest = Some b) \<and>
    ((\<forall>n. malloc n \<noteq> None) \<and> fs_sound fs \<and> writable fs dest \<and> length b \<le> fs_room fs \<and>
      \<not> out_of_space statvfs fs dest dest (word_of_nat (length b)) \<longrightarrow> ret = 0)"
proof -
  let ?n = "length b"
  let ?w = "word_of_nat ?n :: u32" and ?rf = "\<lparr>f_path = src, f_pos = 0, f_write = False\<rparr>"
  define bufsize where "bufsize = (if cfg < ?w then cfg else ?w)"
  have ub: "unat bufsize = min ?n (unat cfg)"
    using src(2) by (simp add: bufsize_def word_less_nat_alt unat_of_nat min_def)
  have bs: "?n = 0 \<or> 0 < unat bufsize" and mb: "min ?n (unat bufsize) = unat bufsize"
    using cfg by (auto simp: ub)
  have size: "GetFileSize fs src = ?w" by (simp add: GetFileSize_def src(1))
  have open_src: "fopen fs src False = (Some ?rf, fs)" by (simp add: fopen_def src(1))
  note unf = copy_file_data_def [of malloc cfg fs dest ?w ?rf, unfolded Let_def, folded bufsize_def]
  show ?thesis
  proof (cases "out_of_space statvfs fs dest dest ?w")
    case True
    then show ?thesis by (auto simp: ugCopyFile_def size Let_def)
  next
    case room: False
    have start: "ugCopyFile malloc cfg statvfs fs dest src = copy_file_data malloc cfg fs dest ?w ?rf"
      using room open_src by (simp add: ugCopyFile_def size Let_def)
    show ?thesis
    proof (cases "malloc (unat bufsize) = None \<or> \<not> writable fs dest")
      case True
      then have "\<exists>ret. copy_file_data malloc cfg fs dest ?w ?rf = Some (ret, fs) \<and> ret \<noteq> 0"
        by (auto simp: unf fopen_def split: option.splits)
      with True start show ?thesis by auto
    next
      case False
      then obtain buf where buf: "malloc (unat bufsize) = Some buf" and creat: "writable fs dest" by auto
      then have lbuf: "length buf = unat bufsize" using alloc by (auto simp: alloc_sized_def)
      let ?fs = "fs\<lparr>fs_files := (fs_files fs)(dest := Some [])\<rparr>"
      let ?h = "\<lparr>f_path = dest, f_pos = 0, f_write = True\<rparr>" and ?h2 = "\<lparr>f_path = dest, f_pos = 0, f_write = False\<rparr>"
      have open_w: "fopen fs dest True = (Some ?h, ?fs)" using creat by (simp add: fopen_def)
      have same: "fs_same dest fs ?fs" by (simp add: fs_same_def)
      have empty: "file_bytes ?fs dest = []" by (simp add: file_bytes_def)
      have srcb: "file_bytes ?fs src = b" using src(1) ne by (simp add: file_bytes_def)
      have "\<exists>ret r' buf' h' fs'. copy_out fread_reader 82 90 bufsize ?rf buf ?w ?h ?fs = Some (ret, r', buf', h', fs') \<and>
          (\<not> f_write r' \<and> f_path r' \<noteq> dest) \<and> file_bytes fs' (f_path r') = file_bytes ?fs (f_path ?rf) \<and>
          (fs_fault fs' (f_path r') = None) = (fs_fault ?fs (f_path ?rf) = None) \<and> length buf' = length buf \<and>
          fs_same dest ?fs fs' \<and> fs_files fs' dest \<noteq> None \<and> fs_room ?fs \<le> fs_room fs' + ?n \<and>
          (ret = 0 \<longrightarrow> f_pos r' = f_pos ?rf + ?n \<and> length (file_bytes fs' dest) = length (file_bytes ?fs dest) + ?n) \<and>
          (fs_fault ?fs (f_path ?rf) = None \<and> fs_sound ?fs \<and> ?n \<le> fs_room ?fs \<longrightarrow>
            ret = 0 \<and> file_bytes fs' dest = file_bytes ?fs dest @ slice (file_bytes ?fs (f_path ?rf)) (f_pos ?rf) ?n)"
        by (rule file_reader.copy_out_result) (use ne src(2) bs mb lbuf empty srcb in auto)
      then obtain ret rf1 buf1 h1 fs1 where out: "copy_out fread_reader 82 90 bufsize ?rf buf ?w ?h ?fs = Some (ret, rf1, buf1, h1, fs1)"
          "\<not> f_write rf1" "f_path rf1 \<noteq> dest" "file_bytes fs1 (f_path rf1) = file_bytes ?fs (f_path ?rf)"
          "(fs_fault fs1 (f_path rf1) = None) = (fs_fault ?fs (f_path ?rf) = None)"
          "length buf1 = length buf" "fs_same dest ?fs fs1" "fs_files fs1 dest \<noteq> None" "fs_room ?fs \<le> fs_room fs1 + ?n"
          "ret = 0 \<longrightarrow> f_pos rf1 = f_pos ?rf + ?n \<and> length (file_bytes fs1 dest) = length (file_bytes ?fs dest) + ?n"
          "fs_fault ?fs (f_path ?rf) = None \<and> fs_sound ?fs \<and> ?n \<le> fs_room ?fs \<longrightarrow>
            ret = 0 \<and> file_bytes fs1 dest = file_bytes ?fs dest @ slice (file_bytes ?fs (f_path ?rf)) (f_pos ?rf) ?n"
        by (elim exE conjE) (rule that)
      have same1: "fs_same dest fs fs1" by (rule fs_same_trans [OF same out(7)])
      have cont: "file_bytes fs1 (f_path rf1) = b" using out(4) srcb by simp
      show ?thesis
      proof (cases "ret = 0")
        case err: False
        have "ugCopyFile malloc cfg statvfs fs dest src = Some (ret, fs1)"
          using buf open_w out(1) err by (simp add: start unf)
        moreover have "\<not> (fs_sound fs \<and> ?n \<le> fs_room fs)"
          using out(11) err fs_same_sound [OF same] by (auto simp: fs_soundD(1))
        moreover have "fs_room fs \<le> fs_room fs1 + ?n" using out(9) by simp
        ultimately show ?thesis using same1 err by blast
      next
        case ret: True
        obtain b1 where b1: "fs_files fs1 dest = Some b1" using out(8) by auto
        then have fb1: "file_bytes fs1 dest = b1" by (simp add: file_bytes_def)
        have len1: "length b1 = ?n" using out(10) ret empty fb1 by auto
        have open_r: "fopen fs1 dest False = (Some ?h2, fs1)" by (simp add: fopen_def b1)
        let ?rf2 = "rf1\<lparr>f_pos := 0\<rparr>"
        have rewind: "fseek fs1 rf1 0 SEEK_SET = (0, ?rf2)" by (simp add: fseek_def seek_target_def)
        have ver0: "\<exists>ret r' h'. copy_verify fread_reader 140 148 155 fs1 bufsize ?rf2 buf1 buf ?w ?h2 = Some (ret, r', h') \<and>
            (\<not> f_write r' \<and> f_path r' \<noteq> dest) \<and> file_bytes fs1 (f_path r') = file_bytes fs1 (f_path ?rf2) \<and>
            (ret = 0 \<longrightarrow> f_pos r' = f_pos ?rf2 + ?n \<and>
              slice (file_bytes fs1 (f_path ?h2)) (f_pos ?h2) ?n = slice (file_bytes fs1 (f_path ?rf2)) (f_pos ?rf2) ?n) \<and>
            (fs_fault fs1 (f_path ?rf2) = None \<and> fs_sound fs1 \<and>
              slice (file_bytes fs1 (f_path ?h2)) (f_pos ?h2) ?n = slice (file_bytes fs1 (f_path ?rf2)) (f_pos ?rf2) ?n \<longrightarrow> ret = 0)"
          by (rule file_reader.copy_verify_result) (use out(2,3,6) cont src(2) bs mb lbuf in auto)
        have sl: "slice (file_bytes fs1 (f_path ?h2)) (f_pos ?h2) ?n = b1"
            "slice (file_bytes fs1 (f_path ?rf2)) (f_pos ?rf2) ?n = b"
          using fb1 len1 cont by simp_all
        from ver0 [unfolded sl] obtain ret2 rf3 h3 where ver:
            "copy_verify fread_reader 140 148 155 fs1 bufsize ?rf2 buf1 buf ?w ?h2 = Some (ret2, rf3, h3)"
            "ret2 = 0 \<longrightarrow> b1 = b" "fs_fault fs1 (f_path ?rf2) = None \<and> fs_sound fs1 \<and> b1 = b \<longrightarrow> ret2 = 0"
          by (elim exE conjE) (rule that, assumption, blast+)
        have "ugCopyFile malloc cfg statvfs fs dest src = Some (ret2, fs1)"
          using buf open_w out(1) ret open_r rewind ver(1) by (simp add: start unf)
        moreover have "ret2 = 0" if "fs_sound fs" "?n \<le> fs_room fs"
          using that out(11) ver(3) fs_same_sound [OF same] fs_same_sound [OF same1] fb1 empty srcb
          by (auto simp: fs_soundD(1))
        moreover have "fs_room fs \<le> fs_room fs1 + ?n" using out(9) by simp
        ultimately show ?thesis using ver(2) same1 b1 by blast
      qed
    qed
  qed
qed

text \<open>
  C16. A copy that reports success is a copy: for every medium \<open>ugCopyFile\<close> ends, changes
  no file but the destination, takes no more room than the source is long, and when it returns 0 the destination holds exactly the bytes of the
  source. On a sound medium with room and memory it returns 0.
\<close>

theorem copy_file_verified:
  assumes "fs_files fs src = Some b" "length b < 2 ^ 31" "src \<noteq> dest"
    and "alloc_sized malloc" "0 < unat cfg"
  shows "\<exists>ret fs'. ugCopyFile malloc cfg statvfs fs dest src = Some (ret, fs') \<and> fs_same dest fs fs' \<and>
    fs_room fs \<le> fs_room fs' + length b \<and> (ret = 0 \<longrightarrow> fs_files fs' dest = Some b) \<and>
    ((\<forall>n. malloc n \<noteq> None) \<and> fs_sound fs \<and> writable fs dest \<and> length b \<le> fs_room fs \<and>
      \<not> out_of_space statvfs fs dest dest (word_of_nat (length b)) \<longrightarrow> ret = 0)"
  by (rule copy_file_result [OF assms])

theorem copy_file_verified_witness:
  "\<exists>fs'. ugCopyFile (\<lambda>n. Some (replicate n 0)) 4 (\<lambda>_. Some 100)
      \<lparr>fs_files = [[65] \<mapsto> [1, 2, 3, 4, 5]], fs_creat = (\<lambda>_. True), fs_room = 50, fs_keep = (\<lambda>_ _ b. b),
       fs_fault = (\<lambda>_. None), fs_stat = True, fs_dirs = (\<lambda>_. False)\<rparr> [66] [65] = Some (0, fs') \<and>
    fs_files fs' [66] = Some [1, 2, 3, 4, 5]"
  using copy_file_verified [of "\<lparr>fs_files = [[65] \<mapsto> [1, 2, 3, 4, 5]], fs_creat = (\<lambda>_. True), fs_room = 50,
      fs_keep = (\<lambda>_ _ b. b), fs_fault = (\<lambda>_. None), fs_stat = True, fs_dirs = (\<lambda>_. False)\<rparr>" "[65]"
      "[1, 2, 3, 4, 5]" "[66]" "\<lambda>n. Some (replicate n 0)" 4 "\<lambda>_. Some 100"]
  by (auto simp: alloc_sized_def fs_sound_def writable_def out_of_space_def)

end
