(* ===== verification/UG_Dirs.thy ===== *)
theory UG_Dirs
  imports UG_Reset Dirent
begin

text \<open>
  The walks over directories: \<open>ugCopyDirectory\<close> and \<open>ugDeleteDirectory\<close>
  (\<open>sdk/share/upgrade/ug_directory.c\<close>), \<open>ugRestoreDir\<close> and \<open>ugResetFactory\<close>
  (\<open>ug_reset.c\<close>). A walk keeps the first error and goes on with the next entry. In a backup an
  entry whose name starts with a tilde (126) stands for the removal of the name behind it.
\<close>

definition first_error :: "int \<Rightarrow> int \<Rightarrow> int" where
  "first_error ret ret1 = (if ret1 \<noteq> 0 \<and> ret = 0 then ret1 else ret)"

partial_function (option) ugDeleteDirectory :: "dir_env \<Rightarrow> fsys \<Rightarrow> path \<Rightarrow> fsys option" where
  "ugDeleteDirectory env fs dirname =
     (case de_readdir env fs dirname of
        None \<Rightarrow> Some fs
      | Some ents \<Rightarrow> do {
          fs \<leftarrow> walk (\<lambda>e fs.
            if dot_entry (fst e) then Some fs
            else do {
              path \<leftarrow> path_buf env (path_join dirname (fst e));
              if snd e then ugDeleteDirectory env fs path
              else Some (snd (remove fs path))
            }) ents fs;
          Some (snd (rmdir env fs dirname))
        })"

definition copy_file :: "dir_env \<Rightarrow> fsys \<Rightarrow> path \<Rightarrow> path \<Rightarrow> (int \<times> fsys) option" where
  "copy_file env fs dest src = ugCopyFile (de_malloc env) (de_bufsize env) (de_statvfs env) fs dest src"

text \<open>The destination is created when it cannot be written, once for each entry.\<close>

definition make_dest :: "int \<Rightarrow> fsys \<Rightarrow> path \<Rightarrow> int \<times> fsys" where
  "make_dest ret fs dest =
     (if access fs dest \<noteq> 0
      then (let (ret1, fs) = mkdir fs dest in (first_error ret ret1, fs)) else (ret, fs))"

partial_function (option) ugCopyDirectory :: "dir_env \<Rightarrow> fsys \<Rightarrow> path \<Rightarrow> path \<Rightarrow> (int \<times> fsys) option" where
  "ugCopyDirectory env fs dest src =
     (case de_readdir env fs src of
        None \<Rightarrow> Some (75, fs)
      | Some ents \<Rightarrow>
          walk (\<lambda>e (ret, fs).
            if dot_entry (fst e) then Some (ret, fs)
            else do {
              destPath \<leftarrow> path_buf env dest;
              let (ret, fs) = make_dest ret fs destPath;
              destPath \<leftarrow> path_buf env (path_join destPath (fst e));
              if snd e then
                (let (ret1, fs) = mkdir fs destPath in
                 if ret1 \<noteq> 0 then Some (first_error ret ret1, fs)
                 else do {
                   srcPath \<leftarrow> path_buf env (path_join src (fst e));
                   (ret1, fs) \<leftarrow> ugCopyDirectory env fs destPath srcPath;
                   Some (first_error ret ret1, fs)
                 })
              else do {
                srcPath \<leftarrow> path_buf env (path_join src (fst e));
                (ret1, fs) \<leftarrow> copy_file env fs destPath srcPath;
                Some (first_error ret ret1, fs)
              }
            }) ents (0, fs))"

definition is_removal :: "bytes \<Rightarrow> bool" where
  "is_removal n \<longleftrightarrow> take 1 n = [126]"

text \<open>An entry that removes, and one that copies a file.\<close>

definition remove_entry :: "dir_env \<Rightarrow> fsys \<Rightarrow> path \<Rightarrow> bytes \<times> bool \<Rightarrow> fsys option" where
  "remove_entry env fs dest e = do {
     destPath \<leftarrow> path_buf env (path_join dest (drop 1 (fst e)));
     if snd e then ugDeleteDirectory env fs destPath else Some (snd (remove fs destPath))
   }"

definition restore_file :: "dir_env \<Rightarrow> fsys \<Rightarrow> path \<Rightarrow> path \<Rightarrow> bytes \<Rightarrow> (int \<times> fsys) option" where
  "restore_file env fs dest src n = do {
     destPath \<leftarrow> path_buf env (path_join dest n);
     srcPath \<leftarrow> path_buf env (path_join src n);
     copy_file env fs destPath srcPath
   }"

partial_function (option) ugRestoreDir :: "dir_env \<Rightarrow> fsys \<Rightarrow> path \<Rightarrow> path \<Rightarrow> (int \<times> fsys) option" where
  "ugRestoreDir env fs dest src =
     (case de_readdir env fs src of
        None \<Rightarrow> Some (193, fs)
      | Some ents \<Rightarrow>
          walk (\<lambda>e (ret, fs).
            if dot_entry (fst e) then Some (ret, fs)
            else if is_removal (fst e) then do {
              fs \<leftarrow> remove_entry env fs dest e;
              Some (ret, fs)
            }
            else if snd e then do {
              destPath \<leftarrow> path_buf env (path_join dest (fst e));
              let (ret1, fs) = mkdir fs destPath;
              if ret1 \<noteq> 0 then Some (first_error ret ret1, fs)
              else do {
                srcPath \<leftarrow> path_buf env (path_join src (fst e));
                (ret1, fs) \<leftarrow> ugRestoreDir env fs destPath srcPath;
                Some (first_error ret ret1, fs)
              }
            }
            else do {
              (ret1, fs) \<leftarrow> restore_file env fs dest src (fst e);
              Some (first_error ret ret1, fs)
            }) ents (0, fs))"

text \<open>\<open>private\<close> is the name of the private drive, \<open>CFG_PRIVATE_DRIVE\<close>.\<close>

definition backup_root :: "bytes \<Rightarrow> path" where
  "backup_root private = private @ [58, 47, 98, 97, 99, 107, 117, 112]"

definition ugResetFactory :: "dir_env \<Rightarrow> bytes \<Rightarrow> fsys \<Rightarrow> (int \<times> fsys) option" where
  "ugResetFactory env private fs =
     (case de_readdir env fs (backup_root private) of
        None \<Rightarrow> Some (299, fs)
      | Some ents \<Rightarrow>
          walk (\<lambda>e (ret, fs).
            if dot_entry (fst e) then Some (ret, fs)
            else if snd e then do {
              destPath \<leftarrow> path_buf env (fst e @ [58]);
              srcPath \<leftarrow> path_buf env (path_join (backup_root private) (fst e));
              (ret1, fs) \<leftarrow> ugRestoreDir env fs destPath srcPath;
              Some (first_error ret ret1, fs)
            }
            else Some (ret, fs)) ents (0, fs))"

section \<open>Paths\<close>

definition name_ok :: "bytes \<Rightarrow> bool" where
  "name_ok n \<longleftrightarrow> n \<noteq> [] \<and> 47 \<notin> set n \<and> \<not> dot_entry n"

text \<open>\<open>q\<close> is \<open>d\<close> or a path below it.\<close>

definition below :: "path \<Rightarrow> path \<Rightarrow> bool" where
  "below d q \<longleftrightarrow> prefix (d @ [47]) (q @ [47])"

lemma below_refl [simp]: "below d d"
  by (simp add: below_def)

lemma below_trans: "below a b \<Longrightarrow> below b c \<Longrightarrow> below a c"
  unfolding below_def by (rule prefix_order.trans)

lemma below_join [simp]: "below d (path_join d n)"
  by (simp add: below_def path_join_def)

lemma below_joinD: "below (path_join d n) q \<Longrightarrow> below d q"
  using below_trans below_join by blast

lemma below_length: "below d q \<Longrightarrow> length d \<le> length q"
  by (auto simp: below_def dest: prefix_length_le)

lemma length_path_join [simp]: "length (path_join d n) = length d + Suc (length n)"
  by (simp add: path_join_def)

lemma below_both: "below a q \<Longrightarrow> below b q \<Longrightarrow> below a b \<or> below b a"
  by (auto simp: below_def dest: prefix_same_cases)

lemma join_not_below [simp]: "\<not> below (path_join d n) d"
  using below_length [of "path_join d n" d] by auto

lemma takeWhile_slash: "47 \<notin> set n \<Longrightarrow> takeWhile (\<lambda>c. c \<noteq> 47) (n @ 47 # r) = n"
  by (induction n) auto

lemma join_neq: "below d q \<Longrightarrow> path_join q n \<noteq> d"
  using join_not_below by metis

lemma path_join_inject:
  "47 \<notin> set n \<Longrightarrow> 47 \<notin> set n' \<Longrightarrow> path_join d n = path_join d' n' \<Longrightarrow> d = d' \<and> n = n'"
proof -
  assume n: "47 \<notin> set n" "47 \<notin> set n'" and eq: "path_join d n = path_join d' n'"
  then have "rev n @ 47 # rev d = rev n' @ 47 # rev d'" by (metis path_join_def rev.simps(2) rev_append append_Cons append_Nil append_assoc)
  then have "rev n = rev n'" using n takeWhile_slash by (metis set_rev)
  then show "d = d' \<and> n = n'" using eq by (simp add: path_join_def)
qed

text \<open>Different entries of a directory have nothing in common.\<close>

lemma below_siblings:
  assumes "47 \<notin> set n" "47 \<notin> set m" "n \<noteq> m"
  shows "\<not> (below (path_join d n) q \<and> below (path_join d m) q)"
proof -
  have "\<not> below (path_join d a) (path_join d b)" if "47 \<notin> set a" "47 \<notin> set b" "a \<noteq> b" for a b
  proof
    assume "below (path_join d a) (path_join d b)"
    then have "prefix (a @ [47]) (b @ [47])" by (simp add: below_def path_join_def)
    then obtain r where r: "b @ [47] = a @ 47 # r" by (auto simp: prefix_def)
    have "takeWhile (\<lambda>c. c \<noteq> 47) (b @ [47]) = b" "takeWhile (\<lambda>c. c \<noteq> 47) (a @ 47 # r) = a"
      using that takeWhile_slash [of b "[]"] takeWhile_slash [of a r] by simp_all
    then show False using r that(3) by simp
  qed
  then show ?thesis using assms below_both by metis
qed

lemma below_cut:
  assumes "below d (path_join p n)" "path_join p n \<noteq> d" "47 \<notin> set n"
  shows "below d p"
proof -
  have "prefix (d @ [47]) (p @ 47 # n @ [47])" using assms(1) by (simp add: below_def path_join_def)
  then obtain r where r: "p @ 47 # n @ [47] = d @ 47 # r" by (auto simp: prefix_def)
  show ?thesis
  proof (cases r rule: rev_cases)
    case Nil
    then have "(p @ 47 # n) @ [47] = d @ [47]" using r by simp
    then have "p @ 47 # n = d" by (simp only: append_same_eq)
    then show ?thesis using assms(2) by (simp add: path_join_def)
  next
    case (snoc r' c)
    then have "(p @ 47 # n) @ [47] = (d @ 47 # r') @ [c]" using r by simp
    then have eq: "p @ 47 # n = d @ 47 # r'" using append1_eq_conv by blast
    then have "prefix (d @ [47]) (p @ 47 # n)" by simp
    then have "prefix (d @ [47]) ((p @ [47]) @ n)" by simp
    then have "prefix (d @ [47]) (p @ [47]) \<or> (\<exists>z. d @ [47] = (p @ [47]) @ z \<and> prefix z n)"
      by (simp only: prefix_append)
    then show ?thesis
    proof (elim disjE exE conjE)
      fix z
      assume z: "d @ [47] = (p @ [47]) @ z" "prefix z n"
      show ?thesis
      proof (cases "z = []")
        case False
        then have "last z = 47" using z(1) by (metis last_append last_snoc)
        then have "47 \<in> set z" using False last_in_set by metis
        then show ?thesis using z(2) assms(3) by (auto simp: prefix_def)
      qed (use z(1) in \<open>simp add: below_def\<close>)
    qed (simp add: below_def)
  qed
qed

section \<open>What is asked of the environment\<close>

definition entry_at :: "fsys \<Rightarrow> path \<Rightarrow> bytes \<Rightarrow> bool \<Rightarrow> bool" where
  "entry_at fs d n k \<longleftrightarrow> (if k then fs_dirs fs (path_join d n)
     else fs_files fs (path_join d n) \<noteq> None \<and> \<not> fs_dirs fs (path_join d n))"

lemma entry_present: "entry_at fs d n k \<Longrightarrow> present fs (path_join d n)"
  by (auto simp: entry_at_def present_def split: if_splits)

text \<open>\<open>readdir\<close> delivers only what is there, each name once \<dots>\<close>

definition readdir_sound :: "dir_env \<Rightarrow> bool" where
  "readdir_sound env \<longleftrightarrow> (\<forall>fs d ents. de_readdir env fs d = Some ents \<longrightarrow> distinct (map fst ents) \<and>
     (\<forall>(n, k) \<in> set ents. \<not> dot_entry n \<longrightarrow> name_ok n \<and> entry_at fs d n k))"

text \<open>\<dots> and all of it, in any directory below \<open>root\<close> that holds nothing \<open>fs\<close> does not hold.\<close>

definition readdir_lists :: "dir_env \<Rightarrow> fsys \<Rightarrow> path \<Rightarrow> bool" where
  "readdir_lists env fs root \<longleftrightarrow> (\<forall>fs' d. below root d \<and> fs_dirs fs' d \<and>
     (\<forall>q. below d q \<and> present fs' q \<longrightarrow> present fs q) \<longrightarrow>
     (\<exists>ents. de_readdir env fs' d = Some ents \<and>
       (\<forall>n k. name_ok n \<and> entry_at fs' d n k \<longrightarrow> (n, k) \<in> set ents)))"

text \<open>Below \<open>root\<close> everything lies in a directory, and no path is both a file and a directory.\<close>

definition fs_tree :: "fsys \<Rightarrow> path \<Rightarrow> bool" where
  "fs_tree fs root \<longleftrightarrow> (\<forall>q. below root q \<and> present fs q \<longrightarrow>
     (q = root \<or> (\<exists>d n. q = path_join d n \<and> name_ok n \<and> fs_dirs fs d)) \<and>
     \<not> (fs_dirs fs q \<and> fs_files fs q \<noteq> None))"

text \<open>All paths fit the buffers.\<close>

definition paths_fit :: "dir_env \<Rightarrow> fsys \<Rightarrow> bool" where
  "paths_fit env fs \<longleftrightarrow> (\<forall>q. present fs q \<longrightarrow> length q < de_path_max env)"

lemma readdir_entries:
  assumes "readdir_sound env" "de_readdir env fs d = Some ents"
  shows "distinct (map fst ents)"
    and "(n, k) \<in> set ents \<Longrightarrow> \<not> dot_entry n \<Longrightarrow> name_ok n \<and> entry_at fs d n k"
  using assms unfolding readdir_sound_def by blast+

lemma readdir_lists_sub:
  "readdir_lists env fs root \<Longrightarrow> below root r \<Longrightarrow> (\<And>q. below r q \<Longrightarrow> present fs' q \<Longrightarrow> present fs q) \<Longrightarrow>
   readdir_lists env fs' r"
  unfolding readdir_lists_def by (meson below_trans)

lemma name_okD: "name_ok n \<Longrightarrow> n \<noteq> []" "name_ok n \<Longrightarrow> 47 \<notin> set n" "name_ok n \<Longrightarrow> \<not> dot_entry n"
  by (auto simp: name_ok_def)

text \<open>Whatever lies below a directory lies below one of its entries.\<close>

lemma tree_entry:
  assumes "fs_tree fs d" "below d q" "present fs q" "q \<noteq> d"
  shows "\<exists>n k. name_ok n \<and> entry_at fs d n k \<and> below (path_join d n) q"
  using assms(2-)
proof (induction "length q" arbitrary: q rule: less_induct)
  case less
  obtain p n where q: "q = path_join p n" "name_ok n" "fs_dirs fs p"
    using assms(1) less.prems unfolding fs_tree_def by blast
  have p: "below d p" "present fs p" using below_cut less.prems(1,3) q name_okD(2) by (auto simp: present_def)
  show ?case
  proof (cases "p = d")
    case True
    have "entry_at fs d n (fs_dirs fs q)" using less.prems(2) q(1) True by (auto simp: entry_at_def present_def)
    then show ?thesis using q True by auto
  next
    case False
    have "\<exists>m k. name_ok m \<and> entry_at fs d m k \<and> below (path_join d m) p" by (rule less.hyps) (use q p False in auto)
    then show ?thesis using below_trans below_join q(1) by blast
  qed
qed

lemma tree_parent:
  assumes "fs_tree fs d" "below d (path_join p n)" "name_ok n" "path_join p n \<noteq> d" "present fs (path_join p n)"
  shows "fs_dirs fs p"
  using assms path_join_inject [of n _ p] name_okD(2) unfolding fs_tree_def by metis

lemma tree_leaf:
  assumes "fs_tree fs r" "\<not> fs_dirs fs r" "below r q" "present fs q"
  shows "q = r"
proof (rule ccontr)
  assume "q \<noteq> r"
  then obtain n k where n: "name_ok n" "entry_at fs r n k" using tree_entry [OF assms(1,3,4)] by blast
  have "path_join r n \<noteq> r" using join_not_below below_refl by metis
  then have "fs_dirs fs r" using tree_parent [OF assms(1) below_join n(1) _ entry_present [OF n(2)]] by blast
  then show False using assms(2) by blast
qed

lemma below_antisym: "below a b \<Longrightarrow> below b a \<Longrightarrow> a = b"
  unfolding below_def by (metis prefix_order.antisym append_same_eq)

lemma tree_sub:
  assumes "fs_tree fs d" "below d r"
    and same: "\<And>q. below r q \<Longrightarrow> fs_files fs' q = fs_files fs q \<and> fs_dirs fs' q = fs_dirs fs q"
  shows "fs_tree fs' r"
  unfolding fs_tree_def
proof (intro allI impI)
  fix q
  assume q: "below r q \<and> present fs' q"
  then have old: "below d q" "present fs q" using below_trans assms(2) same by (auto simp: present_def)
  have "q = r \<or> (\<exists>p n. q = path_join p n \<and> name_ok n \<and> fs_dirs fs' p)"
  proof (cases "q = r")
    case False
    then have "q \<noteq> d" using q assms(2) below_antisym by blast
    then obtain p n where p: "q = path_join p n" "name_ok n" "fs_dirs fs p"
      using assms(1) old unfolding fs_tree_def by blast
    have "below r p" using q p False below_cut name_okD(2) by blast
    then show ?thesis using p same by blast
  qed simp
  moreover have "\<not> (fs_dirs fs q \<and> fs_files fs q \<noteq> None)" using assms(1) old unfolding fs_tree_def by blast
  ultimately show "(q = r \<or> (\<exists>d n. q = path_join d n \<and> name_ok n \<and> fs_dirs fs' d)) \<and>
      \<not> (fs_dirs fs' q \<and> fs_files fs' q \<noteq> None)" using same q by auto
qed

section \<open>Removing a directory\<close>

text \<open>The file system without the paths in \<open>Z\<close>.\<close>

definition fs_cut :: "path set \<Rightarrow> fsys \<Rightarrow> fsys \<Rightarrow> bool" where
  "fs_cut Z fs fs' \<longleftrightarrow> (\<forall>q. fs_files fs' q = (if q \<in> Z then None else fs_files fs q)) \<and>
     (\<forall>q. fs_dirs fs' q = (q \<notin> Z \<and> fs_dirs fs q)) \<and> fs_creat fs' = fs_creat fs \<and>
     fs_keep fs' = fs_keep fs \<and> fs_fault fs' = fs_fault fs \<and> fs_stat fs' = fs_stat fs"

definition below_entries :: "path \<Rightarrow> (bytes \<times> bool) list \<Rightarrow> path set" where
  "below_entries d es = {q. \<exists>(n, k) \<in> set es. \<not> dot_entry n \<and> below (path_join d n) q}"

lemma below_entries_snoc:
  "below_entries d (es @ [e]) = (if dot_entry (fst e) then below_entries d es
     else below_entries d es \<union> {q. below (path_join d (fst e)) q})"
  by (auto simp: below_entries_def)

lemma fs_cut_union: "fs_cut Y fs fs1 \<Longrightarrow> fs_cut Z fs1 fs2 \<Longrightarrow> fs_cut (Y \<union> Z) fs fs2"
  by (auto simp: fs_cut_def)

lemma cut_present: "fs_cut Z fs fs' \<Longrightarrow> present fs' q \<longleftrightarrow> q \<notin> Z \<and> present fs q"
  by (auto simp: fs_cut_def present_def)

lemma remove_cut:
  assumes "fs_files fs p \<noteq> None" "\<not> fs_dirs fs p" "fs_creat fs p" "\<And>q. below p q \<Longrightarrow> present fs q \<Longrightarrow> q = p"
  shows "fs_cut {q. below p q} fs (snd (remove fs p))"
proof -
  have "fs_files fs q = None \<and> \<not> fs_dirs fs q" if "below p q" "q \<noteq> p" for q
    using assms(4) [of q] that unfolding present_def by blast
  then show ?thesis using assms(1-3) by (auto simp: fs_cut_def remove_def)
qed

lemma rmdir_cut:
  assumes "fs_cut Z fs fs'" "fs_dirs fs d" "fs_creat fs d" "\<And>q. q \<in> Z \<Longrightarrow> below d q \<and> q \<noteq> d" "fs_files fs d = None"
    and "\<And>q. below d q \<Longrightarrow> q \<noteq> d \<Longrightarrow> \<not> present fs' q" "de_readdir env fs' d = Some ents" "list_all (dot_entry \<circ> fst) ents"
  shows "fs_cut {q. below d q} fs (snd (rmdir env fs' d))"
proof -
  let ?fs = "fs'\<lparr>fs_dirs := (fs_dirs fs')(d := False)\<rparr>"
  have d: "d \<notin> Z" using assms(4) by blast
  have "fs_dirs fs' d" "fs_creat fs' d" using assms(1,2,3) d by (simp_all add: fs_cut_def)
  then have "snd (rmdir env fs' d) = ?fs" using assms(7,8) by (simp add: rmdir_def)
  moreover have "fs_files ?fs q = (if below d q then None else fs_files fs q) \<and>
      fs_dirs ?fs q = (\<not> below d q \<and> fs_dirs fs q)" for q
  proof (cases "below d q \<and> q \<noteq> d")
    case True
    then show ?thesis using assms(6) [of q] by (simp add: present_def)
  next
    case False
    then have "q \<notin> Z" using assms(4) by blast
    then show ?thesis using False assms(1,5) by (auto simp: fs_cut_def)
  qed
  moreover have "fs_creat ?fs = fs_creat fs" "fs_keep ?fs = fs_keep fs" "fs_fault ?fs = fs_fault fs" "fs_stat ?fs = fs_stat fs"
    using assms(1) by (simp_all add: fs_cut_def)
  ultimately show ?thesis by (simp add: fs_cut_def)
qed

lemma tree_excl: "fs_tree fs d \<Longrightarrow> below d q \<Longrightarrow> fs_dirs fs q \<Longrightarrow> fs_files fs q = None"
  unfolding fs_tree_def present_def by blast

lemma delete_directory_cut:
  assumes "readdir_sound env" "paths_fit env fs"
    and "readdir_lists env fs d" "fs_tree fs d" "fs_dirs fs d" "\<forall>q. below d q \<longrightarrow> fs_creat fs q"
  shows "\<exists>fs'. ugDeleteDirectory env fs d = Some fs' \<and> fs_cut {q. below d q} fs fs'"
  using assms(2-)
proof (induction "de_path_max env - length d" arbitrary: d fs rule: less_induct)
  case less
  note fit = less.prems(1) and lists = less.prems(2) and tree = less.prems(3) and dir = less.prems(4) and creat = less.prems(5)
  obtain ents where ents: "de_readdir env fs d = Some ents"
    and all: "\<And>n k. name_ok n \<Longrightarrow> entry_at fs d n k \<Longrightarrow> (n, k) \<in> set ents"
    using lists dir unfolding readdir_lists_def by (meson below_refl)
  note dist = readdir_entries(1) [OF assms(1) ents] and real = readdir_entries(2) [OF assms(1) ents]
  let ?f = "\<lambda>e fs. if dot_entry (fst e) then Some fs
            else do {
              path \<leftarrow> path_buf env (path_join d (fst e));
              if snd e then ugDeleteDirectory env fs path
              else Some (snd (remove fs path))
            }"
  have "\<exists>fs1. walk ?f ents fs = Some fs1 \<and> fs_cut (below_entries d ents) fs fs1"
  proof (rule walk_done [where I = "\<lambda>xs. fs_cut (below_entries d xs) fs"])
    show "fs_cut (below_entries d []) fs fs" by (simp add: fs_cut_def below_entries_def)
    fix xs e ys fs1
    assume split: "ents = xs @ e # ys" and cut: "fs_cut (below_entries d xs) fs fs1"
    obtain n k where e: "e = (n, k)" by force
    show "\<exists>fs2. ?f e fs1 = Some fs2 \<and> fs_cut (below_entries d (xs @ [e])) fs fs2"
    proof (cases "dot_entry n")
      case True
      then show ?thesis using cut by (simp add: e below_entries_snoc)
    next
      case False
      let ?p = "path_join d n"
      have ok: "name_ok n" "entry_at fs d n k" using real [of n k] split e False by auto
      then have fits: "length ?p < de_path_max env"
        using fit entry_present unfolding paths_fit_def by blast
      have new: "q \<notin> below_entries d xs" if "below ?p q" for q
      proof
        assume "q \<in> below_entries d xs"
        then obtain m j where m: "(m, j) \<in> set xs" "\<not> dot_entry m" "below (path_join d m) q"
          by (auto simp: below_entries_def)
        then have "name_ok m" "m \<noteq> n" using real [of m j] split dist e by force+
        then show False using below_siblings [of m n d q] m(3) that ok(1) name_okD(2) by blast
      qed
      have same: "fs_files fs1 q = fs_files fs q \<and> fs_dirs fs1 q = fs_dirs fs q" if "below ?p q" for q
        using cut new [OF that] by (simp add: fs_cut_def)
      have "\<exists>fs2. ?f e fs1 = Some fs2 \<and> fs_cut {q. below ?p q} fs1 fs2"
      proof (cases k)
        case True
        have "\<exists>fs2. ugDeleteDirectory env fs1 ?p = Some fs2 \<and> fs_cut {q. below ?p q} fs1 fs2"
        proof (rule less.hyps)
          show "de_path_max env - length ?p < de_path_max env - length d" using fits by simp
          show "paths_fit env fs1" using fit cut_present [OF cut] by (simp add: paths_fit_def)
          show "readdir_lists env fs1 ?p"
            by (rule readdir_lists_sub [OF lists below_join]) (simp add: cut_present [OF cut])
          show "fs_tree fs1 ?p" by (rule tree_sub [OF tree below_join same])
          show "fs_dirs fs1 ?p" using ok(2) same [of ?p] True by (simp add: entry_at_def)
          show "\<forall>q. below ?p q \<longrightarrow> fs_creat fs1 q" using creat cut below_joinD by (simp add: fs_cut_def)
        qed
        then show ?thesis using False fits True by (simp add: e path_buf_def)
      next
        case leaf: False
        have file1: "fs_files fs1 ?p \<noteq> None" "\<not> fs_dirs fs1 ?p" using ok(2) same [of ?p] leaf by (simp_all add: entry_at_def)
        have "q = ?p" if "below ?p q" "present fs1 q" for q
          by (rule tree_leaf [OF tree_sub [OF tree below_join same] file1(2) that])
        moreover have "fs_creat fs1 ?p" using creat cut by (simp add: fs_cut_def)
        ultimately have "fs_cut {q. below ?p q} fs1 (snd (remove fs1 ?p))" by (intro remove_cut file1)
        then show ?thesis using False fits leaf by (simp add: e path_buf_def)
      qed
      then show ?thesis using fs_cut_union [OF cut] False by (auto simp: e below_entries_snoc)
    qed
  qed
  then obtain fs1 where w: "walk ?f ents fs = Some fs1" and cut: "fs_cut (below_entries d ents) fs fs1" by blast
  have gone: "\<not> present fs1 q" if in_d: "below d q" "q \<noteq> d" for q
  proof
    assume "present fs1 q"
    then have q: "q \<notin> below_entries d ents" "present fs q" using cut_present [OF cut] by auto
    then obtain n k where "name_ok n" "entry_at fs d n k" "below (path_join d n) q"
      using tree_entry [OF tree in_d(1) _ in_d(2)] by blast
    then show False using q(1) all name_okD(3) unfolding below_entries_def by blast
  qed
  have out: "q \<in> below_entries d ents \<Longrightarrow> below d q \<and> q \<noteq> d" for q
    using below_joinD by (auto simp: below_entries_def)
  have dir1: "fs_dirs fs1 d" using cut dir out [of d] by (auto simp: fs_cut_def)
  have "\<exists>ents1. de_readdir env fs1 d = Some ents1"
    using lists [unfolded readdir_lists_def, rule_format, of d fs1] dir1 cut_present [OF cut] by auto
  then obtain ents1 where ents1: "de_readdir env fs1 d = Some ents1" by blast
  have "list_all (dot_entry \<circ> fst) ents1"
    unfolding list_all_iff
  proof
    fix e assume e: "e \<in> set ents1"
    have "path_join d (fst e) \<noteq> d" using join_not_below below_refl by metis
    then have "\<not> present fs1 (path_join d (fst e))" by (rule gone [OF below_join])
    then show "(dot_entry \<circ> fst) e"
      using readdir_entries(2) [OF assms(1) ents1, of "fst e" "snd e"] entry_present e by auto
  qed
  then have "fs_cut {q. below d q} fs (snd (rmdir env fs1 d))"
    using rmdir_cut [OF cut dir _ _ tree_excl [OF tree below_refl dir] _ ents1] creat out gone by simp
  moreover have "ugDeleteDirectory env fs d = Some (snd (rmdir env fs1 d))"
    by (subst ugDeleteDirectory.simps) (simp add: ents w)
  ultimately show ?case by simp
qed

section \<open>Changes below a directory\<close>

definition fs_below :: "path \<Rightarrow> fsys \<Rightarrow> fsys \<Rightarrow> bool" where
  "fs_below d fs fs' \<longleftrightarrow> (\<forall>q. \<not> below d q \<longrightarrow> fs_files fs' q = fs_files fs q \<and> fs_dirs fs' q = fs_dirs fs q) \<and>
     fs_creat fs' = fs_creat fs \<and> fs_keep fs' = fs_keep fs \<and> fs_fault fs' = fs_fault fs \<and> fs_stat fs' = fs_stat fs"

lemma fs_below_refl [simp]: "fs_below d fs fs"
  by (simp add: fs_below_def)

lemma fs_below_trans: "fs_below d fs fs1 \<Longrightarrow> fs_below d fs1 fs2 \<Longrightarrow> fs_below d fs fs2"
  by (simp add: fs_below_def)

lemma fs_below_wider: "fs_below r fs fs' \<Longrightarrow> below d r \<Longrightarrow> fs_below d fs fs'"
  using below_trans by (auto simp: fs_below_def)

lemma fs_belowD: "fs_below d fs fs' \<Longrightarrow> \<not> below d q \<Longrightarrow> fs_files fs' q = fs_files fs q \<and> fs_dirs fs' q = fs_dirs fs q"
  by (simp add: fs_below_def)

lemma remove_below: "below d p \<Longrightarrow> fs_below d fs (snd (remove fs p))"
  by (auto simp: fs_below_def remove_def)

lemma remove_present: "present (snd (remove fs p)) q \<Longrightarrow> present fs q"
  by (auto simp: remove_def present_def split: if_splits)

lemma rmdir_below: "below d p \<Longrightarrow> fs_below d fs (snd (rmdir env fs p))"
  by (auto simp: fs_below_def rmdir_def split: option.splits)

lemma rmdir_present: "present (snd (rmdir env fs p)) q \<Longrightarrow> present fs q"
  by (auto simp: rmdir_def present_def split: if_splits option.splits)

text \<open>On any medium the removal ends, adds nothing and stays below the directory.\<close>

lemma delete_directory_ends:
  assumes "readdir_sound env" "paths_fit env fs"
  shows "\<exists>fs'. ugDeleteDirectory env fs d = Some fs' \<and> fs_below d fs fs' \<and> (\<forall>q. present fs' q \<longrightarrow> present fs q)"
  using assms(2)
proof (induction "de_path_max env - length d" arbitrary: d fs rule: less_induct)
  case less
  show ?case
  proof (cases "de_readdir env fs d")
    case None
    then show ?thesis by (subst ugDeleteDirectory.simps) simp
  next
    case (Some ents)
    let ?f = "\<lambda>e fs. if dot_entry (fst e) then Some fs
            else do {
              path \<leftarrow> path_buf env (path_join d (fst e));
              if snd e then ugDeleteDirectory env fs path
              else Some (snd (remove fs path))
            }"
    have "\<exists>fs1. walk ?f ents fs = Some fs1 \<and> fs_below d fs fs1 \<and> (\<forall>q. present fs1 q \<longrightarrow> present fs q)"
    proof (rule walk_done [where I = "\<lambda>_ fs1. fs_below d fs fs1 \<and> (\<forall>q. present fs1 q \<longrightarrow> present fs q)"])
      fix xs e ys fs1
      assume split: "ents = xs @ e # ys" and inv: "fs_below d fs fs1 \<and> (\<forall>q. present fs1 q \<longrightarrow> present fs q)"
      obtain n k where e: "e = (n, k)" by force
      let ?p = "path_join d n"
      have "\<exists>fs2. ?f e fs1 = Some fs2 \<and> fs_below d fs1 fs2 \<and> (\<forall>q. present fs2 q \<longrightarrow> present fs1 q)"
      proof (cases "dot_entry n")
        case False
        have "present fs ?p"
          using readdir_entries(2) [OF assms(1) Some, of n k] split e False entry_present by auto
        then have fits: "length ?p < de_path_max env" using less.prems unfolding paths_fit_def by blast
        have fit1: "paths_fit env fs1" using less.prems inv by (simp add: paths_fit_def)
        have "de_path_max env - length ?p < de_path_max env - length d" using fits by simp
        from less.hyps [OF this fit1] obtain fs2 where fs2: "ugDeleteDirectory env fs1 ?p = Some fs2"
            "fs_below ?p fs1 fs2" "\<forall>q. present fs2 q \<longrightarrow> present fs1 q" by blast
        show ?thesis
        proof (cases k)
          case True
          then show ?thesis using False fits fs2 fs_below_wider [OF fs2(2) below_join] by (simp add: e path_buf_def)
        next
          case leaf: False
          then show ?thesis using False fits remove_below [OF below_join] remove_present
            by (simp add: e path_buf_def)
        qed
      qed (simp add: e)
      then obtain fs2 where "?f e fs1 = Some fs2" "fs_below d fs1 fs2" "\<forall>q. present fs2 q \<longrightarrow> present fs1 q" by blast
      moreover have "fs_below d fs fs2" by (rule fs_below_trans [of d fs fs1]) (use inv calculation(2) in simp_all)
      ultimately show "\<exists>fs2. ?f e fs1 = Some fs2 \<and> fs_below d fs fs2 \<and> (\<forall>q. present fs2 q \<longrightarrow> present fs q)"
        using inv by blast
    qed simp
    then obtain fs1 where w: "walk ?f ents fs = Some fs1" and inv: "fs_below d fs fs1" "\<forall>q. present fs1 q \<longrightarrow> present fs q"
      by blast
    have "ugDeleteDirectory env fs d = Some (snd (rmdir env fs1 d))"
      by (subst ugDeleteDirectory.simps) (simp add: Some w)
    then show ?thesis using inv fs_below_trans rmdir_below [OF below_refl] rmdir_present by blast
  qed
qed

text \<open>One entry that stands for a removal.\<close>

lemma remove_entry_ends:
  assumes "readdir_sound env" "paths_fit env fs" "length (path_join dest (drop 1 n)) < de_path_max env"
  shows "\<exists>fs'. remove_entry env fs dest (n, k) = Some fs' \<and> fs_below (path_join dest (drop 1 n)) fs fs' \<and>
    (\<forall>q. present fs' q \<longrightarrow> present fs q)"
  using delete_directory_ends [OF assms(1,2)] assms(3) remove_below [OF below_refl] remove_present
  by (auto simp: remove_entry_def path_buf_def)

section \<open>Restoring a directory\<close>

text \<open>
  \<open>plain fs d ns\<close>: the path \<open>ns\<close> below \<open>d\<close> is no removal entry and has no removal
  entry beside it.
\<close>

fun plain :: "fsys \<Rightarrow> path \<Rightarrow> bytes list \<Rightarrow> bool" where
  "plain fs d [] \<longleftrightarrow> True"
| "plain fs d (n # ns) \<longleftrightarrow> name_ok n \<and> \<not> is_removal n \<and> \<not> present fs (path_join d (126 # n)) \<and>
     plain fs (path_join d n) ns"

definition path_of :: "path \<Rightarrow> bytes list \<Rightarrow> path" where
  "path_of d ns = foldl path_join d ns"

lemma path_of_simps [simp]: "path_of d [] = d" "path_of d (n # ns) = path_of (path_join d n) ns"
  by (simp_all add: path_of_def)

lemma below_path_of [simp]: "below d (path_of d ns)"
proof (induction ns arbitrary: d)
  case (Cons n ns)
  show ?case using below_joinD [OF Cons.IH] by simp
qed simp

text \<open>The plain files below \<open>src\<close> in \<open>fs\<close> are below \<open>dest\<close> in \<open>fs'\<close>.\<close>

definition restored :: "fsys \<Rightarrow> path \<Rightarrow> fsys \<Rightarrow> path \<Rightarrow> bool" where
  "restored fs src fs' dest \<longleftrightarrow> (\<forall>ns b. plain fs src ns \<and> fs_files fs (path_of src ns) = Some b \<longrightarrow>
     fs_files fs' (path_of dest ns) = Some b)"

lemma length_path_of: "length d + length ns \<le> length (path_of d ns)"
proof (induction ns arbitrary: d)
  case (Cons n ns)
  show ?case using Cons.IH [of "path_join d n"] by simp
qed simp

lemma plain_cong:
  "(\<And>q. below p q \<Longrightarrow> present fs' q = present fs q) \<Longrightarrow> plain fs' p ns = plain fs p ns"
proof (induction ns arbitrary: p)
  case (Cons n ns)
  have "plain fs' (path_join p n) ns = plain fs (path_join p n) ns"
    by (rule Cons.IH) (use Cons.prems below_joinD in blast)
  then show ?case using Cons.prems by simp
qed simp

lemma restored_cong:
  assumes "\<And>q. below p q \<Longrightarrow> fs_files fs' q = fs_files fs q \<and> fs_dirs fs' q = fs_dirs fs q"
  shows "restored fs' p fs2 d = restored fs p fs2 d"
proof -
  have "plain fs' p ns = plain fs p ns" for ns by (rule plain_cong) (simp add: present_def assms)
  then show ?thesis using assms by (simp add: restored_def)
qed

text \<open>A file below a directory is found through the first name of its path.\<close>

lemma present_path_of:
  assumes "fs_tree fs d" "below d p" "plain fs p ns" "present fs (path_of p ns)"
  shows "present fs p"
  using assms(2-)
proof (induction ns arbitrary: p)
  case (Cons n ns)
  have below: "below d (path_join p n)" using Cons.prems(1) below_trans below_join by blast
  have "present fs (path_join p n)" by (rule Cons.IH) (use Cons.prems below in auto)
  moreover have "path_join p n \<noteq> d" using Cons.prems(1) by auto
  ultimately have "fs_dirs fs p" using tree_parent [OF assms(1) below] Cons.prems(2) by simp
  then show ?case by (simp add: present_def)
qed simp

lemma restored_entries:
  assumes tree: "fs_tree fs src" and dir: "fs_dirs fs src"
    and all: "\<And>n k. name_ok n \<Longrightarrow> entry_at fs src n k \<Longrightarrow> (n, k) \<in> set ents"
    and each: "\<And>n k. (n, k) \<in> set ents \<Longrightarrow> plain fs src [n] \<Longrightarrow> restored fs (path_join src n) fs' (path_join dest n)"
  shows "restored fs src fs' dest"
  unfolding restored_def
proof (intro allI impI)
  fix ns b
  assume ns: "plain fs src ns \<and> fs_files fs (path_of src ns) = Some b"
  show "fs_files fs' (path_of dest ns) = Some b"
  proof (cases ns)
    case Nil
    then show ?thesis using ns tree_excl [OF tree below_refl dir] by simp
  next
    case (Cons n ms)
    then have plain: "plain fs src [n]" "plain fs (path_join src n) ms" using ns by auto
    have "present fs (path_join src n)"
      using present_path_of [OF tree below_join plain(2)] ns Cons by (simp add: present_def)
    then have "entry_at fs src n (fs_dirs fs (path_join src n))" by (auto simp: entry_at_def present_def)
    then have "(n, fs_dirs fs (path_join src n)) \<in> set ents" using all plain(1) by simp
    then show ?thesis using each [OF _ plain(1)] ns Cons by (simp add: restored_def)
  qed
qed

lemma restored_keep:
  assumes "restored fs p fs1 d" "fs_below r fs1 fs2" "\<And>q. \<not> (below d q \<and> below r q)"
  shows "restored fs p fs2 d"
  using assms fs_belowD [OF assms(2)] below_path_of unfolding restored_def by metis

text \<open>The two trees have nothing in common.\<close>

definition apart :: "path \<Rightarrow> path \<Rightarrow> bool" where
  "apart p q \<longleftrightarrow> \<not> below p q \<and> \<not> below q p"

lemma apart_below: "apart p q \<Longrightarrow> below p r \<Longrightarrow> \<not> below q r"
  using below_both by (auto simp: apart_def)

lemma apart_sub: "apart p q \<Longrightarrow> below p p' \<Longrightarrow> below q q' \<Longrightarrow> apart p' q'"
  unfolding apart_def by (meson below_both below_trans)

text \<open>
  Nothing in the way: the medium is sound, memory does not run out, the space on it is not reported, there
  is nothing below the destination, no removal entry below the source, and room for all its files.
\<close>

definition files_below :: "fsys \<Rightarrow> path \<Rightarrow> path set" where
  "files_below fs d = {q. below d q \<and> fs_files fs q \<noteq> None}"

definition weight :: "fsys \<Rightarrow> path \<Rightarrow> nat" where
  "weight fs d = (\<Sum>q \<in> files_below fs d. length (file_bytes fs q))"

definition good_medium :: "dir_env \<Rightarrow> fsys \<Rightarrow> bool" where
  "good_medium env fs \<longleftrightarrow> fs_sound fs \<and> (\<forall>n. de_malloc env n \<noteq> None) \<and> de_statvfs env = (\<lambda>_. None) \<and>
     (\<forall>q. fs_creat fs q)"

definition bare :: "fsys \<Rightarrow> path \<Rightarrow> bool" where
  "bare fs d \<longleftrightarrow> (\<forall>q. below d q \<longrightarrow> \<not> present fs q)"

definition unobstructed :: "dir_env \<Rightarrow> fsys \<Rightarrow> path \<Rightarrow> path \<Rightarrow> bool" where
  "unobstructed env fs dest src \<longleftrightarrow> good_medium env fs \<and> (\<forall>n. bare fs (path_join dest n)) \<and>
     (\<forall>d n. below src d \<and> present fs (path_join d n) \<longrightarrow> \<not> is_removal n) \<and>
     finite (files_below fs src) \<and> weight fs src \<le> fs_room fs"

definition weights :: "fsys \<Rightarrow> path \<Rightarrow> (bytes \<times> bool) list \<Rightarrow> nat" where
  "weights fs d es = (\<Sum>e \<leftarrow> es. if dot_entry (fst e) then 0 else weight fs (path_join d (fst e)))"

lemma weights_snoc [simp]: "weights fs d [] = 0"
  "weights fs d (es @ [e]) = weights fs d es + (if dot_entry (fst e) then 0 else weight fs (path_join d (fst e)))"
  by (simp_all add: weights_def)

lemma weights_le:
  assumes "finite (files_below fs d)" "distinct (map fst es)" "\<And>n k. (n, k) \<in> set es \<Longrightarrow> \<not> dot_entry n \<Longrightarrow> name_ok n"
  shows "weights fs d es \<le> weight fs d"
proof -
  let ?w = "\<lambda>q. length (file_bytes fs q)" and ?Z = "\<lambda>es. below_entries d es \<inter> files_below fs d"
  have "weights fs d es = sum ?w (?Z es)" using assms(2,3)
  proof (induction es rule: rev_induct)
    case (snoc e es)
    have ih: "weights fs d es = sum ?w (?Z es)" by (rule snoc.IH) (use snoc.prems in auto)
    obtain n k where e: "e = (n, k)" by force
    show ?case
    proof (cases "dot_entry n")
      case True
      then show ?thesis using ih by (simp add: e below_entries_snoc)
    next
      case False
      have n: "47 \<notin> set n" using snoc.prems(2) [of n k] False name_okD(2) e by auto
      have "\<not> below (path_join d n) q" if in_es: "q \<in> below_entries d es" for q
      proof -
        obtain m j where m: "(m, j) \<in> set es" "\<not> dot_entry m" "below (path_join d m) q"
          using in_es by (auto simp: below_entries_def)
        then have "47 \<notin> set m" "m \<noteq> n" using snoc.prems name_okD(2) e by force+
        then show ?thesis using below_siblings n m(3) by blast
      qed
      then have "?Z es \<inter> files_below fs (path_join d n) = {}" by (auto simp: files_below_def)
      moreover have "?Z (es @ [e]) = ?Z es \<union> files_below fs (path_join d n)"
        using False below_joinD by (auto simp: e below_entries_snoc files_below_def)
      moreover have "files_below fs (path_join d n) \<subseteq> files_below fs d"
        using below_joinD by (auto simp: files_below_def)
      ultimately show ?thesis
        using ih False assms(1) sum.union_disjoint [of "?Z es" "files_below fs (path_join d n)" ?w]
        by (simp add: e weight_def finite_subset)
    qed
  qed (simp add: below_entries_def)
  also have "\<dots> \<le> weight fs d" unfolding weight_def by (rule sum_mono2) (use assms(1) in auto)
  finally show ?thesis .
qed

lemma weight_cong:
  assumes "\<And>q. below d q \<Longrightarrow> fs_files fs' q = fs_files fs q"
  shows "files_below fs' d = files_below fs d" "weight fs' d = weight fs d"
proof -
  show "files_below fs' d = files_below fs d" using assms by (auto simp: files_below_def)
  then show "weight fs' d = weight fs d"
    unfolding weight_def by (intro sum.cong) (use assms in \<open>auto simp: files_below_def file_bytes_def\<close>)
qed

lemma good_medium_below: "fs_below d fs fs' \<Longrightarrow> good_medium env fs' = good_medium env fs"
  by (simp add: good_medium_def fs_below_def fs_sound_def)

lemma bare_keep: "bare fs d \<Longrightarrow> fs_below r fs fs' \<Longrightarrow> (\<And>q. \<not> (below d q \<and> below r q)) \<Longrightarrow> bare fs' d"
  by (auto simp: bare_def fs_below_def present_def)

lemma restore_file_result:
  assumes "alloc_sized (de_malloc env)" "0 < unat (de_bufsize env)" "paths_fit env fs"
    and "fs_files fs (path_join src n) = Some b" "length b < 2 ^ 31" "apart src dest" "length dest \<le> length src"
  shows "\<exists>ret fs'. restore_file env fs dest src n = Some (ret, fs') \<and> fs_below (path_join dest n) fs fs' \<and>
    paths_fit env fs' \<and> (ret = 0 \<longrightarrow> fs_files fs' (path_join dest n) = Some b) \<and>
    fs_room fs \<le> fs_room fs' + length b \<and>
    (good_medium env fs \<and> bare fs (path_join dest n) \<and> length b \<le> fs_room fs \<longrightarrow> ret = 0)"
proof -
  have pres: "present fs (path_join src n)" using assms(4) by (simp add: present_def)
  then have "length (path_join src n) < de_path_max env" using assms(3) unfolding paths_fit_def by blast
  then have fits: "length (path_join src n) < de_path_max env" "length (path_join dest n) < de_path_max env"
    using assms(7) by simp_all
  have ne: "path_join src n \<noteq> path_join dest n" using assms(6) apart_below below_join by metis
  obtain ret fs' where copy: "copy_file env fs (path_join dest n) (path_join src n) = Some (ret, fs')"
      "fs_same (path_join dest n) fs fs'" "ret = 0 \<longrightarrow> fs_files fs' (path_join dest n) = Some b"
      "fs_room fs \<le> fs_room fs' + length b"
      "(\<forall>n. de_malloc env n \<noteq> None) \<and> fs_sound fs \<and> writable fs (path_join dest n) \<and> length b \<le> fs_room fs \<and>
      \<not> out_of_space (de_statvfs env) fs (path_join dest n) (path_join dest n) (word_of_nat (length b)) \<longrightarrow> ret = 0"
    using copy_file_result [OF assms(4,5) ne assms(1,2), of "de_statvfs env"] unfolding copy_file_def by blast
  have "ret = 0" if "good_medium env fs" "bare fs (path_join dest n)" "length b \<le> fs_room fs"
  proof -
    have "\<not> fs_dirs fs (path_join dest n)" using that(2) below_refl unfolding bare_def present_def by blast
    then show ?thesis using copy(5) that(1,3) by (auto simp: good_medium_def writable_def out_of_space_def)
  qed
  note live = this
  have "fs_files fs' q = fs_files fs q" if "\<not> below (path_join dest n) q" for q
  proof -
    have "q \<noteq> path_join dest n" using that below_refl by blast
    then show ?thesis using copy(2) by (simp add: fs_same_def)
  qed
  then have "fs_below (path_join dest n) fs fs'" using copy(2) by (simp add: fs_same_def fs_below_def)
  moreover have "paths_fit env fs'"
    unfolding paths_fit_def
  proof (intro allI impI)
    fix q assume "present fs' q"
    then have "q = path_join dest n \<or> present fs q" using copy(2) by (auto simp: fs_same_def present_def)
    then show "length q < de_path_max env" using fits(2) assms(3) unfolding paths_fit_def by blast
  qed
  ultimately show ?thesis using copy(1,3,4) live fits by (simp add: restore_file_def path_buf_def)
qed

text \<open>The body of the loop, and what one entry changes.\<close>

definition restore_entry :: "dir_env \<Rightarrow> path \<Rightarrow> path \<Rightarrow> bytes \<times> bool \<Rightarrow> int \<times> fsys \<Rightarrow> (int \<times> fsys) option" where
  "restore_entry env dest src = (\<lambda>e (ret, fs).
     if dot_entry (fst e) then Some (ret, fs)
     else if is_removal (fst e) then do {
       fs \<leftarrow> remove_entry env fs dest e;
       Some (ret, fs)
     }
     else if snd e then do {
       destPath \<leftarrow> path_buf env (path_join dest (fst e));
       let (ret1, fs) = mkdir fs destPath;
       if ret1 \<noteq> 0 then Some (first_error ret ret1, fs)
       else do {
         srcPath \<leftarrow> path_buf env (path_join src (fst e));
         (ret1, fs) \<leftarrow> ugRestoreDir env fs destPath srcPath;
         Some (first_error ret ret1, fs)
       }
     }
     else do {
       (ret1, fs) \<leftarrow> restore_file env fs dest src (fst e);
       Some (first_error ret ret1, fs)
     })"

lemma restore_unfold:
  "ugRestoreDir env fs dest src = (case de_readdir env fs src of
     None \<Rightarrow> Some (193, fs) | Some ents \<Rightarrow> walk (restore_entry env dest src) ents (0, fs))"
  by (subst ugRestoreDir.simps) (simp only: restore_entry_def)

definition small_files :: "fsys \<Rightarrow> path \<Rightarrow> bool" where
  "small_files fs src \<longleftrightarrow> (\<forall>q b. below src q \<and> fs_files fs q = Some b \<longrightarrow> length b < 2 ^ 31)"

text \<open>What a restoration needs, and what it does.\<close>

definition restore_ready :: "dir_env \<Rightarrow> fsys \<Rightarrow> path \<Rightarrow> path \<Rightarrow> bool" where
  "restore_ready env fs dest src \<longleftrightarrow> paths_fit env fs \<and> readdir_lists env fs src \<and> fs_tree fs src \<and>
     fs_dirs fs src \<and> small_files fs src \<and> apart src dest \<and> length dest \<le> length src"

definition restore_does :: "dir_env \<Rightarrow> fsys \<Rightarrow> path \<Rightarrow> path \<Rightarrow> bool" where
  "restore_does env fs dest src \<longleftrightarrow> (\<exists>ret fs'. ugRestoreDir env fs dest src = Some (ret, fs') \<and>
     fs_below dest fs fs' \<and> paths_fit env fs' \<and> (ret = 0 \<longrightarrow> restored fs src fs' dest) \<and>
     (unobstructed env fs dest src \<longrightarrow> ret = 0 \<and> fs_room fs \<le> fs_room fs' + weight fs src))"

lemma first_error_0: "first_error ret ret1 = 0 \<longleftrightarrow> ret = 0 \<and> ret1 = 0"
  by (simp add: first_error_def)

lemma mkdir_below: "mkdir fs p = (ret, fs') \<Longrightarrow> fs_below p fs fs' \<and>
    (\<forall>q. present fs' q \<longrightarrow> present fs q \<or> q = p) \<and> (ret \<noteq> 0 \<longrightarrow> fs' = fs) \<and> fs_room fs' = fs_room fs \<and>
    (fs_creat fs p \<and> \<not> present fs p \<longrightarrow> ret = 0)"
  by (auto simp: mkdir_def fs_below_def present_def split: if_splits)

lemma restore_ready_sub:
  assumes "restore_ready env fs dest src" "fs_below dest fs fs1" "paths_fit env fs1" "name_ok n"
    and "fs_dirs fs (path_join src n)"
  shows "restore_ready env fs1 (path_join dest n) (path_join src n)"
proof -
  note r = assms(1) [unfolded restore_ready_def]
  have same: "fs_files fs1 q = fs_files fs q \<and> fs_dirs fs1 q = fs_dirs fs q" if "below src q" for q
    using fs_belowD [OF assms(2)] apart_below that r by blast
  then have same': "fs_files fs1 q = fs_files fs q \<and> fs_dirs fs1 q = fs_dirs fs q" if "below (path_join src n) q" for q
    using that below_joinD by blast
  have "readdir_lists env fs1 (path_join src n)"
    by (rule readdir_lists_sub [OF _ below_join, of env fs]) (use r same' in \<open>auto simp: present_def\<close>)
  moreover have "fs_tree fs1 (path_join src n)" using tree_sub [OF _ below_join same'] r by blast
  moreover have "fs_dirs fs1 (path_join src n)" using same' assms(5) below_refl by blast
  moreover have "small_files fs1 (path_join src n)" using r same' below_joinD unfolding small_files_def by metis
  moreover have "apart (path_join src n) (path_join dest n)" using apart_sub [OF _ below_join below_join] r by blast
  ultimately show ?thesis using assms(3) r by (simp add: restore_ready_def)
qed

lemma unobstructed_sub:
  assumes "unobstructed env fs dest src" "bare fs1 (path_join dest n)" "fs_below dest fs fs2"
    and "\<forall>q. present fs2 q \<longrightarrow> present fs1 q \<or> q = path_join dest n"
    and same: "\<And>q. below (path_join src n) q \<Longrightarrow> fs_files fs2 q = fs_files fs q \<and> fs_dirs fs2 q = fs_dirs fs q"
    and "weight fs (path_join src n) \<le> fs_room fs2"
  shows "unobstructed env fs2 (path_join dest n) (path_join src n)"
proof -
  note u = assms(1) [unfolded unobstructed_def]
  note w = weight_cong [of "path_join src n" fs2 fs, OF conjunct1 [OF same]]
  have "bare fs2 (path_join (path_join dest n) m)" for m
    unfolding bare_def
  proof (intro allI impI)
    fix q assume q: "below (path_join (path_join dest n) m) q"
    then have "q \<noteq> path_join dest n" by auto
    then show "\<not> present fs2 q" using assms(2,4) below_joinD [OF q] unfolding bare_def by blast
  qed
  moreover have "\<not> is_removal m" if "below (path_join src n) d" "present fs2 (path_join d m)" for d m
  proof -
    have "present fs (path_join d m)"
      using that same [of "path_join d m"] below_trans [OF that(1) below_join] by (simp add: present_def)
    then show ?thesis using u below_joinD [OF that(1)] by blast
  qed
  then have "\<forall>d m. below (path_join src n) d \<and> present fs2 (path_join d m) \<longrightarrow> \<not> is_removal m" by blast
  moreover have "finite (files_below fs (path_join src n))"
    by (rule finite_subset [of _ "files_below fs src"]) (use u below_joinD in \<open>auto simp: files_below_def\<close>)
  ultimately show ?thesis using u assms(6) w good_medium_below [OF assms(3)] by (simp add: unobstructed_def)
qed

text \<open>The place an entry changes.\<close>

definition target :: "path \<Rightarrow> bytes \<Rightarrow> path" where
  "target dest n = path_join dest (if is_removal n then drop 1 n else n)"

lemma restore_entry_result:
  assumes env: "readdir_sound env" "alloc_sized (de_malloc env)" "0 < unat (de_bufsize env)"
    and ready: "restore_ready env fs dest src" and below: "fs_below dest fs fs1" and fit1: "paths_fit env fs1"
    and entry: "\<not> dot_entry n" "name_ok n" "entry_at fs src n k"
    and ih: "\<And>fs2. k \<Longrightarrow> restore_ready env fs2 (path_join dest n) (path_join src n) \<Longrightarrow>
      restore_does env fs2 (path_join dest n) (path_join src n)"
  shows "\<exists>ret' fs'. restore_entry env dest src (n, k) (ret, fs1) = Some (ret', fs') \<and> fs_below (target dest n) fs1 fs' \<and>
    paths_fit env fs' \<and> (ret' = 0 \<longrightarrow> ret = 0 \<and>
      (\<not> is_removal n \<longrightarrow> restored fs (path_join src n) fs' (path_join dest n))) \<and>
    (unobstructed env fs dest src \<and> bare fs1 (path_join dest n) \<and> weight fs (path_join src n) \<le> fs_room fs1 \<longrightarrow>
      (ret = 0 \<longrightarrow> ret' = 0) \<and> fs_room fs1 \<le> fs_room fs' + weight fs (path_join src n))"
proof -
  note r = ready [unfolded restore_ready_def]
  have same: "fs_files fs1 q = fs_files fs q \<and> fs_dirs fs1 q = fs_dirs fs q" if "below src q" for q
    using fs_belowD [OF below] apart_below that r by blast
  have "length (path_join src n) < de_path_max env"
    using r entry_present [OF entry(3)] unfolding paths_fit_def by blast
  moreover have "length dest \<le> length src" using r by simp
  ultimately have fits: "length (path_join src n) < de_path_max env" "length (path_join dest n) < de_path_max env"
      "length (path_join dest (drop 1 n)) < de_path_max env" by auto
  consider (gone) "is_removal n" | (dir) "\<not> is_removal n" k | (leaf) "\<not> is_removal n" "\<not> k" by blast
  then show ?thesis
  proof cases
    case gone
    then have "\<not> unobstructed env fs dest src"
      using entry_present [OF entry(3)] unfolding unobstructed_def by (meson below_refl)
    then show ?thesis
      using remove_entry_ends [OF env(1) fit1 fits(3), of k] entry(1) fit1 gone
      by (auto simp: restore_entry_def target_def paths_fit_def)
  next
    case dir
    obtain r1 fs2 where mk: "mkdir fs1 (path_join dest n) = (r1, fs2)" by force
    note mk' = mkdir_below [OF mk]
    have fit2: "paths_fit env fs2" using mk' fit1 fits(2) unfolding paths_fit_def by blast
    show ?thesis
    proof (cases "r1 = 0")
      case False
      then have "\<not> (unobstructed env fs dest src \<and> bare fs1 (path_join dest n))"
        using mk' good_medium_below [OF below] below_refl unfolding unobstructed_def bare_def good_medium_def by blast
      then show ?thesis using False mk mk' entry(1) dir fits(2) fit1
        by (auto simp: restore_entry_def path_buf_def first_error_0 target_def)
    next
      case True
      have below2: "fs_below dest fs fs2"
        using fs_below_trans [OF below] fs_below_wider [OF _ below_join] mk' by blast
      have "fs_dirs fs (path_join src n)" using entry(3) dir(2) by (simp add: entry_at_def)
      then have "restore_ready env fs2 (path_join dest n) (path_join src n)"
        by (rule restore_ready_sub [OF ready below2 fit2 entry(2)])
      from ih [OF dir(2) this] obtain ret2 fs3 where sub: "ugRestoreDir env fs2 (path_join dest n) (path_join src n) = Some (ret2, fs3)"
        "fs_below (path_join dest n) fs2 fs3" "paths_fit env fs3" "ret2 = 0 \<longrightarrow> restored fs2 (path_join src n) fs3 (path_join dest n)"
        "unobstructed env fs2 (path_join dest n) (path_join src n) \<longrightarrow>
          ret2 = 0 \<and> fs_room fs2 \<le> fs_room fs3 + weight fs2 (path_join src n)"
        unfolding restore_does_def by blast
      have same2: "fs_files fs2 q = fs_files fs q \<and> fs_dirs fs2 q = fs_dirs fs q" if "below (path_join src n) q" for q
        by (rule fs_belowD [OF below2]) (use that below_joinD apart_below r in blast)
      note w2 = weight_cong [of "path_join src n" fs2 fs, OF conjunct1 [OF same2]]
      have live: "unobstructed env fs2 (path_join dest n) (path_join src n)"
        if "unobstructed env fs dest src" "bare fs1 (path_join dest n)" "weight fs (path_join src n) \<le> fs_room fs1"
        by (rule unobstructed_sub [OF that(1,2) below2 mk' [THEN conjunct2, THEN conjunct1] same2])
          (use mk' that(3) w2 in auto)
      have "restored fs2 (path_join src n) fs3 (path_join dest n) = restored fs (path_join src n) fs3 (path_join dest n)"
        by (rule restored_cong [OF same2])
      moreover have "fs_below (path_join dest n) fs1 fs3" using fs_below_trans mk' sub(2) by blast
      moreover have "restore_entry env dest src (n, k) (ret, fs1) = Some (first_error ret ret2, fs3)"
        using dir entry(1) fits mk True sub(1) by (simp add: restore_entry_def path_buf_def)
      ultimately show ?thesis using sub(3,4,5) live mk' w2 dir(1) by (auto simp: first_error_0 target_def)
    qed
  next
    case leaf
    obtain b where b: "fs_files fs1 (path_join src n) = Some b" "length b < 2 ^ 31" "\<not> fs_dirs fs (path_join src n)"
      using same [OF below_join] entry(3) leaf(2) r unfolding entry_at_def small_files_def
      by (metis below_join option.exhaust)
    obtain ret2 fs2 where copy: "restore_file env fs1 dest src n = Some (ret2, fs2)" "fs_below (path_join dest n) fs1 fs2"
        "paths_fit env fs2" "ret2 = 0 \<longrightarrow> fs_files fs2 (path_join dest n) = Some b" "fs_room fs1 \<le> fs_room fs2 + length b"
        "good_medium env fs1 \<and> bare fs1 (path_join dest n) \<and> length b \<le> fs_room fs1 \<longrightarrow> ret2 = 0"
      using restore_file_result [OF env(2,3) fit1 b(1,2), of dest] r by blast
    have "weight fs (path_join src n) = length b"
    proof -
      have "fs_files fs (path_join src n) = Some b" using b(1) same [OF below_join] by simp
      moreover from this have "files_below fs (path_join src n) = {path_join src n}"
        using tree_leaf [OF tree_sub [where d = src and fs = fs] b(3)] r
        by (auto simp: files_below_def present_def)
      ultimately show ?thesis by (simp add: weight_def file_bytes_def)
    qed
    note w = this
    have tr: "fs_tree fs (path_join src n)" by (rule tree_sub [where d = src and fs = fs]) (use r in simp_all)
    have "restored fs (path_join src n) fs2 (path_join dest n)" if ok: "ret2 = 0"
      unfolding restored_def
    proof (intro allI impI)
      fix ns c
      assume ns: "plain fs (path_join src n) ns \<and> fs_files fs (path_of (path_join src n) ns) = Some c"
      have "path_of (path_join src n) ns = path_join src n"
        by (rule tree_leaf [OF tr b(3) below_path_of]) (use ns in \<open>simp add: present_def\<close>)
      then have "ns = []" using length_path_of [of "path_join src n" ns] by simp
      then show "fs_files fs2 (path_of (path_join dest n) ns) = Some c"
        using ns copy(4) ok b(1) same [OF below_join] by simp
    qed
    moreover have "unobstructed env fs dest src \<Longrightarrow> good_medium env fs1"
      using good_medium_below [OF below] by (simp add: unobstructed_def)
    ultimately show ?thesis using copy w leaf entry(1) by (auto simp: restore_entry_def first_error_0 target_def)
  qed
qed

text \<open>An entry leaves what the entries before it restored.\<close>

lemma target_apart:
  assumes "name_ok n" "name_ok m" "n \<noteq> m" "is_removal n \<Longrightarrow> n \<noteq> 126 # m"
  shows "\<not> (below (path_join dest m) q \<and> below (target dest n) q)"
proof -
  let ?n = "if is_removal n then drop 1 n else n"
  have "47 \<notin> set ?n" using name_okD(2) [OF assms(1)] by (auto dest: in_set_dropD)
  moreover have "?n \<noteq> m"
  proof (cases "is_removal n")
    case True
    then have "n = 126 # drop 1 n" by (cases n) (auto simp: is_removal_def)
    then show ?thesis using assms(4) True by metis
  qed (use assms(3) in simp)
  ultimately show ?thesis using below_siblings [of m ?n dest q] name_okD(2) [OF assms(2)] by (simp add: target_def)
qed

lemma restore_dir_result:
  assumes env: "readdir_sound env" "alloc_sized (de_malloc env)" "0 < unat (de_bufsize env)"
    and "restore_ready env fs dest src"
  shows "restore_does env fs dest src"
  using assms(4)
proof (induction "de_path_max env - length src" arbitrary: fs dest src rule: less_induct)
  case less
  note ready = less.prems and r = less.prems [unfolded restore_ready_def]
  obtain ents where ents: "de_readdir env fs src = Some ents"
    and all: "\<And>n k. name_ok n \<Longrightarrow> entry_at fs src n k \<Longrightarrow> (n, k) \<in> set ents"
    using r unfolding readdir_lists_def by (meson below_refl)
  note dist = readdir_entries(1) [OF env(1) ents] and real = readdir_entries(2) [OF env(1) ents]
  let ?I = "\<lambda>xs (ret :: int, fs1). fs_below dest fs fs1 \<and> paths_fit env fs1 \<and> (ret = 0 \<longrightarrow>
      (\<forall>n k. (n, k) \<in> set xs \<longrightarrow> plain fs src [n] \<longrightarrow> restored fs (path_join src n) fs1 (path_join dest n))) \<and>
      (unobstructed env fs dest src \<longrightarrow> ret = 0 \<and> fs_room fs \<le> fs_room fs1 + weights fs src xs \<and>
        (\<forall>n. name_ok n \<longrightarrow> n \<notin> fst ` set xs \<longrightarrow> bare fs1 (path_join dest n)))"
  have "\<exists>s. walk (restore_entry env dest src) ents (0, fs) = Some s \<and> ?I ents s"
  proof (rule walk_done [where I = ?I])
    show "?I [] (0, fs)" using r by (simp add: unobstructed_def)
    fix xs e ys s
    assume split: "ents = xs @ e # ys" and inv: "?I xs s"
    obtain n k ret fs1 where e: "e = (n, k)" and s: "s = (ret, fs1)" by (metis surj_pair)
    show "\<exists>s'. restore_entry env dest src e s = Some s' \<and> ?I (xs @ [e]) s'"
    proof (cases "dot_entry n")
      case True
      then have "\<not> plain fs src [n]" using name_okD(3) by auto
      with True inv show ?thesis by (auto simp: restore_entry_def e s)
    next
      case False
      then have ok: "name_ok n" "entry_at fs src n k" using real [of n k] split e by auto
      have sub: "restore_does env fs2 (path_join dest n) (path_join src n)"
        if "k" "restore_ready env fs2 (path_join dest n) (path_join src n)" for fs2
      proof (rule less.hyps [OF _ that(2)])
        have "length (path_join src n) < de_path_max env"
          using r entry_present [OF ok(2)] unfolding paths_fit_def by blast
        then show "de_path_max env - length (path_join src n) < de_path_max env - length src" by simp
      qed
      have "fs_below dest fs fs1" "paths_fit env fs1" using inv by (simp_all add: s)
      from restore_entry_result [OF env ready this False ok sub, of ret]
      obtain ret' fs2 where step: "restore_entry env dest src (n, k) (ret, fs1) = Some (ret', fs2)"
          "fs_below (target dest n) fs1 fs2" "paths_fit env fs2" "ret' = 0 \<longrightarrow> ret = 0 \<and>
            (\<not> is_removal n \<longrightarrow> restored fs (path_join src n) fs2 (path_join dest n))"
          "unobstructed env fs dest src \<and> bare fs1 (path_join dest n) \<and> weight fs (path_join src n) \<le> fs_room fs1 \<longrightarrow>
            (ret = 0 \<longrightarrow> ret' = 0) \<and> fs_room fs1 \<le> fs_room fs2 + weight fs (path_join src n)" by blast
      have "fs_below dest fs fs2"
        using fs_below_trans fs_below_wider [OF step(2)] below_join inv unfolding target_def s by auto
      moreover have "restored fs (path_join src m) fs2 (path_join dest m)"
        if ok': "ret' = 0" "(m, j) \<in> set (xs @ [e])" "plain fs src [m]" for m j
      proof (cases "m = n")
        case True
        then show ?thesis using step(4) ok'(1,3) by simp
      next
        case ne: False
        then have m: "(m, j) \<in> set xs" "name_ok m" using ok' e by auto
        have "restored fs (path_join src m) fs1 (path_join dest m)" using inv m(1) ok'(1,3) step(4) unfolding s prod.case by blast
        moreover have "n \<noteq> 126 # m" using ok'(3) entry_present [OF ok(2)] by auto
        ultimately show ?thesis using restored_keep step(2) target_apart [OF ok(1) m(2)] ne by metis
      qed
      moreover have "ret' = 0 \<and> fs_room fs \<le> fs_room fs2 + weights fs src (xs @ [e]) \<and>
          (\<forall>m. name_ok m \<longrightarrow> m \<notin> fst ` set (xs @ [e]) \<longrightarrow> bare fs2 (path_join dest m))"
        if u: "unobstructed env fs dest src"
      proof -
        note u' = u [unfolded unobstructed_def]
        have i: "ret = 0" "fs_room fs \<le> fs_room fs1 + weights fs src xs"
            "\<And>m. name_ok m \<Longrightarrow> m \<notin> fst ` set xs \<Longrightarrow> bare fs1 (path_join dest m)"
          using inv u unfolding s prod.case by blast+
        have "weights fs src (xs @ [e]) \<le> weight fs src"
        proof (rule weights_le)
          show "finite (files_below fs src)" using u' by blast
          show "distinct (map fst (xs @ [e]))" using dist by (simp add: split)
          show "name_ok m" if "(m, j) \<in> set (xs @ [e])" "\<not> dot_entry m" for m j
            using real [of m j] that split by auto
        qed
        then have "weights fs src xs + weight fs (path_join src n) \<le> fs_room fs" using u' False by (simp add: e)
        moreover have "n \<notin> fst ` set xs" using dist split by (simp add: e)
        ultimately have "ret' = 0" "fs_room fs1 \<le> fs_room fs2 + weight fs (path_join src n)"
          using step(5) u i(1,2) i(3) [OF ok(1)] by auto
        moreover have "bare fs2 (path_join dest m)" if m: "name_ok m" "m \<notin> fst ` set (xs @ [e])" for m
        proof (rule bare_keep [OF _ step(2)])
          show "bare fs1 (path_join dest m)" by (rule i(3)) (use m in auto)
          have "\<not> is_removal n" using u' entry_present [OF ok(2)] below_refl by blast
          then show "\<not> (below (path_join dest m) q \<and> below (target dest n) q)" for q
            using target_apart [OF ok(1) m(1)] m(2) by (auto simp: e)
        qed
        ultimately show ?thesis using i(2) False by (simp add: e)
      qed
      ultimately have "?I (xs @ [e]) (ret', fs2)" using step(3) unfolding prod.case by blast
      then show ?thesis using step(1) unfolding e s by blast
    qed
  qed
  then obtain s where s: "walk (restore_entry env dest src) ents (0, fs) = Some s" "?I ents s" by blast
  obtain ret fs' where "s = (ret, fs')" by (cases s)
  then have w: "walk (restore_entry env dest src) ents (0, fs) = Some (ret, fs')" and inv: "?I ents (ret, fs')"
    using s by simp_all
  have "restored fs src fs' dest" if "ret = 0"
    by (rule restored_entries [OF _ _ all]) (use r inv that in auto)
  moreover have "ugRestoreDir env fs dest src = Some (ret, fs')" using w by (simp add: restore_unfold ents)
  moreover have "ret = 0 \<and> fs_room fs \<le> fs_room fs' + weight fs src" if u: "unobstructed env fs dest src"
  proof -
    have "weights fs src ents \<le> weight fs src"
      by (rule weights_le [OF _ dist conjunct1 [OF real]]) (use u in \<open>simp add: unobstructed_def\<close>)
    moreover have "ret = 0 \<and> fs_room fs \<le> fs_room fs' + weights fs src ents" using inv u unfolding prod.case by blast
    ultimately show ?thesis by simp
  qed
  ultimately show ?case using inv unfolding restore_does_def prod.case by blast
qed

text \<open>A directory that is there already.\<close>

lemma restore_existing:
  assumes env: "readdir_sound env" "alloc_sized (de_malloc env)" "0 < unat (de_bufsize env)"
    and ready: "restore_ready env fs dest src"
    and n: "name_ok n" "\<not> is_removal n" "fs_dirs fs (path_join src n)" "fs_dirs fs (path_join dest n)"
      "\<not> present fs (path_join src (126 # n))"
  shows "\<exists>ret fs'. ugRestoreDir env fs dest src = Some (ret, fs') \<and> ret \<noteq> 0 \<and>
    (\<forall>q. below (path_join dest n) q \<longrightarrow> fs_files fs' q = fs_files fs q \<and> fs_dirs fs' q = fs_dirs fs q)"
proof -
  note r = ready [unfolded restore_ready_def]
  obtain ents where ents: "de_readdir env fs src = Some ents"
    and all: "\<And>n k. name_ok n \<Longrightarrow> entry_at fs src n k \<Longrightarrow> (n, k) \<in> set ents"
    using r unfolding readdir_lists_def by (meson below_refl)
  note dist = readdir_entries(1) [OF env(1) ents] and real = readdir_entries(2) [OF env(1) ents]
  let ?I = "\<lambda>xs (ret :: int, fs1). fs_below dest fs fs1 \<and> paths_fit env fs1 \<and> ((n, True) \<in> set xs \<longrightarrow> ret \<noteq> 0) \<and>
      (\<forall>q. below (path_join dest n) q \<longrightarrow> fs_files fs1 q = fs_files fs q \<and> fs_dirs fs1 q = fs_dirs fs q)"
  have "\<exists>s. walk (restore_entry env dest src) ents (0, fs) = Some s \<and> ?I ents s"
  proof (rule walk_done [where I = ?I])
    show "?I [] (0, fs)" using r by simp
    fix xs e ys s
    assume split: "ents = xs @ e # ys" and inv: "?I xs s"
    obtain m k ret fs1 where e: "e = (m, k)" and s: "s = (ret, fs1)" by (metis surj_pair)
    show "\<exists>s'. restore_entry env dest src e s = Some s' \<and> ?I (xs @ [e]) s'"
    proof (cases "dot_entry m \<or> m = n")
      case True
      have "length (path_join src n) < de_path_max env" using r n(3) unfolding paths_fit_def present_def by blast
      moreover have "length dest \<le> length src" using r by blast
      ultimately have fits: "length (path_join dest n) < de_path_max env" by simp
      have "fs_dirs fs1 (path_join dest n)" using inv n(4) below_refl unfolding s by auto
      then have "mkdir fs1 (path_join dest n) = (-1, fs1)" by (simp add: mkdir_def)
      moreover have "k" if "m = n"
      proof (rule ccontr)
        assume "\<not> k"
        then have "entry_at fs src n False" using real [of n False] split e that name_okD(3) [OF n(1)] by auto
        then show False using n(3) by (simp add: entry_at_def)
      qed
      ultimately show ?thesis using True inv n(2) fits name_okD(3) [OF n(1)]
        by (auto simp: restore_entry_def e s path_buf_def first_error_0)
    next
      case False
      then have ok: "name_ok m" "entry_at fs src m k" using real [of m k] split e by auto
      have inv': "fs_below dest fs fs1" "paths_fit env fs1" using inv by (simp_all add: s)
      from restore_entry_result [OF env ready inv' _ ok restore_dir_result [OF env], of ret] False
      obtain ret' fs2 where step: "restore_entry env dest src (m, k) (ret, fs1) = Some (ret', fs2)"
          "fs_below (target dest m) fs1 fs2" "paths_fit env fs2" "ret' = 0 \<longrightarrow> ret = 0" by blast
      have "fs_below dest fs fs2"
        using fs_below_trans [OF inv'(1)] fs_below_wider [OF step(2)] below_join unfolding target_def by auto
      moreover have "m \<noteq> 126 # n" using n(5) entry_present [OF ok(2)] by auto
      then have "\<not> below (target dest m) q" if "below (path_join dest n) q" for q
        using target_apart [OF ok(1) n(1)] that False by blast
      then have "\<forall>q. below (path_join dest n) q \<longrightarrow> fs_files fs2 q = fs_files fs q \<and> fs_dirs fs2 q = fs_dirs fs q"
        using fs_belowD [OF step(2)] inv unfolding s by auto
      moreover have "(n, True) \<in> set xs \<longrightarrow> ret \<noteq> 0" using inv by (simp add: s)
      moreover have "(n, True) \<in> set (xs @ [e]) \<longrightarrow> ret' \<noteq> 0" using calculation(3) step(4) False by (auto simp: e)
      ultimately have "?I (xs @ [e]) (ret', fs2)" using step(3) unfolding prod.case by blast
      then show ?thesis using step(1) unfolding e s by blast
    qed
  qed
  moreover have "(n, True) \<in> set ents" using all [OF n(1)] n(3) by (simp add: entry_at_def)
  ultimately show ?thesis unfolding restore_unfold ents by auto
qed

section \<open>The factory reset\<close>

lemma below_drive: "47 \<notin> set d \<Longrightarrow> below d q \<Longrightarrow> takeWhile (\<lambda>c. c \<noteq> 47) (q @ [47]) = d"
  using takeWhile_slash [of d] by (auto simp: below_def prefix_def)

lemma drives_apart: "47 \<notin> set d \<Longrightarrow> 47 \<notin> set e \<Longrightarrow> d \<noteq> e \<Longrightarrow> \<not> (below d q \<and> below e q)"
  using below_drive by metis

lemma backup_root_join: "backup_root p = path_join (p @ [58]) [98, 97, 99, 107, 117, 112]"
  by (simp add: backup_root_def path_join_def)

lemma backup_apart:
  assumes "47 \<notin> set p" "47 \<notin> set n" "n \<noteq> p"
  shows "apart (path_join (backup_root p) n) (n @ [58])"
proof -
  let ?s = "path_join (backup_root p) n"
  have p: "below (p @ [58]) ?s" unfolding backup_root_join by (rule below_joinD) (rule below_join)
  have "\<not> below (n @ [58]) ?s" using drives_apart [of "p @ [58]" "n @ [58]" ?s] assms p by auto
  moreover have "\<not> below ?s (n @ [58])" using below_length [of ?s "n @ [58]"] by (auto simp: backup_root_def)
  ultimately show ?thesis by (simp add: apart_def)
qed

text \<open>Nothing in the way of a factory reset.\<close>

definition reset_clear :: "dir_env \<Rightarrow> fsys \<Rightarrow> bytes \<Rightarrow> bool" where
  "reset_clear env fs p \<longleftrightarrow> good_medium env fs \<and>
     (\<forall>n m. name_ok n \<and> fs_dirs fs (path_join (backup_root p) n) \<longrightarrow> bare fs (path_join (n @ [58]) m)) \<and>
     (\<forall>d n. below (backup_root p) d \<and> present fs (path_join d n) \<longrightarrow> \<not> is_removal n) \<and>
     finite (files_below fs (backup_root p)) \<and> weight fs (backup_root p) \<le> fs_room fs"

lemma reset_factory_result:
  assumes env: "readdir_sound env" "alloc_sized (de_malloc env)" "0 < unat (de_bufsize env)"
    and fit: "paths_fit env fs" and lists: "readdir_lists env fs (backup_root p)" and tree: "fs_tree fs (backup_root p)"
    and dir: "fs_dirs fs (backup_root p)" and small: "small_files fs (backup_root p)"
    and p: "47 \<notin> set p" "\<not> fs_dirs fs (path_join (backup_root p) p)"
  shows "\<exists>ret fs'. ugResetFactory env p fs = Some (ret, fs') \<and>
    (\<forall>q. below (backup_root p) q \<longrightarrow> fs_files fs' q = fs_files fs q \<and> fs_dirs fs' q = fs_dirs fs q) \<and>
    (ret = 0 \<longrightarrow> (\<forall>n. name_ok n \<and> fs_dirs fs (path_join (backup_root p) n) \<longrightarrow>
       restored fs (path_join (backup_root p) n) fs' (n @ [58]))) \<and>
    (reset_clear env fs p \<longrightarrow> ret = 0)"
proof -
  let ?r = "backup_root p"
  obtain ents where ents: "de_readdir env fs ?r = Some ents"
    and all: "\<And>n k. name_ok n \<Longrightarrow> entry_at fs ?r n k \<Longrightarrow> (n, k) \<in> set ents"
    using lists dir unfolding readdir_lists_def by (meson below_refl)
  note dist = readdir_entries(1) [OF env(1) ents] and real = readdir_entries(2) [OF env(1) ents]
  let ?f = "\<lambda>e (ret, fs).
            if dot_entry (fst e) then Some (ret, fs)
            else if snd e then do {
              destPath \<leftarrow> path_buf env (fst e @ [58]);
              srcPath \<leftarrow> path_buf env (path_join ?r (fst e));
              (ret1, fs) \<leftarrow> ugRestoreDir env fs destPath srcPath;
              Some (first_error ret ret1, fs)
            }
            else Some (ret, fs)"
  let ?I = "\<lambda>xs (ret :: int, fs1). paths_fit env fs1 \<and>
      (\<forall>q. below ?r q \<longrightarrow> fs_files fs1 q = fs_files fs q \<and> fs_dirs fs1 q = fs_dirs fs q) \<and>
      (ret = 0 \<longrightarrow> (\<forall>n. (n, True) \<in> set xs \<longrightarrow> name_ok n \<longrightarrow> restored fs (path_join ?r n) fs1 (n @ [58]))) \<and>
      (reset_clear env fs p \<longrightarrow> ret = 0 \<and> fs_room fs \<le> fs_room fs1 + weights fs ?r xs \<and> good_medium env fs1 \<and>
        (\<forall>n m. name_ok n \<longrightarrow> fs_dirs fs (path_join ?r n) \<longrightarrow> n \<notin> fst ` set xs \<longrightarrow> bare fs1 (path_join (n @ [58]) m)))"
  have "\<exists>s. walk ?f ents (0, fs) = Some s \<and> ?I ents s"
  proof (rule walk_done [where I = ?I])
    show "?I [] (0, fs)" using fit by (simp add: reset_clear_def)
    fix xs e ys s
    assume split: "ents = xs @ e # ys" and inv: "?I xs s"
    obtain n k ret fs1 where e: "e = (n, k)" and s: "s = (ret, fs1)" by (metis surj_pair)
    show "\<exists>s'. ?f e s = Some s' \<and> ?I (xs @ [e]) s'"
    proof (cases "dot_entry n \<or> \<not> k")
      case True
      then show ?thesis using inv name_okD(3) by (auto simp: e s)
    next
      case False
      then have ok: "name_ok n" "entry_at fs ?r n k" using real [of n k] split e by auto
      have fit1: "paths_fit env fs1" and same: "\<And>q. below ?r q \<Longrightarrow> fs_files fs1 q = fs_files fs q \<and> fs_dirs fs1 q = fs_dirs fs q"
        using inv by (auto simp: s)
      have same': "fs_files fs1 q = fs_files fs q \<and> fs_dirs fs1 q = fs_dirs fs q" if "below (path_join ?r n) q" for q
        using same below_joinD that by blast
      have dirn: "fs_dirs fs (path_join ?r n)" using ok(2) False by (simp add: entry_at_def)
      then have np: "n \<noteq> p" using p(2) by blast
      have "length (path_join ?r n) < de_path_max env" using fit dirn unfolding paths_fit_def present_def by blast
      then have fits: "length (path_join ?r n) < de_path_max env" "length (n @ [58]) < de_path_max env" by simp_all
      have "restore_ready env fs1 (n @ [58]) (path_join ?r n)"
        unfolding restore_ready_def
      proof (intro conjI)
        show "readdir_lists env fs1 (path_join ?r n)"
          by (rule readdir_lists_sub [OF lists below_join]) (use same' in \<open>auto simp: present_def\<close>)
        show "fs_tree fs1 (path_join ?r n)" by (rule tree_sub [OF tree below_join same'])
        show "fs_dirs fs1 (path_join ?r n)" using same' dirn below_refl by blast
        show "small_files fs1 (path_join ?r n)" using small same' below_joinD unfolding small_files_def by metis
        show "apart (path_join ?r n) (n @ [58])" by (rule backup_apart [OF p(1) name_okD(2) [OF ok(1)] np])
      qed (simp_all add: fit1)
      from restore_dir_result [OF env this] obtain ret2 fs2 where sub:
          "ugRestoreDir env fs1 (n @ [58]) (path_join ?r n) = Some (ret2, fs2)" "fs_below (n @ [58]) fs1 fs2"
          "paths_fit env fs2" "ret2 = 0 \<longrightarrow> restored fs1 (path_join ?r n) fs2 (n @ [58])"
          "unobstructed env fs1 (n @ [58]) (path_join ?r n) \<longrightarrow>
            ret2 = 0 \<and> fs_room fs1 \<le> fs_room fs2 + weight fs1 (path_join ?r n)"
        unfolding restore_does_def by blast
      have step: "?f e s = Some (first_error ret ret2, fs2)" using sub(1) fits False by (simp add: e s path_buf_def)
      have drive: "\<not> below (n @ [58]) q" if "below (m @ [58]) q" "47 \<notin> set m" "m \<noteq> n" for m q
        using drives_apart [of "m @ [58]" "n @ [58]" q] that name_okD(2) [OF ok(1)] by auto
      have "\<not> below (n @ [58]) q" if "below ?r q" for q
        by (rule drive [of p]) (use that below_joinD [of "p @ [58]"] p(1) np in \<open>auto simp: backup_root_join\<close>)
      then have "\<forall>q. below ?r q \<longrightarrow> fs_files fs2 q = fs_files fs q \<and> fs_dirs fs2 q = fs_dirs fs q"
        using fs_belowD [OF sub(2)] same by metis
      moreover have "restored fs (path_join ?r m) fs2 (m @ [58])"
        if ok': "first_error ret ret2 = 0" "(m, True) \<in> set (xs @ [e])" "name_ok m" for m
      proof (cases "m = n")
        case True
        then show ?thesis using sub(4) ok'(1) restored_cong [OF same'] by (simp add: first_error_0)
      next
        case ne: False
        then have "(m, True) \<in> set xs" using ok'(2) e by auto
        then have "restored fs (path_join ?r m) fs1 (m @ [58])"
          using inv ok'(1,3) unfolding s prod.case first_error_0 by blast
        then show ?thesis using restored_keep sub(2) drive name_okD(2) [OF ok'(3)] ne by metis
      qed
      moreover have "first_error ret ret2 = 0 \<and> fs_room fs \<le> fs_room fs2 + weights fs ?r (xs @ [e]) \<and> good_medium env fs2 \<and>
          (\<forall>m l. name_ok m \<longrightarrow> fs_dirs fs (path_join ?r m) \<longrightarrow> m \<notin> fst ` set (xs @ [e]) \<longrightarrow> bare fs2 (path_join (m @ [58]) l))"
        if u: "reset_clear env fs p"
      proof -
        note u' = u [unfolded reset_clear_def]
        have i: "ret = 0" "fs_room fs \<le> fs_room fs1 + weights fs ?r xs" "good_medium env fs1"
            "\<And>m l. name_ok m \<Longrightarrow> fs_dirs fs (path_join ?r m) \<Longrightarrow> m \<notin> fst ` set xs \<Longrightarrow> bare fs1 (path_join (m @ [58]) l)"
          using inv u unfolding s prod.case by blast+
        have "weights fs ?r (xs @ [e]) \<le> weight fs ?r"
        proof (rule weights_le)
          show "finite (files_below fs ?r)" using u' by blast
          show "distinct (map fst (xs @ [e]))" using dist by (simp add: split)
          show "name_ok m" if "(m, j) \<in> set (xs @ [e])" "\<not> dot_entry m" for m j
            using real [of m j] that split by auto
        qed
        then have room: "weights fs ?r xs + weight fs (path_join ?r n) \<le> fs_room fs" using u' False by (simp add: e)
        have new: "n \<notin> fst ` set xs" using dist split by (simp add: e)
        note w = weight_cong [of "path_join ?r n" fs1 fs, OF conjunct1 [OF same']]
        have "unobstructed env fs1 (n @ [58]) (path_join ?r n)"
          unfolding unobstructed_def
        proof (intro conjI allI impI)
          show "bare fs1 (path_join (n @ [58]) l)" for l by (rule i(4) [OF ok(1) dirn new])
          show "\<not> is_removal m" if "below (path_join ?r n) d \<and> present fs1 (path_join d m)" for d m
          proof -
            have "present fs (path_join d m)" "below ?r d"
              using that same' [of "path_join d m"] below_trans [OF _ below_join [of d m]] below_joinD
              by (auto simp: present_def)
            then show ?thesis using u' by blast
          qed
          have "files_below fs (path_join ?r n) \<subseteq> files_below fs ?r" using below_joinD by (auto simp: files_below_def)
          then show "finite (files_below fs1 (path_join ?r n))" using w(1) u' finite_subset by metis
          show "weight fs1 (path_join ?r n) \<le> fs_room fs1" using w room i(2) by simp
        qed (rule i(3))
        then have live: "ret2 = 0" "fs_room fs1 \<le> fs_room fs2 + weight fs (path_join ?r n)" using sub(5) w by auto
        have "bare fs2 (path_join (m @ [58]) l)"
          if m: "name_ok m" "fs_dirs fs (path_join ?r m)" "m \<notin> fst ` set (xs @ [e])" for m l
        proof (rule bare_keep [OF i(4) [OF m(1,2)] sub(2)])
          show "m \<notin> fst ` set xs" using m(3) by simp
          have "m \<noteq> n" using m(3) by (simp add: e)
          then show "\<not> (below (path_join (m @ [58]) l) q \<and> below (n @ [58]) q)" for q
            using drive [OF below_joinD name_okD(2) [OF m(1)]] by blast
        qed
        then show ?thesis using live i(1,2) False good_medium_below [OF sub(2)] i(3) by (simp add: e first_error_0)
      qed
      ultimately have "?I (xs @ [e]) (first_error ret ret2, fs2)" using sub(3) unfolding prod.case by blast
      then show ?thesis using step by blast
    qed
  qed
  then obtain s where s: "walk ?f ents (0, fs) = Some s" "?I ents s" by blast
  obtain ret fs' where "s = (ret, fs')" by (cases s)
  then have w: "walk ?f ents (0, fs) = Some (ret, fs')" and inv: "?I ents (ret, fs')"
    using s by simp_all
  have "(n, True) \<in> set ents" if "name_ok n" "fs_dirs fs (path_join ?r n)" for n
    using all [OF that(1), of True] that(2) by (simp add: entry_at_def)
  then have "ret = 0 \<longrightarrow> (\<forall>n. name_ok n \<and> fs_dirs fs (path_join ?r n) \<longrightarrow> restored fs (path_join ?r n) fs' (n @ [58]))"
    using inv unfolding prod.case by blast
  moreover have "ugResetFactory env p fs = Some (ret, fs')" unfolding ugResetFactory_def ents option.case by (rule w)
  moreover have "reset_clear env fs p \<longrightarrow> ret = 0" using inv unfolding prod.case by blast
  ultimately show ?thesis using inv unfolding prod.case by blast
qed

section \<open>The properties\<close>

text \<open>A listing made from a list of candidate names.\<close>

definition demo_listing :: "bytes list \<Rightarrow> fsys \<Rightarrow> path \<Rightarrow> (bytes \<times> bool) list option" where
  "demo_listing cands fs d = (if fs_dirs fs d then Some (map (\<lambda>n. (n, fs_dirs fs (path_join d n)))
     (filter (\<lambda>n. present fs (path_join d n)) cands)) else None)"

definition demo_dir_env :: "bytes list \<Rightarrow> dir_env" where
  "demo_dir_env cands = \<lparr>de_readdir = demo_listing cands, de_path_max = 64,
     de_malloc = (\<lambda>n. Some (replicate n 0)), de_bufsize = 4, de_statvfs = (\<lambda>_. None)\<rparr>"

definition demo_tree :: "path list \<Rightarrow> (path \<rightharpoonup> bytes) \<Rightarrow> fsys" where
  "demo_tree ds m = \<lparr>fs_files = m, fs_creat = (\<lambda>_. True), fs_room = 100, fs_keep = (\<lambda>_ _ b. b),
     fs_fault = (\<lambda>_. None), fs_stat = True, fs_dirs = (\<lambda>q. q \<in> set ds)\<rparr>"

lemma demo_sound:
  assumes "distinct cands" "\<forall>n \<in> set cands. name_ok n"
  shows "readdir_sound (demo_dir_env cands)"
  using assms by (auto simp: readdir_sound_def demo_dir_env_def demo_listing_def comp_def entry_at_def present_def
      split: if_splits)

lemma demo_lists:
  assumes "\<And>q n. below root q \<Longrightarrow> name_ok n \<Longrightarrow> present fs (path_join q n) \<Longrightarrow> n \<in> set cands"
  shows "readdir_lists (demo_dir_env cands) fs root"
  unfolding readdir_lists_def
proof (intro allI impI)
  fix fs' d
  assume d: "below root d \<and> fs_dirs fs' d \<and> (\<forall>q. below d q \<and> present fs' q \<longrightarrow> present fs q)"
  have "(n, k) \<in> (\<lambda>n. (n, fs_dirs fs' (path_join d n))) ` {n \<in> set cands. present fs' (path_join d n)}"
    if n: "name_ok n" "entry_at fs' d n k" for n k
  proof
    show "(n, k) = (n, fs_dirs fs' (path_join d n))" using n(2) by (auto simp: entry_at_def split: if_splits)
    have "present fs' (path_join d n)" using n(2) by (rule entry_present)
    moreover have "below d (path_join d n)" by simp
    ultimately show "n \<in> {n \<in> set cands. present fs' (path_join d n)}" using assms d n(1) by blast
  qed
  then show "\<exists>ents. de_readdir (demo_dir_env cands) fs' d = Some ents \<and>
      (\<forall>n k. name_ok n \<and> entry_at fs' d n k \<longrightarrow> (n, k) \<in> set ents)"
    using d by (auto simp: demo_dir_env_def demo_listing_def)
qed

text \<open>A directory \<open>d\<close> with a file and a directory that holds a file.\<close>

definition demo_dir :: "path \<Rightarrow> path list \<Rightarrow> fsys" where
  "demo_dir d ds = demo_tree (d # path_join d [101] # ds)
     [path_join d [102] \<mapsto> [1, 2, 3], path_join (path_join d [101]) [103] \<mapsto> [4]]"

lemma demo_present: "present (demo_dir d ds) q \<longleftrightarrow> q \<in> set ds \<or> q = d \<or> q = path_join d [101] \<or>
    q = path_join d [102] \<or> q = path_join (path_join d [101]) [103]"
  by (auto simp: present_def demo_dir_def demo_tree_def)

lemma demo_names: "name_ok [101]" "name_ok [102]" "name_ok [103]"
  by (simp_all add: name_ok_def dot_entry_def)

lemma demo_env_sound: "readdir_sound (demo_dir_env [[65], [101], [102], [103]])"
  by (rule demo_sound) (auto simp: name_ok_def dot_entry_def)

lemma demo_fs_tree:
  assumes "\<forall>q \<in> set ds. \<not> below d q"
  shows "fs_tree (demo_dir d ds) d"
  unfolding fs_tree_def
proof (intro allI impI conjI)
  fix q
  assume q: "below d q \<and> present (demo_dir d ds) q"
  then have cases: "q = d \<or> q = path_join d [101] \<or> q = path_join d [102] \<or> q = path_join (path_join d [101]) [103]"
    using assms by (auto simp: demo_present)
  have dirs: "fs_dirs (demo_dir d ds) d" "fs_dirs (demo_dir d ds) (path_join d [101])"
    by (simp_all add: demo_dir_def demo_tree_def)
  show "q = d \<or> (\<exists>p n. q = path_join p n \<and> name_ok n \<and> fs_dirs (demo_dir d ds) p)"
    using cases demo_names dirs by blast
  show "\<not> (fs_dirs (demo_dir d ds) q \<and> fs_files (demo_dir d ds) q \<noteq> None)"
    using q assms by (auto simp: demo_dir_def demo_tree_def path_join_def)
qed

text \<open>
  C18. \<open>ugDeleteDirectory\<close> ends and removes exactly the directory and what lies below it:
  afterwards no path at or below it is a file or a directory, and every other path is as it was.
  (\<open>readdir\<close> lists what is there, the tree is one, its paths fit the buffers and may be removed.)
\<close>

theorem delete_directory_removes:
  assumes "readdir_sound env" "paths_fit env fs" "readdir_lists env fs d" "fs_tree fs d" "fs_dirs fs d"
    and "\<forall>q. below d q \<longrightarrow> fs_creat fs q"
  shows "\<exists>fs'. ugDeleteDirectory env fs d = Some fs' \<and> fs_cut {q. below d q} fs fs'"
  by (rule delete_directory_cut [OF assms])

theorem delete_directory_removes_witness:
  "\<exists>fs'. ugDeleteDirectory (demo_dir_env [[65], [101], [102], [103]]) (demo_dir [100] []) [100] = Some fs' \<and>
    fs_cut {q. below [100] q} (demo_dir [100] []) fs'"
proof (rule delete_directory_removes)
  show "paths_fit (demo_dir_env [[65], [101], [102], [103]]) (demo_dir [100] [])"
    by (auto simp: paths_fit_def demo_present demo_dir_env_def)
  show "readdir_lists (demo_dir_env [[65], [101], [102], [103]]) (demo_dir [100] []) [100]"
  proof (rule demo_lists)
    fix q n
    assume "below [100] q" "name_ok n" "present (demo_dir [100] []) (path_join q n)"
    moreover have "path_join q n = path_join d m \<Longrightarrow> 47 \<notin> set m \<Longrightarrow> n = m" for d m
      using path_join_inject [of n m q d] name_okD(2) [OF \<open>name_ok n\<close>] by simp
    moreover have "path_join q n \<noteq> [100]" using calculation(1) by (rule join_neq)
    ultimately show "n \<in> set [[65], [101], [102], [103]]" unfolding demo_present by auto
  qed
qed (simp_all add: demo_env_sound demo_fs_tree, simp_all add: demo_dir_def demo_tree_def)

text \<open>
  C17. A factory reset ends and leaves the backup as it was; when it returns 0, every plain file of the
  backup of a drive (no removal entry on its path or beside it) is on the drive with the same bytes. It
  does return 0 when nothing is in the way: a sound medium with room for all files of the backup,
  memory, nothing on the drives yet, no removal entries.
\<close>

theorem reset_factory_restores:
  assumes "readdir_sound env" "alloc_sized (de_malloc env)" "0 < unat (de_bufsize env)"
    and "paths_fit env fs" "readdir_lists env fs (backup_root p)" "fs_tree fs (backup_root p)"
    and "fs_dirs fs (backup_root p)" "small_files fs (backup_root p)"
    and "47 \<notin> set p" "\<not> fs_dirs fs (path_join (backup_root p) p)"
  shows "\<exists>ret fs'. ugResetFactory env p fs = Some (ret, fs') \<and>
    (\<forall>q. below (backup_root p) q \<longrightarrow> fs_files fs' q = fs_files fs q \<and> fs_dirs fs' q = fs_dirs fs q) \<and>
    (ret = 0 \<longrightarrow> (\<forall>n. name_ok n \<and> fs_dirs fs (path_join (backup_root p) n) \<longrightarrow>
       restored fs (path_join (backup_root p) n) fs' (n @ [58]))) \<and>
    (reset_clear env fs p \<longrightarrow> ret = 0)"
  by (rule reset_factory_result [OF assms])

text \<open>A backup of the drive \<open>A\<close> on the private drive \<open>D\<close>.\<close>

definition demo_backup :: fsys where
  "demo_backup = demo_dir [68, 58, 47, 98, 97, 99, 107, 117, 112, 47, 65] [[68, 58, 47, 98, 97, 99, 107, 117, 112]]"

lemma demo_backup_present: "present demo_backup q \<longleftrightarrow> q = backup_root [68] \<or> q = path_join (backup_root [68]) [65] \<or>
    q = path_join (path_join (backup_root [68]) [65]) [101] \<or> q = path_join (path_join (backup_root [68]) [65]) [102] \<or>
    q = path_join (path_join (path_join (backup_root [68]) [65]) [101]) [103]"
  by (auto simp: demo_backup_def demo_present backup_root_def path_join_def)

lemma demo_backup_names:
  assumes "below (backup_root [68]) q" "47 \<notin> set n" "present demo_backup (path_join q n)"
  shows "n \<in> {[65], [101], [102], [103]}"
proof -
  have inj: "path_join q n = path_join d m \<Longrightarrow> 47 \<notin> set m \<Longrightarrow> n = m" for d m
    using path_join_inject [OF assms(2), of m q d] by simp
  have "path_join q n \<noteq> backup_root [68]" using assms(1) by (rule join_neq)
  then show ?thesis using assms(3) unfolding demo_backup_present by (auto dest!: inj)
qed

lemma demo_backup_tree: "fs_tree demo_backup (backup_root [68])"
  unfolding fs_tree_def
proof (intro allI impI conjI)
  let ?r = "backup_root [68]"
  fix q
  assume q: "below ?r q \<and> present demo_backup q"
  have dirs: "fs_dirs demo_backup ?r" "fs_dirs demo_backup (path_join ?r [65])"
      "fs_dirs demo_backup (path_join (path_join ?r [65]) [101])"
    by (simp_all add: demo_backup_def demo_dir_def demo_tree_def backup_root_def path_join_def)
  have a: "name_ok [65]" by (simp add: name_ok_def dot_entry_def)
  show "q = ?r \<or> (\<exists>p n. q = path_join p n \<and> name_ok n \<and> fs_dirs demo_backup p)"
    using q dirs demo_names a unfolding demo_backup_present by blast
  show "\<not> (fs_dirs demo_backup q \<and> fs_files demo_backup q \<noteq> None)"
    by (auto simp: demo_backup_def demo_dir_def demo_tree_def path_join_def backup_root_def)
qed

lemma demo_backup_clear: "reset_clear (demo_dir_env [[65], [101], [102], [103]]) demo_backup [68]"
  unfolding reset_clear_def
proof (intro conjI allI impI)
  let ?r = "backup_root [68]"
  have files: "files_below demo_backup ?r = {path_join (path_join ?r [65]) [102], path_join (path_join (path_join ?r [65]) [101]) [103]}"
    by (auto simp: files_below_def demo_backup_def demo_dir_def demo_tree_def below_def backup_root_def path_join_def split: if_splits)
  then show "finite (files_below demo_backup ?r)" by simp
  show "weight demo_backup ?r \<le> fs_room demo_backup"
    unfolding weight_def files
    by (simp add: demo_backup_def demo_dir_def demo_tree_def backup_root_def path_join_def file_bytes_def)
  show "good_medium (demo_dir_env [[65], [101], [102], [103]]) demo_backup"
    by (simp add: good_medium_def demo_dir_env_def demo_backup_def demo_dir_def demo_tree_def fs_sound_def)
  show "\<not> is_removal n" if "below ?r d \<and> present demo_backup (path_join d n)" for d n
  proof
    assume "is_removal n"
    then have "126 \<in> set (path_join d n)" by (cases n) (auto simp: is_removal_def path_join_def)
    moreover have "126 \<notin> set q" if "present demo_backup q" for q
      using that unfolding demo_backup_present by (auto simp: backup_root_def path_join_def)
    ultimately show False using that by blast
  qed
  show "bare demo_backup (path_join (n @ [58]) m)" if "name_ok n \<and> fs_dirs demo_backup (path_join ?r n)" for n m
    unfolding bare_def
  proof (intro allI impI notI)
    fix q
    assume q: "below (path_join (n @ [58]) m) q" "present demo_backup q"
    have "47 \<notin> set (n @ [58])" using that name_okD(2) by auto
    then have "takeWhile (\<lambda>c. c \<noteq> 47) (q @ [47]) = n @ [58]" using below_drive below_joinD [OF q(1)] by blast
    moreover have "takeWhile (\<lambda>c. c \<noteq> 47) (q @ [47]) = [68, 58]"
      using q(2) unfolding demo_backup_present by (auto simp: backup_root_def path_join_def)
    ultimately have "n = [68]" by simp
    then show False using that
      by (simp add: demo_backup_def demo_dir_def demo_tree_def backup_root_def path_join_def)
  qed
qed

theorem reset_factory_restores_witness:
  "\<exists>fs'. ugResetFactory (demo_dir_env [[65], [101], [102], [103]]) [68] demo_backup = Some (0, fs') \<and>
    fs_files fs' [65, 58, 47, 102] = Some [1, 2, 3] \<and> fs_files fs' [65, 58, 47, 101, 47, 103] = Some [4]"
proof -
  let ?env = "demo_dir_env [[65], [101], [102], [103]]" and ?r = "backup_root [68]"
  note d = demo_backup_def demo_dir_def demo_tree_def backup_root_def path_join_def
  have "\<exists>ret fs'. ugResetFactory ?env [68] demo_backup = Some (ret, fs') \<and>
    (\<forall>q. below ?r q \<longrightarrow> fs_files fs' q = fs_files demo_backup q \<and> fs_dirs fs' q = fs_dirs demo_backup q) \<and>
    (ret = 0 \<longrightarrow> (\<forall>n. name_ok n \<and> fs_dirs demo_backup (path_join ?r n) \<longrightarrow>
       restored demo_backup (path_join ?r n) fs' (n @ [58]))) \<and> (reset_clear ?env demo_backup [68] \<longrightarrow> ret = 0)"
  proof (rule reset_factory_restores)
    show "paths_fit ?env demo_backup"
      by (auto simp: paths_fit_def demo_backup_present demo_dir_env_def backup_root_def)
    show "readdir_lists ?env demo_backup ?r"
      by (rule demo_lists) (use demo_backup_names name_okD(2) in auto)
    show "small_files demo_backup ?r"
      by (auto simp: small_files_def demo_backup_def demo_dir_def demo_tree_def split: if_splits)
  qed (simp_all add: demo_env_sound demo_backup_tree, simp_all add: d demo_dir_env_def alloc_sized_def)
  then obtain fs' where fs': "ugResetFactory ?env [68] demo_backup = Some (0, fs')"
      "\<forall>n. name_ok n \<and> fs_dirs demo_backup (path_join ?r n) \<longrightarrow> restored demo_backup (path_join ?r n) fs' (n @ [58])"
    using demo_backup_clear by blast
  have "restored demo_backup (path_join ?r [65]) fs' ([65] @ [58])"
    by (rule fs'(2) [rule_format]) (simp add: d name_ok_def dot_entry_def)
  then have "\<And>ns b. plain demo_backup (path_join ?r [65]) ns \<Longrightarrow>
      fs_files demo_backup (path_of (path_join ?r [65]) ns) = Some b \<Longrightarrow> fs_files fs' (path_of ([65] @ [58]) ns) = Some b"
    unfolding restored_def by blast
  from this [of "[[102]]" "[1, 2, 3]"] this [of "[[101], [103]]" "[4]"]
  show ?thesis using fs'(1) by (simp add: d present_def demo_names is_removal_def)
qed

text \<open>
  A directory of the backup whose place in the destination is taken by a directory is not
  restored: \<open>ugRestoreDir\<close> leaves everything below that directory as it was and returns an error.
\<close>

theorem restore_skips_existing_directory:
  assumes "readdir_sound env" "alloc_sized (de_malloc env)" "0 < unat (de_bufsize env)"
    and "restore_ready env fs dest src" "name_ok n" "\<not> is_removal n"
    and "fs_dirs fs (path_join src n)" "fs_dirs fs (path_join dest n)" "\<not> present fs (path_join src (126 # n))"
  shows "\<exists>ret fs'. ugRestoreDir env fs dest src = Some (ret, fs') \<and> ret \<noteq> 0 \<and>
    (\<forall>q. below (path_join dest n) q \<longrightarrow> fs_files fs' q = fs_files fs q \<and> fs_dirs fs' q = fs_dirs fs q)"
  by (rule restore_existing [OF assms])

theorem restore_skips_existing_directory_witness:
  "\<exists>ret fs'. ugRestoreDir (demo_dir_env [[65], [101], [102], [103]]) (demo_dir [66, 47, 66] [[65], [65, 47, 101]]) [65] [66, 47, 66] =
      Some (ret, fs') \<and> ret \<noteq> 0 \<and> fs_files fs' [65, 47, 101, 47, 103] = None"
proof -
  let ?fs = "demo_dir [66, 47, 66] [[65], [65, 47, 101]]" and ?env = "demo_dir_env [[65], [101], [102], [103]]"
  note d = demo_dir_def demo_tree_def path_join_def
  have ready: "restore_ready ?env ?fs [65] [66, 47, 66]"
    unfolding restore_ready_def
  proof (intro conjI)
    show "paths_fit ?env ?fs" by (auto simp: paths_fit_def demo_present demo_dir_env_def)
    show "readdir_lists ?env ?fs [66, 47, 66]"
    proof (rule demo_lists)
      fix q n
      assume q: "below [66, 47, 66] q" "name_ok n" "present ?fs (path_join q n)"
      have "path_join q n = path_join d m \<Longrightarrow> 47 \<notin> set m \<Longrightarrow> n = m" for d m
        using path_join_inject [of n m q d] name_okD(2) [OF q(2)] by simp
      moreover have "path_join q n \<noteq> [66, 47, 66]" using q(1) by (rule join_neq)
      moreover have "path_join q n \<noteq> [65]" "path_join q n \<noteq> [65, 47, 101]"
        using below_trans [OF q(1) below_join, of n] by (auto simp: below_def)
      ultimately show "n \<in> set [[65], [101], [102], [103]]" using q(3) unfolding demo_present by auto
    qed
    show "fs_tree ?fs [66, 47, 66]" by (rule demo_fs_tree) (simp add: below_def)
    show "small_files ?fs [66, 47, 66]" by (auto simp: small_files_def d split: if_splits)
  qed (simp_all add: d apart_def below_def)
  have "\<exists>ret fs'. ugRestoreDir ?env ?fs [65] [66, 47, 66] = Some (ret, fs') \<and> ret \<noteq> 0 \<and>
    (\<forall>q. below (path_join [65] [101]) q \<longrightarrow> fs_files fs' q = fs_files ?fs q \<and> fs_dirs fs' q = fs_dirs ?fs q)"
    by (rule restore_skips_existing_directory [OF demo_env_sound _ _ ready])
      (simp_all add: d demo_dir_env_def alloc_sized_def name_ok_def dot_entry_def is_removal_def present_def)
  then obtain ret fs' where r: "ugRestoreDir ?env ?fs [65] [66, 47, 66] = Some (ret, fs')" "ret \<noteq> 0"
      "\<forall>q. below (path_join [65] [101]) q \<longrightarrow> fs_files fs' q = fs_files ?fs q \<and> fs_dirs fs' q = fs_dirs ?fs q" by blast
  have "below (path_join [65] [101]) [65, 47, 101, 47, 103]" by (simp add: below_def path_join_def)
  then have "fs_files fs' [65, 47, 101, 47, 103] = fs_files ?fs [65, 47, 101, 47, 103]" using r(3) by blast
  also have "\<dots> = None" by (simp add: d)
  finally show ?thesis using r(1,2) by blast
qed

end
