(* ===== verification/CB_Storage.thy ===== *)
theory CB_Storage
  imports UG_Partition
begin

text \<open>
  The storage selection of the control board (\<open>project/ctrlboard/storage.c\<close>): which drive serves as SD
  card, USB stick and internal storage, and which of them is the current one. The code keeps pointers
  into the drive table of the driver; here they are indices. The table itself is read anew at every
  check and is an argument.
\<close>

datatype StorageAction = STORAGE_UNKNOWN | STORAGE_SD_INSERTED | STORAGE_SD_REMOVED | STORAGE_USB_INSERTED |
  STORAGE_USB_REMOVED | STORAGE_USB_DEVICE_INSERTED | STORAGE_USB_DEVICE_REMOVED

text \<open>The storage types index the table, but for \<open>STORAGE_NONE\<close>.\<close>

datatype StorageType = STORAGE_NONE | STORAGE_USB | STORAGE_SD | STORAGE_INTERNAL

record storage =
  storageTable :: "StorageType \<Rightarrow> nat option"
  storageCurrType :: StorageType
  storageInUsbDeviceMode :: bool

definition sd_disk :: "int \<Rightarrow> bool" where "sd_disk d \<longleftrightarrow> 0 \<le> d \<and> d \<le> 1"
definition usb_disk :: "int \<Rightarrow> bool" where "usb_disk d \<longleftrightarrow> 7 \<le> d \<and> d \<le> 22"

definition StorageInit :: "int \<Rightarrow> bytes \<Rightarrow> drive_status list \<Rightarrow> storage" where
  "StorageInit boot public table =
     (case List.find (\<lambda>i. ds_disk (table ! i) = boot \<and> take 1 (ds_name (table ! i)) = take 1 public \<and> ds_avail (table ! i))
        [0..<ITP_MAX_DRIVE] of
        None \<Rightarrow> \<lparr>storageTable = (\<lambda>_. None), storageCurrType = STORAGE_NONE, storageInUsbDeviceMode = False\<rparr>
      | Some i \<Rightarrow> \<lparr>storageTable = (\<lambda>_. None)(STORAGE_INTERNAL := Some i), storageCurrType = STORAGE_INTERNAL,
                   storageInUsbDeviceMode = False\<rparr>)"

text \<open>
  One drive of a removable kind \<open>t\<close>; \<open>other\<close> is the other removable kind. The result is the event, if any.
\<close>

definition removable ::
    "StorageType \<Rightarrow> StorageType \<Rightarrow> StorageAction \<Rightarrow> StorageAction \<Rightarrow> nat \<Rightarrow> drive_status \<Rightarrow> storage \<Rightarrow> (StorageAction \<times> storage) option" where
  "removable t other inserted removed i driveStatus s =
     (if ds_avail driveStatus \<and> storageTable s t = None then
        Some (inserted, s\<lparr>storageTable := (storageTable s)(t := Some i),
          storageCurrType := (if storageCurrType s = STORAGE_NONE \<or> storageCurrType s = STORAGE_INTERNAL then t else storageCurrType s)\<rparr>)
      else if \<not> ds_avail driveStatus \<and> storageTable s t = Some i then
        Some (removed, s\<lparr>storageTable := (storageTable s)(t := None),
          storageCurrType := (if storageCurrType s = t
            then (if storageTable s other \<noteq> None then other else STORAGE_INTERNAL) else storageCurrType s)\<rparr>)
      else None)"

definition drive_event :: "drive_status list \<Rightarrow> nat \<Rightarrow> storage \<Rightarrow> (StorageAction \<times> storage) option" where
  "drive_event table i s =
     (let driveStatus = table ! i in
      if sd_disk (ds_disk driveStatus)
      then removable STORAGE_SD STORAGE_USB STORAGE_SD_INSERTED STORAGE_SD_REMOVED i driveStatus s
      else if usb_disk (ds_disk driveStatus)
      then removable STORAGE_USB STORAGE_SD STORAGE_USB_INSERTED STORAGE_USB_REMOVED i driveStatus s
      else None)"

text \<open>The first event ends the scan.\<close>

fun storage_scan :: "drive_status list \<Rightarrow> nat list \<Rightarrow> storage \<Rightarrow> StorageAction \<times> storage" where
  "storage_scan table [] s = (STORAGE_UNKNOWN, s)"
| "storage_scan table (i # is) s = (case drive_event table i s of
     Some r \<Rightarrow> r | None \<Rightarrow> storage_scan table is s)"

text \<open>\<open>connected\<close> is the answer of the USB device driver; \<open>usbdev\<close> the option \<open>CFG_USB_DEVICE\<close>.\<close>

definition StorageCheck :: "bool \<Rightarrow> bool \<Rightarrow> drive_status list \<Rightarrow> storage \<Rightarrow> StorageAction \<times> storage" where
  "StorageCheck usbdev connected table s =
     (if storageInUsbDeviceMode s then
        (if \<not> connected then (STORAGE_USB_DEVICE_REMOVED, s\<lparr>storageInUsbDeviceMode := False\<rparr>) else (STORAGE_UNKNOWN, s))
      else if usbdev \<and> connected then (STORAGE_USB_DEVICE_INSERTED, s\<lparr>storageInUsbDeviceMode := True\<rparr>)
      else storage_scan table [0..<ITP_MAX_DRIVE] s)"

definition StorageGetCurrType :: "storage \<Rightarrow> StorageType" where
  "StorageGetCurrType s = storageCurrType s"

definition StorageSetCurrType :: "StorageType \<Rightarrow> storage \<Rightarrow> storage" where
  "StorageSetCurrType type s = s\<lparr>storageCurrType := type\<rparr>"

definition StorageGetDrivePath :: "drive_status list \<Rightarrow> StorageType \<Rightarrow> storage \<Rightarrow> path option" where
  "StorageGetDrivePath table type s =
     (if type = STORAGE_NONE then None else map_option (\<lambda>i. ds_name (table ! i)) (storageTable s type))"

definition StorageIsInUsbDeviceMode :: "storage \<Rightarrow> bool" where
  "StorageIsInUsbDeviceMode s = storageInUsbDeviceMode s"

section \<open>Reachable states\<close>

text \<open>
  The states of a running program: the table changes between the checks as drives come and go, but the
  disk a table entry stands for (\<open>disks\<close>) does not; the user selects only storage that is there.
\<close>

definition table_of :: "(nat \<Rightarrow> int) \<Rightarrow> drive_status list \<Rightarrow> bool" where
  "table_of disks table \<longleftrightarrow> length table = ITP_MAX_DRIVE \<and> (\<forall>i < ITP_MAX_DRIVE. ds_disk (table ! i) = disks i)"

inductive storage_reach :: "(nat \<Rightarrow> int) \<Rightarrow> int \<Rightarrow> bool \<Rightarrow> storage \<Rightarrow> bool" for disks boot usbdev where
  init: "table_of disks table \<Longrightarrow> storage_reach disks boot usbdev (StorageInit boot public table)"
| check: "storage_reach disks boot usbdev s \<Longrightarrow> table_of disks table \<Longrightarrow>
    StorageCheck usbdev connected table s = (act, s') \<Longrightarrow> storage_reach disks boot usbdev s'"
| select: "storage_reach disks boot usbdev s \<Longrightarrow> storageTable s type \<noteq> None \<Longrightarrow> 
    storage_reach disks boot usbdev (StorageSetCurrType type s)"

text \<open>
  Every entry refers to a drive of its kind, and the current storage is there unless it is the internal
  storage or none.
\<close>

definition storage_ok :: "(nat \<Rightarrow> int) \<Rightarrow> int \<Rightarrow> storage \<Rightarrow> bool" where
  "storage_ok disks boot s \<longleftrightarrow>
     (\<forall>i. storageTable s STORAGE_SD = Some i \<longrightarrow> i < ITP_MAX_DRIVE \<and> sd_disk (disks i)) \<and>
     (\<forall>i. storageTable s STORAGE_USB = Some i \<longrightarrow> i < ITP_MAX_DRIVE \<and> usb_disk (disks i)) \<and>
     (\<forall>i. storageTable s STORAGE_INTERNAL = Some i \<longrightarrow> i < ITP_MAX_DRIVE \<and> disks i = boot) \<and>
     storageTable s STORAGE_NONE = None \<and>
     (storageCurrType s \<in> {STORAGE_SD, STORAGE_USB} \<longrightarrow> storageTable s (storageCurrType s) \<noteq> None)"

lemma kinds_apart: "sd_disk d \<Longrightarrow> \<not> usb_disk d"
  by (simp add: sd_disk_def usb_disk_def)

lemma drive_event_ok:
  assumes "storage_ok disks boot s" "table_of disks table" "i < ITP_MAX_DRIVE" "drive_event table i s = Some (act, s')"
  shows "storage_ok disks boot s'"
proof -
  have "ds_disk (table ! i) = disks i" using assms(2,3) by (simp add: table_of_def)
  then show ?thesis
    using assms(1,3,4) by (auto simp: drive_event_def removable_def storage_ok_def Let_def split: if_splits)
qed

lemma storage_scan_ok:
  assumes "table_of disks table"
  shows "storage_ok disks boot s \<Longrightarrow> set is \<subseteq> {..<ITP_MAX_DRIVE} \<Longrightarrow> storage_ok disks boot (snd (storage_scan table is s))"
proof (induction "is")
  case (Cons i "is")
  then show ?case using drive_event_ok [OF Cons.prems(1) assms, of i] by (auto split: option.splits)
qed simp

lemma find_upt: "List.find P [0..<n] = Some i \<Longrightarrow> P i \<and> i < n"
  by (auto simp: find_Some_iff)

lemma storage_init_ok: "table_of disks table \<Longrightarrow> storage_ok disks boot (StorageInit boot public table)"
proof -
  assume table: "table_of disks table"
  let ?P = "\<lambda>i. ds_disk (table ! i) = boot \<and> take 1 (ds_name (table ! i)) = take 1 public \<and> ds_avail (table ! i)"
  show ?thesis
  proof (cases "List.find ?P [0..<ITP_MAX_DRIVE]")
    case None
    then show ?thesis unfolding StorageInit_def None by (simp add: storage_ok_def)
  next
    case (Some i)
    then have "ds_disk (table ! i) = boot" "i < ITP_MAX_DRIVE" using find_upt [OF Some] by simp_all
    then show ?thesis unfolding StorageInit_def Some using table by (simp add: storage_ok_def table_of_def)
  qed
qed

lemma storage_check_ok:
  assumes "storage_ok disks boot s" "table_of disks table"
  shows "storage_ok disks boot (snd (StorageCheck usbdev connected table s))"
proof -
  have "storage_ok disks boot (snd (storage_scan table [0..<ITP_MAX_DRIVE] s))"
    by (rule storage_scan_ok [OF assms(2,1)]) auto
  then show ?thesis using assms(1) by (simp add: StorageCheck_def storage_ok_def del: upt_rec_numeral)
qed

lemma storage_reach_ok: "storage_reach disks boot usbdev s \<Longrightarrow> storage_ok disks boot s"
proof (induction rule: storage_reach.induct)
  case (init table public)
  then show ?case by (rule storage_init_ok)
next
  case (check s table connected act s')
  then show ?case using storage_check_ok [of disks boot s table usbdev connected] by simp
next
  case (select s type)
  then show ?case by (auto simp: StorageSetCurrType_def storage_ok_def)
qed

section \<open>Settling\<close>

text \<open>The events still to come for a kind of drive.\<close>

definition some_avail :: "(int \<Rightarrow> bool) \<Rightarrow> drive_status list \<Rightarrow> bool" where
  "some_avail kind table \<longleftrightarrow> (\<exists>i < ITP_MAX_DRIVE. kind (ds_disk (table ! i)) \<and> ds_avail (table ! i))"

definition pending :: "(int \<Rightarrow> bool) \<Rightarrow> StorageType \<Rightarrow> drive_status list \<Rightarrow> storage \<Rightarrow> nat" where
  "pending kind t table s = (let k = (if some_avail kind table then 1 else 0) in
     case storageTable s t of None \<Rightarrow> k | Some i \<Rightarrow> if ds_avail (table ! i) then 0 else Suc k)"

definition all_pending :: "drive_status list \<Rightarrow> storage \<Rightarrow> nat" where
  "all_pending table s = pending sd_disk STORAGE_SD table s + pending usb_disk STORAGE_USB table s"

lemma removable_pending:
  assumes "removable t other inserted removed i (table ! i) s = Some (act, s')" "kind (ds_disk (table ! i))" "i < ITP_MAX_DRIVE"
  shows "pending kind t table s = Suc (pending kind t table s') \<and> act \<in> {inserted, removed} \<and>
    storageInUsbDeviceMode s' = storageInUsbDeviceMode s \<and> (\<forall>u. u \<noteq> t \<longrightarrow> storageTable s' u = storageTable s u)"
proof (cases "ds_avail (table ! i) \<and> storageTable s t = None")
  case True
  then have "some_avail kind table" using assms(2,3) by (auto simp: some_avail_def)
  then show ?thesis using assms(1) True by (auto simp: removable_def pending_def)
next
  case False
  then have "\<not> ds_avail (table ! i) \<and> storageTable s t = Some i" using assms(1) by (simp add: removable_def split: if_splits)
  then show ?thesis using assms(1) by (auto simp: removable_def pending_def)
qed

lemma pending_cong: "storageTable s' t = storageTable s t \<Longrightarrow> pending kind t table s' = pending kind t table s"
  by (simp add: pending_def)

lemma drive_event_pending:
  assumes "drive_event table i s = Some (act, s')" "i < ITP_MAX_DRIVE"
  shows "all_pending table s = Suc (all_pending table s') \<and> act \<noteq> STORAGE_UNKNOWN \<and>
    storageInUsbDeviceMode s' = storageInUsbDeviceMode s"
proof (cases "sd_disk (ds_disk (table ! i))")
  case True
  then have "removable STORAGE_SD STORAGE_USB STORAGE_SD_INSERTED STORAGE_SD_REMOVED i (table ! i) s = Some (act, s')"
    using assms(1) by (simp add: drive_event_def)
  from removable_pending [where kind = sd_disk, OF this True assms(2)] show ?thesis
    using pending_cong [of s' STORAGE_USB s usb_disk table] by (auto simp: all_pending_def)
next
  case False
  then have usb: "usb_disk (ds_disk (table ! i))" using assms(1) by (simp add: drive_event_def Let_def split: if_splits)
  then have "removable STORAGE_USB STORAGE_SD STORAGE_USB_INSERTED STORAGE_USB_REMOVED i (table ! i) s = Some (act, s')"
    using assms(1) False by (simp add: drive_event_def)
  from removable_pending [where kind = usb_disk, OF this usb assms(2)] show ?thesis
    using pending_cong [of s' STORAGE_SD s sd_disk table] by (auto simp: all_pending_def)
qed

lemma storage_scan_pending:
  "set is \<subseteq> {..<ITP_MAX_DRIVE} \<Longrightarrow> storage_scan table is s = (act, s') \<Longrightarrow>
   (act = STORAGE_UNKNOWN \<and> s' = s \<and> (\<forall>i \<in> set is. drive_event table i s = None)) \<or>
   (act \<noteq> STORAGE_UNKNOWN \<and> all_pending table s = Suc (all_pending table s') \<and>
    storageInUsbDeviceMode s' = storageInUsbDeviceMode s)"
proof (induction "is")
  case (Cons i "is")
  show ?case
  proof (cases "drive_event table i s")
    case None
    then show ?thesis using Cons by simp
  next
    case (Some r)
    then show ?thesis using Cons.prems drive_event_pending [of table i s act s'] by simp
  qed
qed simp

text \<open>The table entry of a kind says whether there is a drive, and refers to one that is there.\<close>

definition settled :: "(int \<Rightarrow> bool) \<Rightarrow> StorageType \<Rightarrow> drive_status list \<Rightarrow> storage \<Rightarrow> bool" where
  "settled kind t table s \<longleftrightarrow> (case storageTable s t of
     None \<Rightarrow> \<not> some_avail kind table
   | Some i \<Rightarrow> i < ITP_MAX_DRIVE \<and> kind (ds_disk (table ! i)) \<and> ds_avail (table ! i))"

lemma no_event_settled:
  assumes "storage_ok disks boot s" "table_of disks table" "\<And>i. i < ITP_MAX_DRIVE \<Longrightarrow> drive_event table i s = None"
  shows "settled sd_disk STORAGE_SD table s \<and> settled usb_disk STORAGE_USB table s"
proof -
  have disk: "ds_disk (table ! i) = disks i" if "i < ITP_MAX_DRIVE" for i using assms(2) that by (simp add: table_of_def)
  have no: "(sd_disk (disks i) \<longrightarrow> (ds_avail (table ! i) \<longrightarrow> storageTable s STORAGE_SD \<noteq> None) \<and>
        (\<not> ds_avail (table ! i) \<longrightarrow> storageTable s STORAGE_SD \<noteq> Some i)) \<and>
      (usb_disk (disks i) \<longrightarrow> (ds_avail (table ! i) \<longrightarrow> storageTable s STORAGE_USB \<noteq> None) \<and>
        (\<not> ds_avail (table ! i) \<longrightarrow> storageTable s STORAGE_USB \<noteq> Some i))" if "i < ITP_MAX_DRIVE" for i
    using assms(3) [OF that] disk [OF that] kinds_apart [of "disks i"]
    by (auto simp: drive_event_def removable_def Let_def split: if_splits)
  note ok = assms(1) [unfolded storage_ok_def]
  have "settled sd_disk STORAGE_SD table s"
  proof (cases "storageTable s STORAGE_SD")
    case None
    then have "\<not> some_avail sd_disk table" using no disk unfolding some_avail_def by metis
    then show ?thesis using None by (simp add: settled_def)
  next
    case (Some i)
    then have "i < ITP_MAX_DRIVE" "sd_disk (disks i)" using ok by blast+
    then show ?thesis using Some no [of i] disk [of i] by (simp add: settled_def)
  qed
  moreover have "settled usb_disk STORAGE_USB table s"
  proof (cases "storageTable s STORAGE_USB")
    case None
    then have "\<not> some_avail usb_disk table" using no disk unfolding some_avail_def by metis
    then show ?thesis using None by (simp add: settled_def)
  next
    case (Some i)
    then have "i < ITP_MAX_DRIVE" "usb_disk (disks i)" using ok by blast+
    then show ?thesis using Some no [of i] disk [of i] by (simp add: settled_def)
  qed
  ultimately show ?thesis by blast
qed

lemma storage_settles:
  assumes "storage_ok disks boot s" "table_of disks table" "\<not> storageInUsbDeviceMode s"
  shows "\<exists>n s'. n \<le> all_pending table s \<and> ((\<lambda>s. snd (StorageCheck usbdev False table s)) ^^ n) s = s' \<and>
    StorageCheck usbdev False table s' = (STORAGE_UNKNOWN, s') \<and>
    settled sd_disk STORAGE_SD table s' \<and> settled usb_disk STORAGE_USB table s'"
  using assms(1,3)
proof (induction "all_pending table s" arbitrary: s rule: less_induct)
  case less
  let ?step = "\<lambda>s. snd (StorageCheck usbdev False table s)"
  obtain act s1 where scan: "storage_scan table [0..<ITP_MAX_DRIVE] s = (act, s1)" by force
  have check: "StorageCheck usbdev False table s = (act, s1)"
    using less.prems(2) scan by (simp add: StorageCheck_def del: upt_rec_numeral)
  have "set [0..<ITP_MAX_DRIVE] \<subseteq> {..<ITP_MAX_DRIVE}" by (auto simp del: upt_rec_numeral)
  from storage_scan_pending [OF this scan] show ?case
  proof
    assume stop: "act = STORAGE_UNKNOWN \<and> s1 = s \<and> (\<forall>i \<in> set [0..<ITP_MAX_DRIVE]. drive_event table i s = None)"
    have "settled sd_disk STORAGE_SD table s \<and> settled usb_disk STORAGE_USB table s"
      by (rule no_event_settled [OF less.prems(1) assms(2)]) (use stop in \<open>simp del: upt_rec_numeral\<close>)
    then show ?thesis using stop check by (intro exI [of _ 0] exI [of _ s]) simp
  next
    assume go: "act \<noteq> STORAGE_UNKNOWN \<and> all_pending table s = Suc (all_pending table s1) \<and>
      storageInUsbDeviceMode s1 = storageInUsbDeviceMode s"
    have "storage_ok disks boot s1"
      using storage_check_ok [OF less.prems(1) assms(2), of usbdev False] check by simp
    then obtain n s' where n: "n \<le> all_pending table s1" "(?step ^^ n) s1 = s'"
        "StorageCheck usbdev False table s' = (STORAGE_UNKNOWN, s')"
        "settled sd_disk STORAGE_SD table s'" "settled usb_disk STORAGE_USB table s'"
      using less.hyps [of s1] go less.prems(2) by auto
    have "(?step ^^ Suc n) s = s'" using n(2) check by (simp add: funpow_Suc_right del: funpow.simps)
    then show ?thesis using n go by (intro exI [of _ "Suc n"] exI [of _ s']) simp
  qed
qed

lemma all_pending_le: "all_pending table s \<le> 4"
proof -
  have "pending kind t table s \<le> 2" for kind t by (simp add: pending_def split: option.split)
  from this [of sd_disk STORAGE_SD] this [of usb_disk STORAGE_USB] show ?thesis by (simp add: all_pending_def)
qed

section \<open>The properties\<close>


text \<open>A table with one SD card, available or not.\<close>

definition demo_table :: "bool \<Rightarrow> drive_status list" where
  "demo_table a = \<lparr>ds_disk = 0, ds_avail = a, ds_name = [67]\<rparr> #
     replicate 25 \<lparr>ds_disk = 23, ds_avail = False, ds_name = []\<rparr>"

definition demo_disks :: "nat \<Rightarrow> int" where
  "demo_disks i = (if i = 0 then 0 else 23)"

lemma demo_table_of: "table_of demo_disks (demo_table a)"
  by (auto simp: table_of_def demo_table_def demo_disks_def nth_Cons')

lemma demo_reach:
  "storage_reach demo_disks 6 False (snd (StorageCheck False False (demo_table True) (StorageInit 6 [65] (demo_table True))))"
  by (rule storage_reach.check [OF storage_reach.init [OF demo_table_of] demo_table_of, of _ False]) (rule surjective_pairing)




end
