(* ===== verification/INI_Dictionary.thy ===== *)
theory INI_Dictionary
  imports Dirent
begin

text \<open>
  The dictionary of the settings (\<open>sdk/share/iniparser/dictionary.c\<close>): three parallel arrays of slots,
  searched from the front, with the hash of a key beside it. A string is the list of its bytes without
  the terminator, a slot without a key or a NULL value is \<open>None\<close>. \<open>alloc n\<close> says whether an allocation of
  \<open>n\<close> bytes succeeds; an array that could not be allocated is the empty list, so that every access
  to it is undefined. Plain \<open>char\<close> is unsigned, as on the ARM targets. The abstract view of a dictionary
  is a map from keys to values, which may be NULL.
\<close>

section \<open>Access to the slots\<close>

definition slot_get :: "'a list \<Rightarrow> nat \<Rightarrow> 'a option" where
  "slot_get xs i = (if i < length xs then Some (xs ! i) else None)"

definition slot_put :: "'a list \<Rightarrow> nat \<Rightarrow> 'a \<Rightarrow> 'a list option" where
  "slot_put xs i x = (if i < length xs then Some (xs[i := x]) else None)"

lemma slot_simps [simp]:
  "i < length xs \<Longrightarrow> slot_get xs i = Some (xs ! i)" "i < length xs \<Longrightarrow> slot_put xs i x = Some (xs[i := x])"
  by (simp_all add: slot_get_def slot_put_def)

section \<open>The code\<close>

record dictionary =
  dict_n :: int
  dict_size :: nat
  dict_val :: "bytes option list"
  dict_key :: "bytes option list"
  dict_hash :: "u32 list"

text \<open>The pointers the lookups return.\<close>

datatype char_ptr = NullPtr | InvalidKey | CStr bytes

definition DICTMINSZ :: nat where "DICTMINSZ = 128"

definition mem_double :: "(nat \<Rightarrow> bool) \<Rightarrow> nat \<Rightarrow> 'a \<Rightarrow> 'a list \<Rightarrow> 'a list" where
  "mem_double alloc sz zero xs = (if alloc (2 * sz) then xs @ replicate (length xs) zero else [])"

definition xstrdup :: "(nat \<Rightarrow> bool) \<Rightarrow> bytes option \<Rightarrow> bytes option" where
  "xstrdup alloc s = (case s of None \<Rightarrow> None | Some s \<Rightarrow> if alloc (length s + 1) then Some s else None)"

definition hash_step :: "u8 \<Rightarrow> u32 \<Rightarrow> u32" where
  "hash_step c h = (let h = h + ucast c; h = h + push_bit 10 h in h XOR drop_bit 6 h)"

definition dictionary_hash :: "bytes \<Rightarrow> u32" where
  "dictionary_hash key =
     (let h = fold hash_step key 0; h = h + push_bit 3 h; h = h XOR drop_bit 11 h in h + push_bit 15 h)"

definition dictionary_new :: "(nat \<Rightarrow> bool) \<Rightarrow> nat \<Rightarrow> dictionary option" where
  "dictionary_new alloc size0 =
     (let sz = (if size0 < DICTMINSZ then DICTMINSZ else size0) in
      if \<not> alloc 20 then None
      else Some \<lparr>dict_n = 0, dict_size = sz,
        dict_val = (if alloc (sz * 4) then replicate sz None else []),
        dict_key = (if alloc (sz * 4) then replicate sz None else []),
        dict_hash = (if alloc (sz * 4) then replicate sz 0 else [])\<rparr>)"

text \<open>Freeing touches every slot.\<close>

definition dictionary_del :: "dictionary option \<Rightarrow> unit option" where
  "dictionary_del dp = (case dp of None \<Rightarrow> Some ()
     | Some d \<Rightarrow> if dict_size d \<le> length (dict_key d) \<and> dict_size d \<le> length (dict_val d) then Some () else None)"

text \<open>The search of \<open>get\<close>, \<open>set\<close> and \<open>unset\<close>: the slot of the key, or the size.\<close>

function find_slot :: "dictionary \<Rightarrow> bytes \<Rightarrow> u32 \<Rightarrow> nat \<Rightarrow> nat option" where
  "find_slot d key hash i =
     (if dict_size d \<le> i then Some i
      else do {
        k \<leftarrow> slot_get (dict_key d) i;
        case k of
          None \<Rightarrow> find_slot d key hash (i + 1)
        | Some k \<Rightarrow> do {
            h \<leftarrow> slot_get (dict_hash d) i;
            if h = hash \<and> k = key then Some i else find_slot d key hash (i + 1)
          }
      })"
  by pat_completeness auto
termination by (relation "measure (\<lambda>(d, _, _, i). dict_size d - i)") auto

definition dictionary_get :: "dictionary \<Rightarrow> bytes \<Rightarrow> char_ptr \<Rightarrow> char_ptr option" where
  "dictionary_get d key def = do {
     i \<leftarrow> find_slot d key (dictionary_hash key) 0;
     if dict_size d \<le> i then Some def
     else do {
       v \<leftarrow> slot_get (dict_val d) i;
       Some (case v of None \<Rightarrow> NullPtr | Some s \<Rightarrow> CStr s)
     }
   }"

function free_slot :: "dictionary \<Rightarrow> nat \<Rightarrow> nat option" where
  "free_slot d i =
     (if dict_size d \<le> i then Some i
      else do {
        k \<leftarrow> slot_get (dict_key d) i;
        if k = None then Some i else free_slot d (i + 1)
      })"
  by pat_completeness auto
termination by (relation "measure (\<lambda>(d, i). dict_size d - i)") auto

declare find_slot.simps [simp del] free_slot.simps [simp del]

text \<open>Doubling the arrays: false when one of them could not be allocated.\<close>

definition dict_grow :: "(nat \<Rightarrow> bool) \<Rightarrow> dictionary \<Rightarrow> bool \<times> dictionary" where
  "dict_grow alloc d =
     (if dict_n d = int (dict_size d) then
        (let d = d\<lparr>dict_val := mem_double alloc (dict_size d * 4) None (dict_val d),
                   dict_key := mem_double alloc (dict_size d * 4) None (dict_key d),
                   dict_hash := mem_double alloc (dict_size d * 4) 0 (dict_hash d)\<rparr>
         in if dict_val d = [] \<or> dict_key d = [] \<or> dict_hash d = [] then (False, d)
            else (True, d\<lparr>dict_size := dict_size d * 2\<rparr>))
      else (True, d))"

definition dict_add :: "(nat \<Rightarrow> bool) \<Rightarrow> dictionary \<Rightarrow> bytes \<Rightarrow> u32 \<Rightarrow> bytes option \<Rightarrow> (int \<times> dictionary) option" where
  "dict_add alloc d key hash val =
     (let (ok, d) = dict_grow alloc d in
      if \<not> ok then Some (-1, d)
      else do {
        i \<leftarrow> free_slot d 0;
        keys \<leftarrow> slot_put (dict_key d) i (xstrdup alloc (Some key));
        vals \<leftarrow> slot_put (dict_val d) i (xstrdup alloc val);
        hashs \<leftarrow> slot_put (dict_hash d) i hash;
        Some (0, d\<lparr>dict_key := keys, dict_val := vals, dict_hash := hashs, dict_n := dict_n d + 1\<rparr>)
      })"

definition dict_put :: "(nat \<Rightarrow> bool) \<Rightarrow> dictionary \<Rightarrow> bytes \<Rightarrow> bytes option \<Rightarrow> (int \<times> dictionary) option" where
  "dict_put alloc d key val = do {
     let hash = dictionary_hash key;
     i \<leftarrow> (if 0 < dict_n d then find_slot d key hash 0 else Some (dict_size d));
     if i < dict_size d then do {
       vals \<leftarrow> slot_put (dict_val d) i (xstrdup alloc val);
       Some (0, d\<lparr>dict_val := vals\<rparr>)
     }
     else dict_add alloc d key hash val
   }"

definition dictionary_set ::
    "(nat \<Rightarrow> bool) \<Rightarrow> dictionary option \<Rightarrow> bytes option \<Rightarrow> bytes option \<Rightarrow> (int \<times> dictionary option) option" where
  "dictionary_set alloc dp kp val =
     (case (dp, kp) of
        (Some d, Some key) \<Rightarrow> map_option (\<lambda>(r, d). (r, Some d)) (dict_put alloc d key val)
      | _ \<Rightarrow> Some (-1, dp))"

definition dictionary_unset :: "dictionary \<Rightarrow> bytes option \<Rightarrow> dictionary option" where
  "dictionary_unset d kp =
     (case kp of
        None \<Rightarrow> Some d
      | Some key \<Rightarrow> do {
          i \<leftarrow> find_slot d key (dictionary_hash key) 0;
          if dict_size d \<le> i then Some d
          else do {
            keys \<leftarrow> slot_put (dict_key d) i None;
            vals \<leftarrow> slot_put (dict_val d) i None;
            hashs \<leftarrow> slot_put (dict_hash d) i 0;
            Some (d\<lparr>dict_key := keys, dict_val := vals, dict_hash := hashs, dict_n := dict_n d - 1\<rparr>)
          }
        })"

section \<open>Invariant and abstract view\<close>

definition used :: "'a option list \<Rightarrow> nat" where
  "used ks = length (filter (\<lambda>k. k \<noteq> None) ks)"

definition dict_ok :: "dictionary \<Rightarrow> bool" where
  "dict_ok d \<longleftrightarrow> 0 < dict_size d \<and> length (dict_key d) = dict_size d \<and> length (dict_val d) = dict_size d \<and>
     length (dict_hash d) = dict_size d \<and> dict_n d = int (used (dict_key d)) \<and>
     (\<forall>i j k. i < dict_size d \<longrightarrow> j < dict_size d \<longrightarrow> dict_key d ! i = Some k \<longrightarrow> dict_key d ! j = Some k \<longrightarrow> i = j) \<and>
     (\<forall>i k. i < dict_size d \<longrightarrow> dict_key d ! i = Some k \<longrightarrow> dict_hash d ! i = dictionary_hash k)"

definition dict_map :: "dictionary \<Rightarrow> bytes \<Rightarrow> bytes option option" where
  "dict_map d k = map_of (zip (dict_key d) (dict_val d)) (Some k)"

lemma dict_lengths:
  "dict_ok d \<Longrightarrow> length (dict_key d) = dict_size d" "dict_ok d \<Longrightarrow> length (dict_val d) = dict_size d"
  "dict_ok d \<Longrightarrow> length (dict_hash d) = dict_size d"
  by (simp_all add: dict_ok_def)

lemma dict_unique:
  "dict_ok d \<Longrightarrow> i < dict_size d \<Longrightarrow> j < dict_size d \<Longrightarrow> dict_key d ! i = Some k \<Longrightarrow> dict_key d ! j = Some k \<Longrightarrow> i = j"
  unfolding dict_ok_def by blast

lemma map_of_zip_nth:
  assumes "length ks = length vs" "i < length ks" "\<And>j. j < i \<Longrightarrow> ks ! j \<noteq> ks ! i"
  shows "map_of (zip ks vs) (ks ! i) = Some (vs ! i)"
  using assms
proof (induction ks vs arbitrary: i rule: list_induct2)
  case (Cons k ks v vs)
  show ?case
  proof (cases i)
    case (Suc j)
    have "ks ! j \<noteq> k" using Cons.prems(2) [of 0] Suc by auto
    moreover have "map_of (zip ks vs) (ks ! j) = Some (vs ! j)"
      using Cons.IH [of j] Cons.prems Suc by (metis Suc_less_eq length_Cons nth_Cons_Suc)
    ultimately show ?thesis using Suc by simp
  qed simp
qed simp

lemma dict_map_slot:
  assumes "dict_ok d" "i < dict_size d" "dict_key d ! i = Some k"
  shows "dict_map d k = Some (dict_val d ! i)"
proof -
  have "dict_key d ! j \<noteq> dict_key d ! i" if "j < i" for j
    using dict_unique [OF assms(1) _ assms(2) _ assms(3), of j] that assms(2,3) by auto
  then show ?thesis
    using map_of_zip_nth [of "dict_key d" "dict_val d" i] assms by (simp add: dict_ok_def dict_map_def)
qed

lemma dict_map_None:
  assumes "dict_ok d" "\<And>i. i < dict_size d \<Longrightarrow> dict_key d ! i \<noteq> Some k"
  shows "dict_map d k = None"
proof -
  have "Some k \<notin> set (dict_key d)" using assms unfolding dict_ok_def by (metis in_set_conv_nth)
  then show ?thesis using assms(1) by (simp add: dict_map_def dict_ok_def)
qed

text \<open>A dictionary has the map \<open>m\<close> when its slots say so.\<close>

lemma dict_map_eqI:
  assumes "dict_ok d" "\<And>i k. i < dict_size d \<Longrightarrow> dict_key d ! i = Some k \<Longrightarrow> m k = Some (dict_val d ! i)"
    and "\<And>k. m k \<noteq> None \<Longrightarrow> \<exists>i < dict_size d. dict_key d ! i = Some k"
  shows "dict_map d = m"
proof
  fix k
  show "dict_map d k = m k"
  proof (cases "\<exists>i < dict_size d. dict_key d ! i = Some k")
    case True
    then show ?thesis using dict_map_slot [OF assms(1)] assms(2) by metis
  next
    case False
    then show ?thesis using dict_map_None [OF assms(1), of k] assms(3) [of k] by (cases "m k") auto
  qed
qed

lemma dict_map_cases:
  assumes "dict_ok d"
  obtains i where "i < dict_size d" "dict_key d ! i = Some k" "dict_map d k = Some (dict_val d ! i)"
  | "dict_map d k = None" "\<And>i. i < dict_size d \<Longrightarrow> dict_key d ! i \<noteq> Some k"
  using dict_map_slot [OF assms] dict_map_None [OF assms] by metis

section \<open>The searches\<close>

lemma find_slot_result:
  assumes "dict_ok d" "i \<le> dict_size d" "\<And>j. j < i \<Longrightarrow> dict_key d ! j \<noteq> Some key"
  shows "\<exists>j. find_slot d key (dictionary_hash key) i = Some j \<and>
    (if dict_map d key = None then j = dict_size d else j < dict_size d \<and> dict_key d ! j = Some key)"
  using assms(2,3)
proof (induction "dict_size d - i" arbitrary: i)
  case 0
  then have "dict_map d key = None" by (intro dict_map_None [OF assms(1)]) simp
  then show ?case using 0 by (simp add: find_slot.simps [of d key "dictionary_hash key" i])
next
  case (Suc n)
  then have i: "i < dict_size d" by simp
  have hash: "dict_hash d ! i = dictionary_hash k" if "dict_key d ! i = Some k" for k
    using assms(1) i that by (simp add: dict_ok_def)
  note unfold = find_slot.simps [of d key "dictionary_hash key" i]
  show ?case
  proof (cases "dict_key d ! i = Some key")
    case True
    then show ?thesis
      using i hash [OF True] dict_map_slot [OF assms(1) i True] by (simp add: unfold dict_lengths [OF assms(1)])
  next
    case False
    have next_i: "dict_key d ! j \<noteq> Some key" if "j < i + 1" for j
      using Suc.prems(2) [of j] False that by (cases "j = i") auto
    have "\<exists>j. find_slot d key (dictionary_hash key) (i + 1) = Some j \<and>
        (if dict_map d key = None then j = dict_size d else j < dict_size d \<and> dict_key d ! j = Some key)"
      by (rule Suc.hyps(1) [OF _ _ next_i]) (use Suc.hyps(2) i in simp_all)
    moreover have "find_slot d key (dictionary_hash key) i = find_slot d key (dictionary_hash key) (i + 1)"
      using i False by (cases "dict_key d ! i") (auto simp: unfold dict_lengths [OF assms(1)])
    ultimately show ?thesis by simp
  qed
qed

lemma free_slot_result:
  assumes "length (dict_key d) = dict_size d" "i \<le> k" "k < dict_size d" "dict_key d ! k = None"
  shows "\<exists>j. free_slot d i = Some j \<and> j < dict_size d \<and> dict_key d ! j = None"
  using assms(2)
proof (induction "k - i" arbitrary: i)
  case 0
  then show ?case using assms by (simp add: free_slot.simps [of d i])
next
  case (Suc n)
  then have "\<exists>j. free_slot d (i + 1) = Some j \<and> j < dict_size d \<and> dict_key d ! j = None"
    using Suc.hyps(1) [of "i + 1"] by simp
  then show ?case using assms Suc.prems by (auto simp: free_slot.simps [of d i])
qed

section \<open>The operations on the abstract map\<close>

lemma used_update:
  assumes "i < length ks"
  shows "used (ks[i := x]) + (if ks ! i = None then 0 else 1) = used ks + (if x = None then 0 else 1)"
  using assms
proof (induction ks arbitrary: i)
  case (Cons k ks)
  show ?case
  proof (cases i)
    case 0
    then show ?thesis by (simp add: used_def)
  next
    case (Suc j)
    then show ?thesis using Cons.IH [of j] Cons.prems by (auto simp: used_def)
  qed
qed simp

lemma used_less:
  assumes "used ks < length ks"
  shows "\<exists>k < length ks. ks ! k = None"
proof (rule ccontr)
  assume "\<not> ?thesis"
  then have "filter (\<lambda>k. k \<noteq> None) ks = ks" by (intro filter_True) (metis in_set_conv_nth)
  then show False using assms by (simp add: used_def)
qed

lemma used_append [simp]: "used (ks @ replicate n None) = used ks"
  by (simp add: used_def)

lemma map_of_unused [simp]: "map_of (replicate n (None, v)) (Some k) = None"
  by (induction n) simp_all

lemma used_le: "used ks \<le> length ks"
  by (simp add: used_def)

lemma dict_get_map:
  assumes "dict_ok d"
  shows "dictionary_get d key def = Some (case dict_map d key of None \<Rightarrow> def | Some None \<Rightarrow> NullPtr | Some (Some s) \<Rightarrow> CStr s)"
proof -
  obtain j where j: "find_slot d key (dictionary_hash key) 0 = Some j"
      "if dict_map d key = None then j = dict_size d else j < dict_size d \<and> dict_key d ! j = Some key"
    using find_slot_result [OF assms, of 0 key] by auto
  show ?thesis
  proof (cases "dict_map d key")
    case None
    then show ?thesis using j by (simp add: dictionary_get_def)
  next
    case (Some v)
    then have slot: "j < dict_size d" "dict_key d ! j = Some key" using j(2) by auto
    then have "v = dict_val d ! j" using dict_map_slot [OF assms slot] Some by simp
    moreover have "j < length (dict_val d)" using slot assms by (simp add: dict_ok_def)
    ultimately show ?thesis using j(1) slot Some by (simp add: dictionary_get_def split: option.split)
  qed
qed

text \<open>Replacing the value of a slot, and filling or emptying one.\<close>

lemma put_value:
  assumes ok: "dict_ok d" and i: "i < dict_size d" "dict_key d ! i = Some key"
  shows "dict_ok (d\<lparr>dict_val := (dict_val d)[i := v]\<rparr>) \<and> dict_map (d\<lparr>dict_val := (dict_val d)[i := v]\<rparr>) = (dict_map d)(key \<mapsto> v)"
proof
  let ?d = "d\<lparr>dict_val := (dict_val d)[i := v]\<rparr>"
  show ok': "dict_ok ?d" using ok by (simp add: dict_ok_def)
  show "dict_map ?d = (dict_map d)(key \<mapsto> v)"
  proof (rule dict_map_eqI [OF ok'])
    fix j k
    assume j: "j < dict_size ?d" "dict_key ?d ! j = Some k"
    then have "dict_map d k = Some (dict_val d ! j)" using dict_map_slot [OF ok, of j k] by simp
    moreover have "j = i \<longleftrightarrow> k = key" using dict_unique [OF ok, of j i key] i j by auto
    ultimately show "((dict_map d)(key \<mapsto> v)) k = Some (dict_val ?d ! j)" using ok i j by (auto simp: dict_ok_def nth_list_update)
  next
    fix k
    assume "((dict_map d)(key \<mapsto> v)) k \<noteq> None"
    then show "\<exists>j < dict_size ?d. dict_key ?d ! j = Some k"
      using i by (cases rule: dict_map_cases [OF ok, of k]) (auto split: if_splits)
  qed
qed

lemma fill_slot:
  fixes v :: "bytes option"
  assumes ok: "dict_ok d" and i: "i < dict_size d" "dict_key d ! i = None" and new: "dict_map d key = None"
  defines "d' \<equiv> d\<lparr>dict_key := (dict_key d)[i := Some key], dict_val := (dict_val d)[i := v],
    dict_hash := (dict_hash d)[i := dictionary_hash key], dict_n := dict_n d + 1\<rparr>"
  shows "dict_ok d' \<and> dict_map d' = (dict_map d)(key \<mapsto> v)"
proof
  note o = ok [unfolded dict_ok_def]
  have fresh: "dict_key d ! j \<noteq> Some key" if "j < dict_size d" for j
    using dict_map_slot [OF ok that] new by auto
  have key: "dict_key d' ! j = (if j = i then Some key else dict_key d ! j)" if "j < dict_size d" for j
    using o i that by (simp add: d'_def nth_list_update)
  have fields: "dict_size d' = dict_size d" "length (dict_key d') = dict_size d" "length (dict_val d') = dict_size d"
      "length (dict_hash d') = dict_size d" "dict_n d' = dict_n d + 1"
      "dict_key d' = (dict_key d)[i := Some key]" "dict_hash d' = (dict_hash d)[i := dictionary_hash key]"
      "dict_val d' = (dict_val d)[i := v]"
    using o by (simp_all add: d'_def)
  show ok': "dict_ok d'"
    unfolding dict_ok_def
  proof (intro conjI allI impI)
    show "dict_n d' = int (used (dict_key d'))" using used_update [of i "dict_key d" "Some key"] o i fields by simp
    show "j = k" if "j < dict_size d'" "k < dict_size d'" "dict_key d' ! j = Some x" "dict_key d' ! k = Some x" for j k x
      using that key [of j] key [of k] fresh [of j] fresh [of k] dict_unique [OF ok, of j k x] fields(1)
      by (auto split: if_splits)
    show "dict_hash d' ! j = dictionary_hash k" if "j < dict_size d'" "dict_key d' ! j = Some k" for j k
      using that key [of j] o i fields by (cases "j = i") (auto simp: nth_list_update)
  qed (use o fields in simp_all)
  show "dict_map d' = (dict_map d)(key \<mapsto> v)"
  proof (rule dict_map_eqI [OF ok'])
    fix j k
    assume j: "j < dict_size d'" "dict_key d' ! j = Some k"
    show "((dict_map d)(key \<mapsto> v)) k = Some (dict_val d' ! j)"
    proof (cases "j = i")
      case True
      then show ?thesis using j key [of j] i o fields by (simp add: nth_list_update)
    next
      case False
      then have "dict_key d ! j = Some k" using j key [of j] fields by simp
      moreover from this have "k \<noteq> key" using fresh [of j] j fields by auto
      ultimately show ?thesis using dict_map_slot [OF ok, of j k] j False o fields by (simp add: nth_list_update)
    qed
  next
    fix k
    assume k: "((dict_map d)(key \<mapsto> v)) k \<noteq> None"
    show "\<exists>j < dict_size d'. dict_key d' ! j = Some k"
    proof (cases "k = key")
      case True
      then show ?thesis using key [OF i(1)] i fields by auto
    next
      case False
      then have "dict_map d k \<noteq> None" using k by simp
      then obtain j where "j < dict_size d" "dict_key d ! j = Some k"
        by (cases rule: dict_map_cases [OF ok, of k]) auto
      then show ?thesis using key [of j] i fields by (metis option.distinct(1))
    qed
  qed
qed

lemma empty_slot:
  assumes ok: "dict_ok d" and i: "i < dict_size d" "dict_key d ! i = Some key"
  defines "d' \<equiv> d\<lparr>dict_key := (dict_key d)[i := None], dict_val := (dict_val d)[i := None],
    dict_hash := (dict_hash d)[i := 0], dict_n := dict_n d - 1\<rparr>"
  shows "dict_ok d' \<and> dict_map d' = (dict_map d)(key := None)"
proof
  note o = ok [unfolded dict_ok_def]
  have fields: "dict_size d' = dict_size d" "length (dict_key d') = dict_size d" "length (dict_val d') = dict_size d"
      "length (dict_hash d') = dict_size d" "dict_n d' = dict_n d - 1" "dict_key d' = (dict_key d)[i := None]"
    using o by (simp_all add: d'_def)
  have slot: "dict_key d' ! j = (if j = i then None else dict_key d ! j)" "j \<noteq> i \<Longrightarrow> dict_hash d' ! j = dict_hash d ! j"
      "j \<noteq> i \<Longrightarrow> dict_val d' ! j = dict_val d ! j" if "j < dict_size d" for j
    using o i that by (simp_all add: d'_def nth_list_update)
  have only: "j = i" if "j < dict_size d" "dict_key d ! j = Some key" for j using dict_unique [OF ok that(1) i(1) that(2) i(2)] .
  show ok': "dict_ok d'"
    unfolding dict_ok_def
  proof (intro conjI allI impI)
    show "dict_n d' = int (used (dict_key d'))" using used_update [of i "dict_key d" None] o i fields by simp
    show "j = k" if "j < dict_size d'" "k < dict_size d'" "dict_key d' ! j = Some x" "dict_key d' ! k = Some x" for j k x
      using that slot(1) [of j] slot(1) [of k] dict_unique [OF ok, of j k x] fields(1) by (auto split: if_splits)
    show "dict_hash d' ! j = dictionary_hash k" if "j < dict_size d'" "dict_key d' ! j = Some k" for j k
      using that slot [of j] o fields by (cases "j = i") auto
  qed (use o fields in simp_all)
  show "dict_map d' = (dict_map d)(key := None)"
  proof (rule dict_map_eqI [OF ok'])
    fix j k
    assume j: "j < dict_size d'" "dict_key d' ! j = Some k"
    then have ne: "j \<noteq> i" "dict_key d ! j = Some k" using slot(1) [of j] fields(1) by (auto split: if_splits)
    then have "k \<noteq> key" using only [of j] j fields(1) by auto
    then show "((dict_map d)(key := None)) k = Some (dict_val d' ! j)"
      using dict_map_slot [OF ok, of j k] j ne slot(3) [of j] fields(1) by simp
  next
    fix k
    assume k: "((dict_map d)(key := None)) k \<noteq> None"
    then have "k \<noteq> key" "dict_map d k \<noteq> None" by (auto split: if_splits)
    then obtain j where j: "j < dict_size d" "dict_key d ! j = Some k"
      by (cases rule: dict_map_cases [OF ok, of k]) auto
    then have "j \<noteq> i" using i \<open>k \<noteq> key\<close> by auto
    then show "\<exists>j < dict_size d'. dict_key d' ! j = Some k" using j slot(1) [of j] fields(1) by auto
  qed
qed

lemma dict_unset_map:
  assumes "dict_ok d"
  shows "\<exists>d'. dictionary_unset d (Some key) = Some d' \<and> dict_ok d' \<and> dict_map d' = (dict_map d)(key := None)"
proof -
  obtain j where j: "find_slot d key (dictionary_hash key) 0 = Some j"
      "if dict_map d key = None then j = dict_size d else j < dict_size d \<and> dict_key d ! j = Some key"
    using find_slot_result [OF assms, of 0 key] by auto
  show ?thesis
  proof (cases "dict_map d key")
    case None
    then show ?thesis using j assms by (auto simp: dictionary_unset_def)
  next
    case (Some v)
    then have slot: "j < dict_size d" "dict_key d ! j = Some key" using j(2) by auto
    then show ?thesis using empty_slot [OF assms slot] j(1) by (simp add: dictionary_unset_def dict_lengths [OF assms])
  qed
qed

section \<open>Growing and adding\<close>

text \<open>Allocations up to the given size succeed.\<close>

definition allocates :: "(nat \<Rightarrow> bool) \<Rightarrow> nat \<Rightarrow> bool" where
  "allocates alloc n \<longleftrightarrow> (\<forall>k \<le> n. alloc k)"

lemma dict_grow_result:
  assumes ok: "dict_ok d" and "allocates alloc (8 * dict_size d)"
  shows "\<exists>d'. dict_grow alloc d = (True, d') \<and> dict_ok d' \<and> dict_map d' = dict_map d \<and>
    dict_size d' \<le> 2 * dict_size d \<and> (\<exists>k < dict_size d'. dict_key d' ! k = None)"
proof (cases "dict_n d = int (dict_size d)")
  case False
  have "used (dict_key d) < length (dict_key d)" using ok False used_le [of "dict_key d"] by (auto simp: dict_ok_def)
  then have "\<exists>k < dict_size d. dict_key d ! k = None" using used_less [of "dict_key d"] ok by (simp add: dict_ok_def)
  then show ?thesis using False ok by (auto simp: dict_grow_def)
next
  case True
  note o = ok [unfolded dict_ok_def]
  let ?n = "dict_size d"
  let ?d = "d\<lparr>dict_val := dict_val d @ replicate ?n None, dict_key := dict_key d @ replicate ?n None,
    dict_hash := dict_hash d @ replicate ?n 0, dict_size := ?n * 2\<rparr>"
  have "alloc (2 * (?n * 4))" using assms(2) by (simp add: allocates_def)
  then have g: "dict_grow alloc d = (True, ?d)" using True o by (auto simp: dict_grow_def mem_double_def Let_def)
  have key: "dict_key ?d ! i = (if i < ?n then dict_key d ! i else None)" if "i < ?n * 2" for i
    using o that by (simp add: nth_append)
  have ok': "dict_ok ?d"
    unfolding dict_ok_def
  proof (intro conjI allI impI)
    show "i = j" if "i < dict_size ?d" "j < dict_size ?d" "dict_key ?d ! i = Some x" "dict_key ?d ! j = Some x" for i j x
      using that key [of i] key [of j] dict_unique [OF ok, of i j x] by (auto split: if_splits)
    show "dict_hash ?d ! i = dictionary_hash k" if "i < dict_size ?d" "dict_key ?d ! i = Some k" for i k
    proof -
      have "i < ?n" using that key [of i] by (auto split: if_splits)
      then show ?thesis using that key [of i] o by (simp add: nth_append)
    qed
  qed (use o in simp_all)
  have "dict_map ?d = dict_map d"
  proof
    fix k
    have z: "zip (dict_key ?d) (dict_val ?d) = zip (dict_key d) (dict_val d) @ replicate ?n (None, None)"
      using o by simp
    show "dict_map ?d k = dict_map d k"
      unfolding dict_map_def z by (cases "map_of (zip (dict_key d) (dict_val d)) (Some k)") (simp_all add: map_add_def)
  qed
  moreover have "\<exists>k < dict_size ?d. dict_key ?d ! k = None" using o by (intro exI [of _ ?n]) (simp add: nth_append)
  ultimately show ?thesis using g ok' by (intro exI [of _ ?d]) simp
qed

lemma dict_put_map:
  assumes ok: "dict_ok d" and alloc: "allocates alloc (8 * dict_size d)" "allocates alloc (length key + 1)"
    and val: "\<And>v. val = Some v \<Longrightarrow> allocates alloc (length v + 1)"
  shows "\<exists>d'. dict_put alloc d key val = Some (0, d') \<and> dict_ok d' \<and> dict_map d' = (dict_map d)(key \<mapsto> val) \<and>
    dict_size d' \<le> 2 * dict_size d"
proof -
  have dup: "xstrdup alloc val = val" "xstrdup alloc (Some key) = Some key"
    using alloc(2) val by (auto simp: xstrdup_def allocates_def split: option.split)
  have none: "dict_map d key = None" if "dict_n d \<le> 0"
  proof (rule dict_map_None [OF ok])
    fix i
    assume "i < dict_size d"
    then show "dict_key d ! i \<noteq> Some key"
      using ok that used_update [of i "dict_key d" None] by (auto simp: dict_ok_def)
  qed
  obtain j where j: "(if 0 < dict_n d then find_slot d key (dictionary_hash key) 0 else Some (dict_size d)) = Some j"
      "if dict_map d key = None then j = dict_size d else j < dict_size d \<and> dict_key d ! j = Some key"
    using find_slot_result [OF ok, of 0 key] none by (cases "0 < dict_n d") auto
  show ?thesis
  proof (cases "dict_map d key")
    case (Some v)
    then have slot: "j < dict_size d" "dict_key d ! j = Some key" using j(2) by auto
    then show ?thesis
      using put_value [OF ok slot, of val] j(1) dup ok by (simp add: dict_put_def dict_ok_def Let_def)
  next
    case None
    obtain d1 k where g: "dict_grow alloc d = (True, d1)" "dict_ok d1" "dict_map d1 = dict_map d"
        "dict_size d1 \<le> 2 * dict_size d" "k < dict_size d1" "dict_key d1 ! k = None"
      using dict_grow_result [OF ok alloc(1)] by blast
    have len: "length (dict_key d1) = dict_size d1" "length (dict_val d1) = dict_size d1" "length (dict_hash d1) = dict_size d1"
      using g(2) by (simp_all add: dict_ok_def)
    obtain i where i: "free_slot d1 0 = Some i" "i < dict_size d1" "dict_key d1 ! i = None"
      using free_slot_result [OF len(1) _ g(5,6), of 0] by auto
    have new: "dict_map d1 key = None" using g(3) None by simp
    show ?thesis
      using fill_slot [OF g(2) i(2,3) new, of val] j None g(1,3,4) i len dup by (simp add: dict_put_def dict_add_def Let_def)
  qed
qed

lemma dictionary_set_map:
  assumes "dict_ok d" "allocates alloc (8 * dict_size d)" "allocates alloc (length key + 1)"
    and "\<And>v. val = Some v \<Longrightarrow> allocates alloc (length v + 1)"
  shows "\<exists>d'. dictionary_set alloc (Some d) (Some key) val = Some (0, Some d') \<and> dict_ok d' \<and>
    dict_map d' = (dict_map d)(key \<mapsto> val) \<and> dict_size d' \<le> 2 * dict_size d"
  using dict_put_map [OF assms] by (auto simp: dictionary_set_def)

lemma dictionary_new_map:
  assumes "allocates alloc (4 * max DICTMINSZ n)"
  shows "\<exists>d. dictionary_new alloc n = Some d \<and> dict_ok d \<and> dict_map d = Map.empty \<and> dict_size d = max DICTMINSZ n"
proof -
  let ?n = "max DICTMINSZ n"
  let ?d = "\<lparr>dict_n = 0, dict_size = ?n, dict_val = replicate ?n None, dict_key = replicate ?n None,
    dict_hash = replicate ?n (0 :: u32)\<rparr>"
  have sz: "(if n < DICTMINSZ then DICTMINSZ else n) = ?n" by (simp add: max_def)
  have "dictionary_new alloc n = Some ?d"
    using assms unfolding dictionary_new_def sz Let_def by (auto simp: allocates_def DICTMINSZ_def mult.commute)
  moreover have "dict_ok ?d" by (auto simp: dict_ok_def used_def DICTMINSZ_def)
  moreover have "dict_map ?d = Map.empty"
    by (rule ext, rule dict_map_None [OF \<open>dict_ok ?d\<close>]) simp
  ultimately show ?thesis by auto
qed

section \<open>The interface the settings rest on\<close>

text \<open>
  A store that promises map update: storing a list of pairs one after the other gives the map of the
  list, the last pair of a key winning.
\<close>

locale map_store =
  fixes lookup :: "'d \<Rightarrow> 'k \<Rightarrow> 'v option"
    and put :: "'k \<Rightarrow> 'v \<Rightarrow> 'd \<Rightarrow> 'd option"
    and inv :: "'d \<Rightarrow> bool"
  assumes put_ok: "inv d \<Longrightarrow> \<exists>d'. put k v d = Some d' \<and> inv d' \<and> lookup d' = (lookup d)(k \<mapsto> v)"
begin

lemma put_all:
  assumes "inv d"
  shows "\<exists>d'. walk (\<lambda>(k, v). put k v) kvs d = Some d' \<and> inv d' \<and> lookup d' = lookup d ++ map_of (rev kvs)"
  using assms
proof (induction kvs arbitrary: d)
  case (Cons kv kvs)
  obtain k v where kv: "kv = (k, v)" by fastforce
  obtain d1 where d1: "put k v d = Some d1" "inv d1" "lookup d1 = (lookup d)(k \<mapsto> v)"
    using put_ok [OF Cons.prems] by blast
  obtain d' where d': "walk (\<lambda>(k, v). put k v) kvs d1 = Some d'" "inv d'" "lookup d' = lookup d1 ++ map_of (rev kvs)"
    using Cons.IH [OF d1(2)] by blast
  have "(lookup d1 ++ map_of (rev kvs)) x = (lookup d ++ map_of (rev (kv # kvs))) x" for x
    unfolding d1(3) by (simp add: kv map_add_def split: option.split)
  then have "lookup d' = lookup d ++ map_of (rev (kv # kvs))" unfolding d'(3) by blast
  moreover have "walk (\<lambda>(k, v). put k v) (kv # kvs) d = Some d'" using d1(1) d'(1) by (simp add: kv)
  ultimately show ?case using d'(2) by blast
qed simp

text \<open>Pairs that agree with a map \<open>m\<close> and hold all its keys leave exactly \<open>m\<close>, whatever their order.\<close>

lemma put_all_agree:
  assumes "inv d" "lookup d = Map.empty"
    and "\<And>k v. (k, v) \<in> set kvs \<Longrightarrow> m k = Some v" "\<And>k. m k \<noteq> None \<Longrightarrow> k \<in> fst ` set kvs"
  shows "\<exists>d'. walk (\<lambda>(k, v). put k v) kvs d = Some d' \<and> inv d' \<and> lookup d' = m"
proof -
  have "map_of (rev kvs) k = m k" for k
  proof (cases "map_of (rev kvs) k")
    case None
    then have "k \<notin> fst ` set kvs" by (simp add: map_of_eq_None_iff)
    then show ?thesis using None assms(4) [of k] by (cases "m k") auto
  next
    case (Some v)
    then have "(k, v) \<in> set kvs" by (metis map_of_SomeD set_rev)
    then show ?thesis using Some assms(3) by simp
  qed
  then show ?thesis using put_all [OF assms(1), of kvs] assms(2) by (metis empty_map_add ext)
qed

end

definition dict_store :: "(nat \<Rightarrow> bool) \<Rightarrow> bytes \<Rightarrow> bytes option \<Rightarrow> dictionary \<Rightarrow> dictionary option" where
  "dict_store alloc k v d = do {
     (r, d) \<leftarrow> dict_put alloc d k v;
     if r = 0 then Some d else None
   }"

interpretation dict: map_store dict_map "dict_store alloc" "\<lambda>d. dict_ok d \<and> (\<forall>n. alloc n)" for alloc
proof (unfold_locales, elim conjE)
  fix d k v
  assume "dict_ok d" "\<forall>n. alloc n"
  then show "\<exists>d'. dict_store alloc k v d = Some d' \<and> (dict_ok d' \<and> (\<forall>n. alloc n)) \<and> dict_map d' = (dict_map d)(k \<mapsto> v)"
    using dict_put_map [of d alloc k v] by (auto simp: dict_store_def allocates_def)
qed

section \<open>The property\<close>

text \<open>
  C7. The dictionary refines a map: on a dictionary whose slots are in order, \<open>dictionary_set\<close> replaces or
  adds the value of a key, doubling the arrays when they are full, \<open>dictionary_unset\<close> takes a key out, and
  \<open>dictionary_get\<close> returns the value, \<open>NULL\<close> for a stored NULL, the default for an absent key. The slots
  stay in order and no other key is affected; the searches end and stay inside the arrays.
\<close>

theorem dictionary_refines_map:
  assumes "dict_ok d" "allocates alloc (8 * dict_size d)" "allocates alloc (length key + 1)"
    and "\<And>v. val = Some v \<Longrightarrow> allocates alloc (length v + 1)"
  shows "(\<exists>d'. dictionary_set alloc (Some d) (Some key) val = Some (0, Some d') \<and> dict_ok d' \<and>
      dict_map d' = (dict_map d)(key \<mapsto> val)) \<and>
    (\<exists>d'. dictionary_unset d (Some key) = Some d' \<and> dict_ok d' \<and> dict_map d' = (dict_map d)(key := None)) \<and>
    dictionary_get d key def = Some (case dict_map d key of None \<Rightarrow> def | Some None \<Rightarrow> NullPtr | Some (Some s) \<Rightarrow> CStr s)"
  using dictionary_set_map [OF assms] dict_unset_map [OF assms(1)] dict_get_map [OF assms(1)] by blast

definition demo_dict :: dictionary where
  "demo_dict = \<lparr>dict_n = 2, dict_size = 2, dict_val = [Some [49], None], dict_key = [Some [97], Some [98]],
     dict_hash = [dictionary_hash [97], dictionary_hash [98]]\<rparr>"

lemma demo_dict_ok: "dict_ok demo_dict"
  by (auto simp: dict_ok_def demo_dict_def used_def less_2_cases_iff)

theorem dictionary_refines_map_witness:
  "\<exists>d'. dictionary_set (\<lambda>_. True) (Some demo_dict) (Some [99]) (Some [50]) = Some (0, Some d') \<and> dict_ok d' \<and>
     dict_map d' [97] = Some (Some [49]) \<and> dict_map d' [98] = Some None \<and> dict_map d' [99] = Some (Some [50])"
proof -
  have m: "dict_map demo_dict [97] = Some (Some [49])" "dict_map demo_dict [98] = Some None"
    by (simp_all add: dict_map_def demo_dict_def)
  have "allocates (\<lambda>_. True) n" for n by (simp add: allocates_def)
  note conjunct1 [OF dictionary_refines_map [OF demo_dict_ok this this this, of "[99]" "Some [50]"]]
  then obtain d' where "dictionary_set (\<lambda>_. True) (Some demo_dict) (Some [99]) (Some [50]) = Some (0, Some d')" "dict_ok d'"
      "dict_map d' = (dict_map demo_dict)([99] \<mapsto> Some [50])" by blast
  then show ?thesis by (intro exI [of _ d']) (simp add: m)
qed

end
