(* ===== verification/INI_Parser.thy ===== *)
theory INI_Parser
  imports INI_Dictionary
begin

text \<open>
  The parser and printer of ini files (\<open>sdk/share/iniparser/iniparser.c\<close>). A file is a list of lines:
  sections in brackets, keys with their values, comments and blank lines. The dictionary holds a section
  under its name with a NULL value, and a key under \<open>section:key\<close>. Of the C library the code uses
  \<open>fgets\<close>, \<open>sscanf\<close> with scan sets, \<open>strtol\<close>, \<open>tolower\<close> and \<open>isspace\<close> (of the C locale), which are
  defined here. \<open>None\<close> is undefined behaviour, here a buffer of 1025 bytes that overflows or a NULL string that
  is read. \<open>iniparser_getdouble\<close> is left out: nothing uses it.
\<close>

section \<open>The C library\<close>

definition ASCIILINESZ :: nat where "ASCIILINESZ = 1024"

definition isspace :: "u8 \<Rightarrow> bool" where
  "isspace c \<longleftrightarrow> c = 32 \<or> 9 \<le> c \<and> c \<le> 13"

definition tolower :: "u8 \<Rightarrow> u8" where
  "tolower c = (if 65 \<le> c \<and> c \<le> 90 then c + 32 else c)"

text \<open>The directives of a format: a character, white space, a conversion with its scan set.\<close>

datatype directive = Lit u8 | White | Conv "u8 \<Rightarrow> bool"

text \<open>The strings \<open>sscanf\<close> assigns; their number is its result (0 stands for \<open>EOF\<close> too).\<close>

fun sscanf :: "directive list \<Rightarrow> bytes \<Rightarrow> bytes list" where
  "sscanf [] s = []"
| "sscanf (Lit c # ds) s = (case s of [] \<Rightarrow> [] | x # xs \<Rightarrow> if x = c then sscanf ds xs else [])"
| "sscanf (White # ds) s = sscanf ds (dropWhile isspace s)"
| "sscanf (Conv p # ds) s = (let t = takeWhile p s in if t = [] then [] else t # sscanf ds (drop (length t) s))"

text \<open>
  \<open>fgets\<close> with room for \<open>n\<close> bytes on the bytes that are left: the line with its newline and what is left
  behind it, \<open>None\<close> at the end or when a read error (\<open>broken\<close>) cuts the line.
\<close>

definition fgets :: "bool \<Rightarrow> nat \<Rightarrow> bytes \<Rightarrow> (bytes \<times> bytes) option" where
  "fgets broken n rest =
     (let l = take (n - 1) (takeWhile (\<lambda>c. c \<noteq> 10) rest @ (if 10 \<in> set rest then [10] else [])) in
      if l = [] \<or> broken \<and> 10 \<notin> set l \<and> length l < n - 1 then None else Some (l, drop (length l) rest))"

definition fprintf :: "bytes \<Rightarrow> FILE \<times> fsys \<Rightarrow> (FILE \<times> fsys) option" where
  "fprintf text = (\<lambda>(h, fs). do {
     (n, h, fs) \<leftarrow> fwrite fs h text (int (length text));
     Some (h, fs)
   })"

definition digit_val :: "u8 \<Rightarrow> int" where
  "digit_val c = (if 48 \<le> c \<and> c \<le> 57 then uint c - 48 else if 97 \<le> c \<and> c \<le> 122 then uint c - 87
     else if 65 \<le> c \<and> c \<le> 90 then uint c - 55 else 99)"

definition digits_val :: "int \<Rightarrow> bytes \<Rightarrow> int" where
  "digits_val base s = foldl (\<lambda>n c. n * base + digit_val c) 0 (takeWhile (\<lambda>c. digit_val c < base) s)"

text \<open>\<open>strtol\<close> with base 0 on a 32-bit \<open>long\<close>; the prefix selects the base.\<close>

definition strtol_num :: "bytes \<Rightarrow> int" where
  "strtol_num s =
     (if take 1 s = [48] then
        (if take 1 (tl s) \<in> {[120], [88]} \<and> (\<exists>c \<in> set (take 1 (drop 2 s)). digit_val c < 16)
         then digits_val 16 (drop 2 s) else digits_val 8 s)
      else digits_val 10 s)"

definition strtol :: "bytes \<Rightarrow> int" where
  "strtol s =
     (let s = dropWhile isspace s;
          neg = (s \<noteq> [] \<and> hd s = 45);
          s = (if s \<noteq> [] \<and> (hd s = 45 \<or> hd s = 43) then tl s else s);
          n = strtol_num s
      in max (- (2 ^ 31)) (min (2 ^ 31 - 1) (if neg then - n else n)))"

section \<open>Strings\<close>

definition strlwc :: "bytes \<Rightarrow> bytes" where
  "strlwc s = map tolower (take ASCIILINESZ s)"

definition rstrip :: "bytes \<Rightarrow> bytes" where
  "rstrip s = rev (dropWhile isspace (rev s))"

definition strstrip :: "bytes \<Rightarrow> bytes option" where
  "strstrip s = (let s = dropWhile isspace s in if length s \<le> ASCIILINESZ then Some (rstrip s) else None)"

section \<open>Reading the dictionary\<close>

text \<open>The loop over the slots with a key.\<close>

definition each_key :: "dictionary \<Rightarrow> (nat \<Rightarrow> bytes \<Rightarrow> 's \<Rightarrow> 's option) \<Rightarrow> 's \<Rightarrow> 's option" where
  "each_key d f s = walk (\<lambda>i s. do {
     k \<leftarrow> slot_get (dict_key d) i;
     case k of None \<Rightarrow> Some s | Some k \<Rightarrow> f i k s
   }) [0..<dict_size d] s"

definition iniparser_getnsec :: "dictionary option \<Rightarrow> int option" where
  "iniparser_getnsec dp = (case dp of None \<Rightarrow> Some (-1)
     | Some d \<Rightarrow> each_key d (\<lambda>i k nsec. Some (if 58 \<notin> set k then nsec + 1 else nsec)) 0)"

function sec_slot :: "dictionary \<Rightarrow> int \<Rightarrow> int \<Rightarrow> nat \<Rightarrow> bytes option option" where
  "sec_slot d n foundsec i =
     (if dict_size d \<le> i then Some None
      else do {
        k \<leftarrow> slot_get (dict_key d) i;
        case k of
          None \<Rightarrow> sec_slot d n foundsec (i + 1)
        | Some k \<Rightarrow>
            if 58 \<notin> set k then (if foundsec + 1 > n then Some (Some k) else sec_slot d n (foundsec + 1) (i + 1))
            else sec_slot d n foundsec (i + 1)
      })"
  by pat_completeness auto
termination by (relation "measure (\<lambda>(d, _, _, i). dict_size d - i)") auto

declare sec_slot.simps [simp del]

definition iniparser_getsecname :: "dictionary option \<Rightarrow> int \<Rightarrow> bytes option option" where
  "iniparser_getsecname dp n = (case dp of None \<Rightarrow> Some None
     | Some d \<Rightarrow> if n < 0 then Some None else sec_slot d n 0 0)"

definition iniparser_getstring :: "dictionary option \<Rightarrow> bytes option \<Rightarrow> char_ptr \<Rightarrow> char_ptr option" where
  "iniparser_getstring dp kp def = (case (dp, kp) of
     (Some d, Some key) \<Rightarrow> dictionary_get d (strlwc key) def | _ \<Rightarrow> Some def)"

definition iniparser_getint :: "dictionary option \<Rightarrow> bytes option \<Rightarrow> int \<Rightarrow> int option" where
  "iniparser_getint dp kp notfound = do {
     str \<leftarrow> iniparser_getstring dp kp InvalidKey;
     case str of InvalidKey \<Rightarrow> Some notfound | NullPtr \<Rightarrow> None | CStr s \<Rightarrow> Some (strtol s)
   }"

definition iniparser_getboolean :: "dictionary option \<Rightarrow> bytes option \<Rightarrow> int \<Rightarrow> int option" where
  "iniparser_getboolean dp kp notfound = do {
     str \<leftarrow> iniparser_getstring dp kp InvalidKey;
     case str of InvalidKey \<Rightarrow> Some notfound | NullPtr \<Rightarrow> None
     | CStr s \<Rightarrow> Some (if take 1 s \<in> {[121], [89], [49], [116], [84]} then 1
                      else if take 1 s \<in> {[110], [78], [48], [102], [70]} then 0 else notfound)
   }"

definition iniparser_find_entry :: "dictionary option \<Rightarrow> bytes option \<Rightarrow> int option" where
  "iniparser_find_entry dp kp = do {
     str \<leftarrow> iniparser_getstring dp kp InvalidKey;
     Some (if str \<noteq> InvalidKey then 1 else 0)
   }"

definition iniparser_set ::
    "(nat \<Rightarrow> bool) \<Rightarrow> dictionary option \<Rightarrow> bytes option \<Rightarrow> bytes option \<Rightarrow> (int \<times> dictionary option) option" where
  "iniparser_set alloc dp entry val = dictionary_set alloc dp (map_option strlwc entry) val"

definition iniparser_unset :: "dictionary \<Rightarrow> bytes option \<Rightarrow> dictionary option" where
  "iniparser_unset d entry = dictionary_unset d (map_option strlwc entry)"

section \<open>Printing\<close>

definition crlf :: bytes where "crlf = [13, 10]"

definition pad30 :: "bytes \<Rightarrow> bytes" where
  "pad30 s = s @ replicate (30 - length s) 32"

definition iniparser_dump :: "dictionary option \<Rightarrow> FILE \<times> fsys \<Rightarrow> (FILE \<times> fsys) option" where
  "iniparser_dump dp st = (case dp of None \<Rightarrow> Some st
     | Some d \<Rightarrow> each_key d (\<lambda>i k st. do {
         v \<leftarrow> slot_get (dict_val d) i;
         fprintf (case v of Some v \<Rightarrow> [91] @ k @ [93, 61, 91] @ v @ [93] @ crlf
                  | None \<Rightarrow> [91] @ k @ [93, 61] @ map of_char ''UNDEF'' @ crlf) st
       }) st)"

definition dump_section :: "dictionary \<Rightarrow> nat \<Rightarrow> FILE \<times> fsys \<Rightarrow> (FILE \<times> fsys) option" where
  "dump_section d i st = do {
     secname \<leftarrow> iniparser_getsecname (Some d) (int i);
     secname \<leftarrow> secname;
     let seclen = length secname;
     st \<leftarrow> fprintf (crlf @ [91] @ secname @ [93] @ crlf) st;
     keym \<leftarrow> (if seclen + 1 \<le> ASCIILINESZ then Some (secname @ [58]) else None);
     each_key d (\<lambda>j k st.
       if take (seclen + 1) k = keym then do {
         v \<leftarrow> slot_get (dict_val d) j;
         fprintf (pad30 (drop (seclen + 1) k) @ [32, 61, 32] @ (case v of Some v \<Rightarrow> v | None \<Rightarrow> []) @ crlf) st
       }
       else Some st) st
   }"

text \<open>Without a section the keys are printed as they are; a NULL value is then undefined.\<close>

definition iniparser_dump_ini :: "dictionary option \<Rightarrow> FILE \<times> fsys \<Rightarrow> (FILE \<times> fsys) option" where
  "iniparser_dump_ini dp st = (case dp of None \<Rightarrow> Some st
     | Some d \<Rightarrow> do {
         nsec \<leftarrow> iniparser_getnsec (Some d);
         if nsec < 1 then
           each_key d (\<lambda>i k st. do {
             v \<leftarrow> slot_get (dict_val d) i;
             v \<leftarrow> v;
             fprintf (k @ [32, 61, 32] @ v @ crlf) st
           }) st
         else do {
           st \<leftarrow> walk (dump_section d) [0..<nat nsec] st;
           fprintf crlf st
         }
       })"

section \<open>One line\<close>

datatype line_status = LINE_UNPROCESSED | LINE_ERROR | LINE_EMPTY | LINE_COMMENT | LINE_SECTION | LINE_VALUE

text \<open>One call of \<open>sscanf\<close> for a key and a value: whether both were assigned, and the two buffers.\<close>

definition scan_pair :: "directive list \<Rightarrow> bytes \<Rightarrow> bytes \<times> bytes \<Rightarrow> bool \<times> bytes \<times> bytes" where
  "scan_pair ds line = (\<lambda>(key, val). case sscanf ds line of
     [] \<Rightarrow> (False, key, val) | [k] \<Rightarrow> (False, k, val) | k # v # r \<Rightarrow> (r = [], k, v))"

fun scan_any :: "directive list list \<Rightarrow> bytes \<Rightarrow> bytes \<times> bytes \<Rightarrow> bool \<times> bytes \<times> bytes" where
  "scan_any [] line kv = (False, kv)"
| "scan_any (ds # dss) line kv = (let (ok, kv) = scan_pair ds line kv in if ok then (True, kv) else scan_any dss line kv)"

definition not_in :: "u8 \<Rightarrow> u8 \<Rightarrow> bool" where "not_in c x \<longleftrightarrow> x \<noteq> c"

definition value_formats :: "directive list list" where
  "value_formats =
     [[Conv (not_in 61), White, Lit 61, White, Lit 34, Conv (not_in 34), Lit 34],
      [Conv (not_in 61), White, Lit 61, White, Lit 39, Conv (not_in 39), Lit 39],
      [Conv (not_in 61), White, Lit 61, White, Conv (not_in 10)]]"

definition special_formats :: "directive list list" where
  "special_formats =
     [[Conv (not_in 61), White, Lit 61, White, Conv (\<lambda>c. c = 59 \<or> c = 35)],
      [Conv (not_in 61), White, Conv (\<lambda>c. c = 61)]]"

definition iniparser_line :: "bytes \<Rightarrow> bytes \<times> bytes \<times> bytes \<Rightarrow> (line_status \<times> bytes \<times> bytes \<times> bytes) option" where
  "iniparser_line input_line = (\<lambda>(section, key, val). do {
     line \<leftarrow> strstrip input_line;
     if line = [] then Some (LINE_EMPTY, section, key, val)
     else if hd line = 35 \<or> hd line = 59 then Some (LINE_COMMENT, section, key, val)
     else if hd line = 91 \<and> last line = 93 then do {
       let section = (case sscanf [Lit 91, Conv (not_in 93), Lit 93] line of [] \<Rightarrow> section | s # _ \<Rightarrow> s);
       section \<leftarrow> strstrip section;
       Some (LINE_SECTION, strlwc section, key, val)
     }
     else do {
       let (ok, key, val) = scan_any value_formats line (key, val);
       if ok then do {
         key \<leftarrow> strstrip key;
         val \<leftarrow> strstrip val;
         Some (LINE_VALUE, section, strlwc key, if val = [34, 34] \<or> val = [39, 39] then [] else val)
       }
       else do {
         let (ok, key, val) = scan_any special_formats line (key, val);
         if ok then do {
           key \<leftarrow> strstrip key;
           Some (LINE_VALUE, section, strlwc key, [])
         }
         else Some (LINE_ERROR, section, key, val)
       }
     }
   })"

section \<open>The file\<close>

text \<open>The buffers \<open>section\<close>, \<open>key\<close> and \<open>val\<close> keep their contents from line to line, \<open>errs\<close> only from error to error.\<close>

record load_state =
  ls_dict :: dictionary
  ls_bufs :: "bytes \<times> bytes \<times> bytes"
  ls_errs :: int

definition load_line :: "(nat \<Rightarrow> bool) \<Rightarrow> bytes \<Rightarrow> load_state \<Rightarrow> load_state option" where
  "load_line alloc line st = do {
     (sta, section, key, val) \<leftarrow> iniparser_line line (ls_bufs st);
     let st = st\<lparr>ls_bufs := (section, key, val)\<rparr>;
     (case sta of
        LINE_SECTION \<Rightarrow> do {
          (errs, d) \<leftarrow> dict_put alloc (ls_dict st) section None;
          Some (st\<lparr>ls_dict := d, ls_errs := errs\<rparr>)
        }
      | LINE_VALUE \<Rightarrow>
          if ASCIILINESZ < length section + 1 + length key then None
          else do {
            (errs, d) \<leftarrow> dict_put alloc (ls_dict st) (section @ [58] @ key) (Some val);
            Some (st\<lparr>ls_dict := d, ls_errs := errs\<rparr>)
          }
      | LINE_ERROR \<Rightarrow> Some (st\<lparr>ls_errs := ls_errs st + 1\<rparr>)
      | _ \<Rightarrow> Some st)
   }"

definition load_end :: "load_state \<Rightarrow> dictionary option option" where
  "load_end st =
     (if ls_errs st \<noteq> 0 then do {
        dictionary_del (Some (ls_dict st));
        Some None
      }
      else Some (Some (ls_dict st)))"

lemma fgets_shorter: "fgets broken n rest = Some (l, rest') \<Longrightarrow> length rest' < length rest"
  by (cases rest) (auto simp: fgets_def Let_def split: if_splits)

function load_loop :: "(nat \<Rightarrow> bool) \<Rightarrow> bool \<Rightarrow> bytes \<Rightarrow> load_state \<Rightarrow> dictionary option option" where
  "load_loop alloc broken rest st =
     (case fgets broken ASCIILINESZ rest of
        None \<Rightarrow> load_end st
      | Some (l, rest) \<Rightarrow>
          let line = takeWhile (\<lambda>c. c \<noteq> 0) l in
          if line = [] then None
          else if length line = 1 then load_loop alloc broken rest st
          else if last line \<noteq> 10 then do {
            dictionary_del (Some (ls_dict st));
            Some None
          }
          else do {
            st \<leftarrow> load_line alloc (rstrip line) st;
            if ls_errs st < 0 then load_end st else load_loop alloc broken rest st
          })"
  by pat_completeness auto
termination
  by (relation "measure (\<lambda>(_, _, rest, _). length rest)") (auto dest!: fgets_shorter)

declare load_loop.simps [simp del]

definition iniparser_load :: "(nat \<Rightarrow> bool) \<Rightarrow> fsys \<Rightarrow> path \<Rightarrow> dictionary option option" where
  "iniparser_load alloc fs ininame =
     (case fst (fopen fs ininame False) of
        None \<Rightarrow> Some None
      | Some h \<Rightarrow>
          (case dictionary_new alloc 0 of
             None \<Rightarrow> Some None
           | Some dict \<Rightarrow>
               load_loop alloc (readable_end fs ininame < length (file_bytes fs ininame))
                 (take (readable_end fs ininame) (file_bytes fs ininame))
                 \<lparr>ls_dict = dict, ls_bufs = ([], [], []), ls_errs = 0\<rparr>))"

definition iniparser_freedict :: "dictionary option \<Rightarrow> unit option" where
  "iniparser_freedict dp = dictionary_del dp"

end
