(* ===== verification/INI_Roundtrip.thy ===== *)
theory INI_Roundtrip
  imports INI_Parser
begin

text \<open>
  Printing a dictionary with \<open>iniparser_dump_ini\<close> and loading the file with \<open>iniparser_load\<close>. The first
  part computes what the loops over the slots print, the second what a printed line does when it is
  loaded; the round trip puts them together over the interface of a map store.
\<close>

section \<open>The entries of a dictionary\<close>

definition entry_at :: "dictionary \<Rightarrow> nat \<Rightarrow> (bytes \<times> bytes option) option" where
  "entry_at d i = map_option (\<lambda>k. (k, dict_val d ! i)) (dict_key d ! i)"

definition entries :: "dictionary \<Rightarrow> (bytes \<times> bytes option) list" where
  "entries d = List.map_filter (entry_at d) [0..<dict_size d]"

definition sections :: "dictionary \<Rightarrow> bytes list" where
  "sections d = filter (\<lambda>k. 58 \<notin> set k) (map fst (entries d))"

definition entries_of :: "dictionary \<Rightarrow> bytes \<Rightarrow> (bytes \<times> bytes option) list" where
  "entries_of d s = filter (\<lambda>(k, v). take (length s + 1) k = s @ [58]) (entries d)"

lemma map_filter_simps [simp]:
  "List.map_filter f [] = []"
  "List.map_filter f (x # xs) = (case f x of None \<Rightarrow> List.map_filter f xs | Some y \<Rightarrow> y # List.map_filter f xs)"
  by (simp_all add: List.map_filter_simps)

lemma set_entries:
  assumes "dict_ok d"
  shows "(k, v) \<in> set (entries d) \<longleftrightarrow> dict_map d k = Some v"
proof
  assume "(k, v) \<in> set (entries d)"
  then obtain i where i: "i < dict_size d" "dict_key d ! i = Some k" "v = dict_val d ! i"
    by (auto simp: entries_def entry_at_def List.map_filter_def)
  then show "dict_map d k = Some v" using dict_map_slot [OF assms i(1,2)] by simp
next
  assume a: "dict_map d k = Some v"
  then obtain i where i: "i < dict_size d" "dict_key d ! i = Some k" "v = dict_val d ! i"
    by (cases rule: dict_map_cases [OF assms, of k]) auto
  then show "(k, v) \<in> set (entries d)"
    by (force simp: entries_def entry_at_def List.map_filter_def image_iff)
qed

lemma set_sections: "dict_ok d \<Longrightarrow> s \<in> set (sections d) \<longleftrightarrow> 58 \<notin> set s \<and> dict_map d s \<noteq> None"
  using set_entries [of d s] by (force simp: sections_def image_iff)

lemma each_key_entries:
  assumes "dict_ok d" "\<And>i k s. i < dict_size d \<Longrightarrow> dict_key d ! i = Some k \<Longrightarrow> f i k s = g (k, dict_val d ! i) s"
  shows "each_key d f s = walk g (entries d) s"
proof -
  have "walk (\<lambda>i s. do { k \<leftarrow> slot_get (dict_key d) i; case k of None \<Rightarrow> Some s | Some k \<Rightarrow> f i k s }) is s =
      walk g (List.map_filter (entry_at d) is) s" if "set is \<subseteq> {..<dict_size d}" for "is"
    using that
  proof (induction "is" arbitrary: s)
    case (Cons i "is")
    then show ?case
      using dict_lengths(1) [OF assms(1)] assms(2) [of i] by (cases "dict_key d ! i") (simp_all add: entry_at_def)
  qed simp
  note w = this
  show ?thesis unfolding each_key_def entries_def by (rule w) auto
qed

lemma getnsec_sections:
  assumes "dict_ok d"
  shows "iniparser_getnsec (Some d) = Some (int (length (sections d)))"
proof -
  have w: "walk (\<lambda>(k, v) n. Some (if 58 \<notin> set k then n + 1 else n)) es n =
      Some (n + int (length (filter (\<lambda>k. 58 \<notin> set k) (map fst es))))" for es :: "(bytes \<times> bytes option) list" and n
    by (induction es arbitrary: n) (auto split: prod.splits)
  have "each_key d (\<lambda>i k nsec. Some (if 58 \<notin> set k then nsec + 1 else nsec)) (0 :: int) =
      walk (\<lambda>(k, v) n. Some (if 58 \<notin> set k then n + 1 else n)) (entries d) 0"
    by (rule each_key_entries [OF assms]) simp
  then show ?thesis unfolding iniparser_getnsec_def w by (simp add: sections_def)
qed

lemma sec_slot_result:
  assumes "dict_ok d" "i \<le> dict_size d"
  defines "rest \<equiv> \<lambda>i. filter (\<lambda>k. 58 \<notin> set k) (map fst (List.map_filter (entry_at d) [i..<dict_size d]))"
  shows "sec_slot d (f + int j) f i = Some (if j < length (rest i) then Some (rest i ! j) else None)"
  using assms(2)
proof (induction "dict_size d - i" arbitrary: i f j)
  case 0
  then show ?case by (simp add: sec_slot.simps [of d _ f i] rest_def)
next
  case (Suc n)
  then have i: "i < dict_size d" "i < length (dict_key d)" using dict_lengths [OF assms(1)] by simp_all
  have IH: "sec_slot d (f + int j) f (i + 1) = Some (if j < length (rest (i + 1)) then Some (rest (i + 1) ! j) else None)" for f j
    using Suc.hyps(1) [of "i + 1" f j] Suc.hyps(2) i(1) by simp
  have step: "rest i = (case dict_key d ! i of None \<Rightarrow> rest (i + 1) | Some k \<Rightarrow> if 58 \<notin> set k then k # rest (i + 1) else rest (i + 1))"
    using i(1) by (simp add: rest_def upt_conv_Cons entry_at_def split: option.split)
  show ?case
  proof (cases "dict_key d ! i")
    case None
    then show ?thesis using IH [of f j] i by (simp add: step sec_slot.simps [of d "f + int j" f i])
  next
    case (Some k)
    show ?thesis
    proof (cases "58 \<in> set k \<or> j = 0")
      case True
      then show ?thesis using IH [of f j] i Some by (auto simp: step sec_slot.simps [of d "f + int j" f i])
    next
      case False
      then obtain j' where "j = Suc j'" by (cases j) auto
      then show ?thesis
        using IH [of "f + 1" j'] i Some False by (simp add: step sec_slot.simps [of d "f + (1 + int j')" f i] add.assoc)
    qed
  qed
qed

lemma getsecname_sections:
  "dict_ok d \<Longrightarrow> j < length (sections d) \<Longrightarrow> iniparser_getsecname (Some d) (int j) = Some (Some (sections d ! j))"
  using sec_slot_result [of d 0 0 j] by (simp add: iniparser_getsecname_def sections_def entries_def)

section \<open>What is printed\<close>

text \<open>The file at \<open>p\<close> holds \<open>t\<close> and the handle stands at its end.\<close>

definition written :: "fsys \<Rightarrow> path \<Rightarrow> bytes \<Rightarrow> FILE \<times> fsys \<Rightarrow> bool" where
  "written fs0 p t st \<longleftrightarrow> length t \<le> fs_room fs0 \<and>
     st = (\<lparr>f_path = p, f_pos = length t, f_write = True\<rparr>,
       fs0\<lparr>fs_files := (fs_files fs0)(p := Some t), fs_room := fs_room fs0 - length t\<rparr>)"

definition prints :: "fsys \<Rightarrow> path \<Rightarrow> (FILE \<times> fsys \<Rightarrow> (FILE \<times> fsys) option) \<Rightarrow> bytes \<Rightarrow> bool" where
  "prints fs0 p f x \<longleftrightarrow> (\<forall>t st. written fs0 p t st \<longrightarrow> length (t @ x) \<le> fs_room fs0 \<longrightarrow>
     (\<exists>st'. f st = Some st' \<and> written fs0 p (t @ x) st'))"

lemma prints_fprintf:
  assumes "fs_sound fs0"
  shows "prints fs0 p (fprintf x) x"
  unfolding prints_def
proof (intro allI impI)
  fix t st
  assume w: "written fs0 p t st" and room: "length (t @ x) \<le> fs_room fs0"
  have st: "st = (\<lparr>f_path = p, f_pos = length t, f_write = True\<rparr>,
       fs0\<lparr>fs_files := (fs_files fs0)(p := Some t), fs_room := fs_room fs0 - length t\<rparr>)"
    using w by (simp add: written_def)
  have sound: "fs_sound (snd st)" using assms by (simp add: st fs_sound_def)
  show "\<exists>st'. fprintf x st = Some st' \<and> written fs0 p (t @ x) st'"
    using room kept_sound [OF sound]
    by (simp add: st fprintf_def fwrite_def written_def Let_def overwrite_def file_bytes_def min_def)
qed

lemma prints_seq:
  assumes "prints fs0 p f x" "prints fs0 p g y"
  shows "prints fs0 p (\<lambda>st. do { st \<leftarrow> f st; g st }) (x @ y)"
  unfolding prints_def
proof (intro allI impI)
  fix t st
  assume w: "written fs0 p t st" and room: "length (t @ x @ y) \<le> fs_room fs0"
  obtain st1 where st1: "f st = Some st1" "written fs0 p (t @ x) st1"
    using assms(1) w room unfolding prints_def by fastforce
  obtain st2 where "g st1 = Some st2" "written fs0 p ((t @ x) @ y) st2"
    using assms(2) st1(2) room unfolding prints_def by fastforce
  then show "\<exists>st'. (do { st \<leftarrow> f st; g st }) = Some st' \<and> written fs0 p (t @ x @ y) st'" using st1(1) by simp
qed

lemma prints_nothing: "prints fs0 p Some []"
  by (simp add: prints_def)

lemma prints_walk:
  assumes "\<And>e. e \<in> set es \<Longrightarrow> prints fs0 p (f e) (g e)"
  shows "prints fs0 p (walk f es) (concat (map g es))"
  using assms
proof (induction es)
  case Nil
  then show ?case by (simp add: prints_def)
next
  case (Cons e es)
  then show ?case using prints_seq [of fs0 p "f e" "g e" "walk f es"] by simp
qed

definition entry_line :: "bytes \<Rightarrow> bytes option \<Rightarrow> bytes" where
  "entry_line n v = pad30 n @ [32, 61, 32] @ (case v of Some v \<Rightarrow> v | None \<Rightarrow> []) @ crlf"

definition section_text :: "dictionary \<Rightarrow> bytes \<Rightarrow> bytes" where
  "section_text d s = crlf @ [91] @ s @ [93] @ crlf @
     concat (map (\<lambda>(k, v). entry_line (drop (length s + 1) k) v) (entries_of d s))"

definition dump_text :: "dictionary \<Rightarrow> bytes" where
  "dump_text d = (if sections d = [] then [] else concat (map (section_text d) (sections d)) @ crlf)"

lemma concat_map_filter: "concat (map g (filter P xs)) = concat (map (\<lambda>x. if P x then g x else []) xs)"
  by (induction xs) simp_all

lemma prints_section:
  assumes "dict_ok d" "fs_sound fs0" "i < length (sections d)" "length (sections d ! i) < ASCIILINESZ"
  shows "prints fs0 p (dump_section d i) (section_text d (sections d ! i))"
proof -
  let ?s = "sections d ! i"
  let ?e = "\<lambda>(k, v). if take (length ?s + 1) k = ?s @ [58] then entry_line (drop (length ?s + 1) k) v else []"
  let ?f = "\<lambda>(k, v). if take (length ?s + 1) k = ?s @ [58] then fprintf (entry_line (drop (length ?s + 1) k) v) else Some"
  let ?loop = "each_key d (\<lambda>j k st. if take (length ?s + 1) k = ?s @ [58] then do {
      v \<leftarrow> slot_get (dict_val d) j;
      fprintf (pad30 (drop (length ?s + 1) k) @ [32, 61, 32] @ (case v of Some v \<Rightarrow> v | None \<Rightarrow> []) @ crlf) st
    } else Some st)"
  have loop: "?loop = walk ?f (entries d)"
    by (rule ext, rule each_key_entries [OF assms(1)]) (simp add: entry_line_def dict_lengths [OF assms(1)])
  have body: "prints fs0 p (walk ?f (entries d)) (concat (map ?e (entries d)))"
  proof (rule prints_walk)
    show "prints fs0 p (?f e) (?e e)" for e
      using prints_fprintf [OF assms(2)] prints_nothing by (cases e) simp
  qed
  have joined: "concat (map ?e (entries d)) = concat (map (\<lambda>(k, v). entry_line (drop (length ?s + 1) k) v) (entries_of d ?s))"
    unfolding entries_of_def concat_map_filter by (rule arg_cong [where f = concat], rule map_cong) auto
  have "prints fs0 p ?loop (concat (map (\<lambda>(k, v). entry_line (drop (length ?s + 1) k) v) (entries_of d ?s)))"
    unfolding loop joined [symmetric] by (rule body)
  from prints_seq [OF prints_fprintf [OF assms(2), of p "crlf @ [91] @ ?s @ [93] @ crlf"] this]
  show ?thesis
    using assms(4) getsecname_sections [OF assms(1,3)]
    by (simp add: prints_def dump_section_def section_text_def Let_def)
qed

lemma prints_dump:
  assumes "dict_ok d" "fs_sound fs0" "\<And>s. s \<in> set (sections d) \<Longrightarrow> length s < ASCIILINESZ"
    and "sections d = [] \<Longrightarrow> entries d = []"
  shows "prints fs0 p (iniparser_dump_ini (Some d)) (dump_text d)"
proof (cases "sections d = []")
  case True
  have none: "dict_key d ! i \<noteq> Some k" if "i < dict_size d" for i k
  proof
    assume "dict_key d ! i = Some k"
    from dict_map_slot [OF assms(1) that this] have "(k, dict_val d ! i) \<in> set (entries d)"
      using set_entries [OF assms(1)] by blast
    then show False using assms(4) [OF True] by simp
  qed
  have "each_key d f st = walk (\<lambda>_. Some) (entries d) st" for f :: "nat \<Rightarrow> bytes \<Rightarrow> FILE \<times> fsys \<Rightarrow> (FILE \<times> fsys) option" and st
    by (rule each_key_entries [OF assms(1)]) (use none in blast)
  then have each: "each_key d f st = Some st" for f :: "nat \<Rightarrow> bytes \<Rightarrow> FILE \<times> fsys \<Rightarrow> (FILE \<times> fsys) option" and st
    using assms(4) [OF True] by simp
  have nsec: "iniparser_getnsec (Some d) = Some 0" using getnsec_sections [OF assms(1)] True by simp
  have "iniparser_dump_ini (Some d) st = Some st" for st
    unfolding iniparser_dump_ini_def option.case nsec bind.bind_lunit by (simp only: each) simp
  then have "iniparser_dump_ini (Some d) = Some" by (rule ext)
  then show ?thesis using prints_nothing [of fs0 p] True by (simp add: dump_text_def)
next
  case False
  let ?n = "length (sections d)"
  have "prints fs0 p (walk (dump_section d) [0..<?n]) (concat (map (\<lambda>i. section_text d (sections d ! i)) [0..<?n]))"
  proof (rule prints_walk)
    fix i
    assume "i \<in> set [0..<?n]"
    then have i: "i < ?n" by simp
    show "prints fs0 p (dump_section d i) (section_text d (sections d ! i))"
      by (rule prints_section [OF assms(1,2) i assms(3) [OF nth_mem [OF i]]])
  qed
  moreover have "map (\<lambda>i. section_text d (sections d ! i)) [0..<?n] = map (section_text d) (sections d)"
    by (rule nth_equalityI) simp_all
  ultimately have "prints fs0 p (walk (dump_section d) [0..<?n]) (concat (map (section_text d) (sections d)))" by simp
  note all = prints_seq [OF this prints_fprintf [OF assms(2)], of crlf]
  have "iniparser_dump_ini (Some d) = (\<lambda>st. do { st \<leftarrow> walk (dump_section d) [0..<?n] st; fprintf crlf st })"
    using False getnsec_sections [OF assms(1)] by (intro ext) (simp add: iniparser_dump_ini_def)
  then show ?thesis using all False by (simp add: dump_text_def)
qed

section \<open>What a printed line loads\<close>

definition stripped :: "bytes \<Rightarrow> bool" where
  "stripped s \<longleftrightarrow> s \<noteq> [] \<and> \<not> isspace (hd s) \<and> \<not> isspace (last s)"

definition plain_section :: "bytes \<Rightarrow> bool" where
  "plain_section s \<longleftrightarrow> stripped s \<and> set s \<inter> {0, 10, 58, 93} = {} \<and> map tolower s = s \<and> length s < 1020"

definition plain_name :: "bytes \<Rightarrow> bool" where
  "plain_name n \<longleftrightarrow> stripped n \<and> set n \<inter> {0, 10, 61} = {} \<and> hd n \<notin> {35, 59, 91} \<and> map tolower n = n"

definition plain_value :: "bytes \<Rightarrow> bool" where
  "plain_value v \<longleftrightarrow> set v \<inter> {0, 10} = {} \<and> (v = [] \<or> stripped v \<and> hd v \<notin> {34, 39})"

lemma isspace_simps [simp]:
  "isspace 32" "isspace 13" "isspace 10" "\<not> isspace 61" "\<not> isspace 91" "\<not> isspace 93" "\<not> isspace 34" "\<not> isspace 39"
  by (simp_all add: isspace_def)

lemma rstrip_id: "s = [] \<or> \<not> isspace (last s) \<Longrightarrow> rstrip s = s"
  by (cases s rule: rev_cases) (auto simp: rstrip_def)

lemma rstrip_snoc [simp]: "isspace c \<Longrightarrow> rstrip (s @ [c]) = rstrip s"
  by (simp add: rstrip_def)

lemma rstrip_blanks: "(\<forall>c \<in> set b. isspace c) \<Longrightarrow> rstrip (s @ b) = rstrip s"
proof (induction b rule: rev_induct)
  case (snoc c b)
  then show ?case using rstrip_snoc [of c "s @ b"] by simp
qed simp

lemma dropWhile_stripped: "s = [] \<or> \<not> isspace (hd s) \<Longrightarrow> dropWhile isspace s = s"
  by (cases s) auto

lemma strstrip_blanks:
  assumes "stripped s" "\<forall>c \<in> set b. isspace c" "length (s @ b) \<le> ASCIILINESZ"
  shows "strstrip (s @ b) = Some s"
proof -
  have "dropWhile isspace (s @ b) = s @ b" using assms(1) by (intro dropWhile_stripped) (auto simp: stripped_def)
  moreover have "rstrip (s @ b) = s" using rstrip_blanks [OF assms(2), of s] rstrip_id [of s] assms(1) by (simp add: stripped_def)
  ultimately show ?thesis using assms(3) by (simp add: strstrip_def)
qed

lemma strstrip_id: "stripped s \<Longrightarrow> length s \<le> ASCIILINESZ \<Longrightarrow> strstrip s = Some s"
  using strstrip_blanks [of s "[]"] by simp

lemma strlwc_id: "map tolower s = s \<Longrightarrow> length s \<le> ASCIILINESZ \<Longrightarrow> strlwc s = s"
  by (simp add: strlwc_def)

lemma takeWhile_until: "c \<notin> set a \<Longrightarrow> takeWhile (not_in c) (a @ c # r) = a"
  by (induction a) (auto simp: not_in_def)

lemma takeWhile_all: "c \<notin> set a \<Longrightarrow> takeWhile (not_in c) a = a"
  by (induction a) (auto simp: not_in_def)

text \<open>The section line.\<close>

lemma line_section:
  assumes "plain_section s"
  shows "iniparser_line (91 # s @ [93]) (section, key, val) = Some (LINE_SECTION, s, key, val)"
proof -
  have p: "stripped s" "93 \<notin> set s" "map tolower s = s" "length s < 1020" using assms by (auto simp: plain_section_def)
  have line: "strstrip (91 # s @ [93]) = Some (91 # s @ [93])"
    using p(4) by (intro strstrip_id) (simp_all add: stripped_def ASCIILINESZ_def)
  have "s \<noteq> []" using p(1) by (simp add: stripped_def)
  moreover have "strstrip s = Some s" "strlwc s = s"
    using strstrip_id [OF p(1)] strlwc_id [OF p(3)] p(4) by (simp_all add: ASCIILINESZ_def)
  ultimately show ?thesis
    using line takeWhile_until [OF p(2), of "[]"] by (simp add: iniparser_line_def Let_def)
qed

text \<open>The line of a key: the name, blanks, the equals sign, the value.\<close>

lemma scan_key:
  assumes "61 \<notin> set a" "a \<noteq> []"
  shows "sscanf (Conv (not_in 61) # ds) (a @ 61 # r) = a # sscanf ds (61 # r)"
  using takeWhile_until [OF assms(1), of r] assms(2) by simp

lemma line_value:
  assumes n: "plain_name n" and b: "\<forall>c \<in> set b. c = 32" and v: "plain_value v"
    and len: "length n + length b + length v + 2 \<le> ASCIILINESZ"
  shows "iniparser_line (if v = [] then n @ b @ [61] else n @ b @ [61, 32] @ v) (section, key, val) =
    Some (LINE_VALUE, section, n, v)"
proof -
  note p = n [unfolded plain_name_def]
  have ne: "n \<noteq> []" "n @ b \<noteq> []" using p by (auto simp: stripped_def)
  have eq: "61 \<notin> set (n @ b)" using p b by auto
  have blanks: "\<forall>c \<in> set b. isspace c" using b by auto
  have key: "strstrip (n @ b) = Some n" "strlwc n = n"
    using strstrip_blanks [OF _ blanks] strlwc_id p len by auto
  let ?line = "if v = [] then n @ b @ [61] else n @ b @ [61, 32] @ v"
  have head: "hd ?line = hd n" "?line \<noteq> []" using ne by auto
  have "stripped ?line" using p v ne by (auto simp: stripped_def plain_value_def)
  then have line: "strstrip ?line = Some ?line" using len by (intro strstrip_id) auto
  have start: "hd ?line \<noteq> 35" "hd ?line \<noteq> 59" "hd ?line \<noteq> 91" using p head by auto
  have scan: "sscanf (Conv (not_in 61) # ds) ?line = (n @ b) # sscanf ds (61 # (if v = [] then [] else 32 # v))" for ds
  proof -
    have "?line = (n @ b) @ 61 # (if v = [] then [] else 32 # v)" by simp
    then show ?thesis using scan_key [OF eq ne(2), of ds "if v = [] then [] else 32 # v"] by (simp only:)
  qed
  have pair: "scan_pair (Conv (not_in 61) # ds) ?line (k, w) =
      (case sscanf ds (61 # (if v = [] then [] else 32 # v)) of [] \<Rightarrow> (False, n @ b, w) | x # r \<Rightarrow> (r = [], n @ b, x))" for ds k w
    unfolding scan_pair_def scan by (simp split: list.split)
  show ?thesis
  proof (cases "v = []")
    case True
    have pt: "scan_pair (Conv (not_in 61) # ds) (n @ b @ [61]) (k, w) =
        (case sscanf ds [61] of [] \<Rightarrow> (False, n @ b, w) | x # r \<Rightarrow> (r = [], n @ b, x))" for ds k w
      using pair [of ds k w] by (simp only: True if_True simp_thms)
    have "scan_any value_formats ?line (key, val) = (False, n @ b, val)"
      unfolding value_formats_def by (simp add: True pt Let_def)
    moreover have "scan_any special_formats ?line (k, w) = (True, n @ b, [61])" for k w
      unfolding special_formats_def by (simp add: True pt Let_def)
    ultimately show ?thesis
      using line start head(2) key True unfolding iniparser_line_def by (simp add: Let_def)
  next
    case False
    have vp: "stripped v" "hd v \<noteq> 34" "hd v \<noteq> 39" "10 \<notin> set v" using v False by (auto simp: plain_value_def)
    have pf: "scan_pair (Conv (not_in 61) # ds) (n @ b @ 61 # 32 # v) (k, w) =
        (case sscanf ds (61 # 32 # v) of [] \<Rightarrow> (False, n @ b, w) | x # r \<Rightarrow> (r = [], n @ b, x))" for ds k w
      using pair [of ds k w] False by simp
    obtain x xs where x: "v = x # xs" "x \<noteq> 34" "x \<noteq> 39" "\<not> isspace x"
      using vp by (cases v) (auto simp: stripped_def)
    have rest: "sscanf (White # Lit 61 # White # Lit 34 # ds) (61 # 32 # v) = []"
      "sscanf (White # Lit 61 # White # Lit 39 # ds) (61 # 32 # v) = []"
      "sscanf [White, Lit 61, White, Conv (not_in 10)] (61 # 32 # v) = [v]" for ds
      using x takeWhile_all [OF vp(4)] by simp_all
    have "scan_any value_formats (n @ b @ 61 # 32 # v) (key, val) = (True, n @ b, v)"
      unfolding value_formats_def scan_any.simps pf rest Let_def list.case prod.case if_False if_True simp_thms ..
    then have "scan_any value_formats ?line (key, val) = (True, n @ b, v)" using False by simp
    moreover have "strstrip v = Some v" using strstrip_id [OF vp(1)] len by simp
    moreover have "v \<noteq> [34, 34]" "v \<noteq> [39, 39]" using vp by auto
    ultimately show ?thesis
      using line start head(2) key False unfolding iniparser_line_def by (simp add: Let_def)
  qed
qed

section \<open>Loading the text\<close>

lemma fgets_line:
  assumes "10 \<notin> set a" "length a < 1023"
  shows "fgets False ASCIILINESZ (a @ 10 # r) = Some (a @ [10], r)"
proof -
  have "takeWhile (\<lambda>c. c \<noteq> 10) (a @ 10 # r) = a" using assms(1) by (induction a) auto
  then show ?thesis using assms(2) by (simp add: fgets_def Let_def ASCIILINESZ_def)
qed

lemma load_loop_line:
  assumes "a \<noteq> []" "set a \<inter> {0, 10} = {}" "length a < 1023"
  shows "load_loop alloc False (a @ 10 # r) st =
    (do { st \<leftarrow> load_line alloc (rstrip a) st; if ls_errs st < 0 then load_end st else load_loop alloc False r st })"
proof -
  have "fgets False ASCIILINESZ (a @ 10 # r) = Some (a @ [10], r)" using assms by (intro fgets_line) auto
  moreover have "takeWhile (\<lambda>c. c \<noteq> 0) (a @ [10]) = a @ [10]" using assms(2) by (intro takeWhile_eq_all_conv [THEN iffD2]) auto
  ultimately show ?thesis using assms(1) by (subst load_loop.simps) (simp add: Let_def)
qed

lemma load_blank: "ls_errs st = 0 \<Longrightarrow> load_loop alloc False (crlf @ r) st = load_loop alloc False r st"
proof -
  have "rstrip [13] = []" by (simp add: rstrip_def)
  then have "load_line alloc (rstrip [13]) st = Some st"
    by (cases "ls_bufs st") (simp add: load_line_def iniparser_line_def strstrip_def rstrip_def)
  then show "ls_errs st = 0 \<Longrightarrow> load_loop alloc False (crlf @ r) st = load_loop alloc False r st"
    using load_loop_line [of "[13]" alloc r st] by (simp add: crlf_def)
qed

abbreviation loading :: "dictionary \<Rightarrow> bytes \<Rightarrow> bytes \<Rightarrow> bytes \<Rightarrow> load_state" where
  "loading d s k v \<equiv> \<lparr>ls_dict = d, ls_bufs = (s, k, v), ls_errs = 0\<rparr>"

lemma load_section:
  assumes "plain_section s" "dict_store alloc s None d = Some d'"
  shows "load_loop alloc False ([91] @ s @ [93] @ crlf @ r) (loading d s0 k v) = load_loop alloc False r (loading d' s k v)"
proof -
  let ?a = "91 # s @ [93, 13]"
  have a: "set ?a \<inter> {0, 10} = {}" "length ?a < 1023" using assms(1) by (auto simp: plain_section_def)
  have "rstrip ((91 # s @ [93]) @ [13]) = 91 # s @ [93]" by (subst rstrip_snoc) (simp_all add: rstrip_id)
  then have strip: "rstrip ?a = 91 # s @ [93]" by simp
  have put: "dict_put alloc d s None = Some (0, d')" using assms(2) by (auto simp: dict_store_def split: if_splits bind_splits)
  have "load_line alloc (rstrip ?a) (loading d s0 k v) = Some (loading d' s k v)"
    unfolding strip load_line_def by (simp add: line_section [OF assms(1)] put)
  then show ?thesis using load_loop_line [OF _ a, of alloc r] by (simp add: crlf_def)
qed

lemma load_entry:
  assumes n: "plain_name n" and v: "plain_value v" and len: "max 30 (length n) + length v + 4 < 1023" "length s + length n < ASCIILINESZ"
    and put: "dict_store alloc (s @ 58 # n) (Some v) d = Some d'"
  shows "load_loop alloc False (entry_line n (Some v) @ r) (loading d s k0 v0) = load_loop alloc False r (loading d' s n v)"
proof -
  let ?b = "replicate (30 - length n) 32 @ [32]"
  let ?a = "pad30 n @ [32, 61, 32] @ v @ [13]"
  let ?line = "if v = [] then n @ ?b @ [61] else n @ ?b @ [61, 32] @ v"
  have nn: "n \<noteq> []" "set n \<inter> {0, 10} = {}" using n by (auto simp: plain_name_def stripped_def)
  have a: "?a \<noteq> []" "set ?a \<inter> {0, 10} = {}" using nn v by (auto simp: pad30_def plain_value_def)
  have la: "length ?a < 1023" using len(1) by (simp add: pad30_def)
  have strip: "rstrip ?a = ?line"
  proof (cases "v = []")
    case True
    have "rstrip ((n @ ?b @ [61]) @ [32, 13]) = n @ ?b @ [61]" by (subst rstrip_blanks) (simp_all add: rstrip_id)
    then show ?thesis using True by (simp add: pad30_def)
  next
    case False
    then have "\<not> isspace (last v)" using v by (simp add: plain_value_def stripped_def)
    then have "rstrip ((n @ ?b @ [61, 32] @ v) @ [13]) = n @ ?b @ [61, 32] @ v"
      using False by (subst rstrip_blanks) (simp_all add: rstrip_id)
    then show ?thesis using False by (simp add: pad30_def)
  qed
  have "length n + length ?b + length v + 2 \<le> ASCIILINESZ" using len(1) by (simp add: ASCIILINESZ_def)
  then have parsed: "iniparser_line ?line (s, k0, v0) = Some (LINE_VALUE, s, n, v)"
    using line_value [OF n _ v, of ?b s k0 v0] by simp
  have "dict_put alloc d (s @ 58 # n) (Some v) = Some (0, d')" using put by (auto simp: dict_store_def split: if_splits bind_splits)
  then have "load_line alloc (rstrip ?a) (loading d s k0 v0) = Some (loading d' s n v)"
    unfolding strip load_line_def using parsed len(2) by (simp only: load_state.simps) simp
  then have "load_loop alloc False (?a @ 10 # r) (loading d s k0 v0) = load_loop alloc False r (loading d' s n v)"
    using load_loop_line [OF a la, of alloc r] by simp
  then show ?thesis by (simp add: entry_line_def crlf_def)
qed

section \<open>The round trip\<close>

definition text_of :: "bytes option \<Rightarrow> bytes" where
  "text_of v = (case v of Some v \<Rightarrow> v | None \<Rightarrow> [])"

text \<open>
  What the format can hold: sections with plain names, and keys with plain names and values. A key whose
  section is not in the dictionary is not printed, so it may be anything; without any section
  there must be no key.
\<close>

definition entry_ok :: "dictionary \<Rightarrow> bytes \<times> bytes option \<Rightarrow> bool" where
  "entry_ok d = (\<lambda>(k, v). if 58 \<notin> set k then plain_section k
     else (let s = takeWhile (not_in 58) k; n = drop (length s + 1) k in
       dict_map d s = None \<or> plain_name n \<and> plain_value (text_of v) \<and>
         max 30 (length n) + length (text_of v) + 4 < 1023 \<and> length k \<le> ASCIILINESZ))"

definition ini_plain :: "dictionary \<Rightarrow> bool" where
  "ini_plain d \<longleftrightarrow> list_all (entry_ok d) (entries d) \<and> (sections d = [] \<longrightarrow> entries d = [])"

definition reloaded :: "(bytes \<Rightarrow> bytes option option) \<Rightarrow> bytes \<Rightarrow> bytes option option" where
  "reloaded m k = (if 58 \<in> set k \<and> m (takeWhile (not_in 58) k) = None then None
     else map_option (\<lambda>v. if 58 \<in> set k then Some (text_of v) else None) (m k))"

definition section_puts :: "dictionary \<Rightarrow> bytes \<Rightarrow> (bytes \<times> bytes option) list" where
  "section_puts d s = (s, None) # map (\<lambda>(k, v). (k, Some (text_of v))) (entries_of d s)"

lemma entry_line_text: "entry_line n v = entry_line n (Some (text_of v))"
  by (simp add: entry_line_def text_of_def split: option.split)

lemma split_key: "58 \<in> set k \<Longrightarrow> k = takeWhile (not_in 58) k @ 58 # drop (length (takeWhile (not_in 58) k) + 1) k"
  by (induction k) (auto simp: not_in_def)

lemma in_entries_of:
  assumes "(k, v) \<in> set (entries_of d s)" "58 \<notin> set s"
  shows "(k, v) \<in> set (entries d)" "58 \<in> set k" "takeWhile (not_in 58) k = s" "k = s @ 58 # drop (length s + 1) k"
proof -
  have e: "(k, v) \<in> set (entries d)" "take (length s + 1) k = s @ [58]" using assms(1) by (auto simp: entries_of_def)
  have k: "k = s @ 58 # drop (length s + 1) k"
    using append_take_drop_id [of "length s + 1" k] unfolding e(2) by simp
  show "(k, v) \<in> set (entries d)" "k = s @ 58 # drop (length s + 1) k" by fact+
  show "58 \<in> set k" by (subst k) simp
  show "takeWhile (not_in 58) k = s" by (subst k) (rule takeWhile_until [OF assms(2)])
qed

lemma load_entries:
  assumes "\<forall>(k, v) \<in> set es. (k, v) \<in> set (entries_of d0 s)" "58 \<notin> set s" "ini_plain d0" "dict_map d0 s \<noteq> None"
    and "walk (\<lambda>(k, v). dict_store alloc k v) (map (\<lambda>(k, v). (k, Some (text_of v))) es) d = Some d'"
  shows "\<exists>k' v'. load_loop alloc False (concat (map (\<lambda>(k, v). entry_line (drop (length s + 1) k) v) es) @ r) (loading d s k0 v0) =
    load_loop alloc False r (loading d' s k' v')"
  using assms(1,5)
proof (induction es arbitrary: d k0 v0)
  case (Cons e es)
  obtain k v where e: "e = (k, v)" by fastforce
  have mem: "(k, v) \<in> set (entries_of d0 s)" using Cons.prems(1) e by auto
  note k = in_entries_of [OF mem assms(2)]
  let ?n = "drop (length s + 1) k"
  have "entry_ok d0 (k, v)" using assms(3) k(1) by (auto simp: ini_plain_def list_all_iff)
  then have ok: "plain_name ?n" "plain_value (text_of v)" "max 30 (length ?n) + length (text_of v) + 4 < 1023" "length k \<le> ASCIILINESZ"
    using k(2,3) assms(4) by (simp_all add: entry_ok_def Let_def)
  have "length s + length ?n < ASCIILINESZ" using arg_cong [OF k(4), of length] ok(4) by simp
  moreover obtain d1 where d1: "dict_store alloc k (Some (text_of v)) d = Some d1"
      "walk (\<lambda>(k, v). dict_store alloc k v) (map (\<lambda>(k, v). (k, Some (text_of v))) es) d1 = Some d'"
    using Cons.prems(2) e by (auto split: bind_splits)
  ultimately have "load_loop alloc False (entry_line ?n v @ x) (loading d s k0 v0) = load_loop alloc False x (loading d1 s ?n (text_of v))" for x
    using load_entry [OF ok(1-3), of s alloc d d1 x k0 v0] k(4) by (simp add: entry_line_text [of _ v])
  then show ?case using Cons.IH [OF _ d1(2)] Cons.prems(1) e by simp
qed auto

lemma load_section_text:
  assumes "s \<in> set (sections d0)" "dict_ok d0" "ini_plain d0"
    and "walk (\<lambda>(k, v). dict_store alloc k v) (section_puts d0 s) d = Some d'"
  shows "\<exists>k' v'. load_loop alloc False (section_text d0 s @ r) (loading d s0 k v) = load_loop alloc False r (loading d' s k' v')"
proof -
  have s: "58 \<notin> set s" "\<exists>v. (s, v) \<in> set (entries d0)" "dict_map d0 s \<noteq> None"
    using assms(1) set_sections [OF assms(2), of s] set_entries [OF assms(2), of s] by auto
  then have plain: "plain_section s" using assms(3) by (auto simp: ini_plain_def list_all_iff entry_ok_def)
  obtain d1 where d1: "dict_store alloc s None d = Some d1"
      "walk (\<lambda>(k, v). dict_store alloc k v) (map (\<lambda>(k, v). (k, Some (text_of v))) (entries_of d0 s)) d1 = Some d'"
    using assms(4) by (auto simp: section_puts_def split: bind_splits)
  let ?es = "concat (map (\<lambda>(k, v). entry_line (drop (length s + 1) k) v) (entries_of d0 s))"
  have "load_loop alloc False (section_text d0 s @ r) (loading d s0 k v) = load_loop alloc False (?es @ r) (loading d1 s k v)"
    using load_blank [of "loading d s0 k v" alloc "[91] @ s @ [93] @ crlf @ ?es @ r"] load_section [OF plain d1(1), of "?es @ r" s0 k v]
    by (simp add: section_text_def)
  then show ?thesis using load_entries [OF _ s(1) assms(3) s(3) d1(2), of r k v] by auto
qed

lemma load_sections:
  assumes "set ss \<subseteq> set (sections d0)" "dict_ok d0" "ini_plain d0"
    and "walk (\<lambda>(k, v). dict_store alloc k v) (concat (map (section_puts d0) ss)) d = Some d'"
  shows "\<exists>s' k' v'. load_loop alloc False (concat (map (section_text d0) ss) @ r) (loading d s0 k v) =
    load_loop alloc False r (loading d' s' k' v')"
  using assms(1,4)
proof (induction ss arbitrary: d s0 k v)
  case (Cons s ss)
  obtain d1 where d1: "walk (\<lambda>(k, v). dict_store alloc k v) (section_puts d0 s) d = Some d1"
      "walk (\<lambda>(k, v). dict_store alloc k v) (concat (map (section_puts d0) ss)) d1 = Some d'"
    using Cons.prems(2) by (auto simp: walk_append split: bind_splits)
  obtain k1 v1 where "load_loop alloc False (section_text d0 s @ concat (map (section_text d0) ss) @ r) (loading d s0 k v) =
      load_loop alloc False (concat (map (section_text d0) ss) @ r) (loading d1 s k1 v1)"
    using load_section_text [OF _ assms(2,3) d1(1), of "concat (map (section_text d0) ss) @ r" s0 k v] Cons.prems(1) by auto
  then show ?case using Cons.IH [OF _ d1(2), of s k1 v1] Cons.prems(1) by simp
qed auto

lemma load_dump_text:
  assumes "dict_ok d0" "ini_plain d0"
    and "walk (\<lambda>(k, v). dict_store alloc k v) (concat (map (section_puts d0) (sections d0))) d = Some d'"
  shows "load_loop alloc False (dump_text d0) (loading d [] [] []) = Some (Some d')"
proof -
  have stop: "load_loop alloc False [] (loading d' s k v) = Some (Some d')" for s k v
    by (subst load_loop.simps) (simp add: fgets_def load_end_def)
  show ?thesis
  proof (cases "sections d0 = []")
    case True
    then show ?thesis using assms(3) stop by (simp add: dump_text_def)
  next
    case False
    obtain s k v where "load_loop alloc False (concat (map (section_text d0) (sections d0)) @ crlf) (loading d [] [] []) =
        load_loop alloc False crlf (loading d' s k v)"
      using load_sections [OF order_refl assms, of crlf] by blast
    then show ?thesis using False stop load_blank [of "loading d' s k v" alloc "[]"] by (simp add: dump_text_def)
  qed
qed

lemma puts_agree:
  assumes "dict_ok d" "ini_plain d"
  defines "puts \<equiv> concat (map (section_puts d) (sections d))"
  shows "(k, v) \<in> set puts \<Longrightarrow> reloaded (dict_map d) k = Some v" "reloaded (dict_map d) k \<noteq> None \<Longrightarrow> k \<in> fst ` set puts"
proof -
  show "reloaded (dict_map d) k = Some v" if put: "(k, v) \<in> set puts"
  proof -
    obtain s where s: "s \<in> set (sections d)" "(k, v) \<in> set (section_puts d s)" using put by (auto simp: puts_def)
    have s58: "58 \<notin> set s" "dict_map d s \<noteq> None" using s(1) set_sections [OF assms(1)] by simp_all
    consider "k = s" "v = None" | w where "(k, w) \<in> set (entries_of d s)" "v = Some (text_of w)"
      using s(2) by (auto simp: section_puts_def)
    then show ?thesis
    proof cases
      case 1
      then show ?thesis using s58 by (auto simp: reloaded_def)
    next
      case 2
      note e = in_entries_of [OF 2(1) s58(1)]
      have "dict_map d k = Some w" using set_entries [OF assms(1)] e(1) by blast
      then show ?thesis using e(2,3) 2(2) s58(2) by (simp add: reloaded_def)
    qed
  qed
  show "k \<in> fst ` set puts" if loaded: "reloaded (dict_map d) k \<noteq> None"
  proof -
    obtain v where v: "dict_map d k = Some v" using loaded by (auto simp: reloaded_def split: if_splits)
    then have mem: "(k, v) \<in> set (entries d)" using set_entries [OF assms(1)] by blast
    show ?thesis
    proof (cases "58 \<in> set k")
      case False
      then have "k \<in> set (sections d)" using v set_sections [OF assms(1)] by simp
      then show ?thesis by (force simp: puts_def section_puts_def image_iff)
    next
      case True
      let ?s = "takeWhile (not_in 58) k"
      have "dict_map d ?s \<noteq> None" using True loaded unfolding reloaded_def by (metis (full_types))
      moreover have "58 \<notin> set ?s" by (auto simp: not_in_def dest: set_takeWhileD)
      ultimately have s: "?s \<in> set (sections d)" using set_sections [OF assms(1)] by blast
      have "take (length ?s + 1) k = ?s @ [58]"
        using arg_cong [OF split_key [OF True], of "take (length ?s + 1)"] by simp
      then have "(k, v) \<in> set (entries_of d ?s)" using mem by (simp add: entries_of_def)
      then have "(k, Some (text_of v)) \<in> set (section_puts d ?s)" by (force simp: section_puts_def)
      then show ?thesis using s by (force simp: puts_def image_iff)
    qed
  qed
qed

lemma ini_dump_exact:
  assumes ok: "dict_ok d" "ini_plain d" and fs: "fs_sound fs" "writable fs p" "length (dump_text d) \<le> fs_room fs"
    and alloc: "\<forall>n. alloc n"
  shows "\<exists>h fs1 h2 d'. fopen fs p True = (Some h, fs1) \<and> iniparser_dump_ini (Some d) (h, fs1) =
      Some (h2, fs\<lparr>fs_files := (fs_files fs)(p := Some (dump_text d)), fs_room := fs_room fs - length (dump_text d)\<rparr>) \<and>
    (\<forall>fs2. fs_files fs2 p = Some (dump_text d) \<longrightarrow> fs_fault fs2 p = None \<longrightarrow> iniparser_load alloc fs2 p = Some (Some d')) \<and>
    dict_ok d' \<and> dict_map d' = reloaded (dict_map d)"
proof -
  let ?h = "\<lparr>f_path = p, f_pos = 0, f_write = True\<rparr>" and ?fs1 = "fs\<lparr>fs_files := (fs_files fs)(p := Some [])\<rparr>"
  have open_p: "fopen fs p True = (Some ?h, ?fs1)" using fs(2) by (simp add: fopen_def)
  have short: "length s < ASCIILINESZ" if "s \<in> set (sections d)" for s
    using that ok(2) by (auto simp: sections_def ini_plain_def list_all_iff entry_ok_def plain_section_def ASCIILINESZ_def)
  have none: "entries d = []" if "sections d = []" using ok(2) that by (simp add: ini_plain_def)
  have "written fs p [] (?h, ?fs1)" by (simp add: written_def)
  moreover have "prints fs p (iniparser_dump_ini (Some d)) (dump_text d)"
    by (rule prints_dump [OF ok(1) fs(1) short none])
  ultimately obtain st where st: "iniparser_dump_ini (Some d) (?h, ?fs1) = Some st" "written fs p (dump_text d) st"
    using fs(3) unfolding prints_def by fastforce
  then obtain h2 where h2: "iniparser_dump_ini (Some d) (?h, ?fs1) =
      Some (h2, fs\<lparr>fs_files := (fs_files fs)(p := Some (dump_text d)), fs_room := fs_room fs - length (dump_text d)\<rparr>)"
    by (auto simp: written_def)
  obtain d1 where d1: "dictionary_new alloc 0 = Some d1" "dict_ok d1" "dict_map d1 = Map.empty"
    using dictionary_new_map [of alloc 0] alloc by (auto simp: allocates_def)
  obtain d' where d': "walk (\<lambda>(k, v). dict_store alloc k v) (concat (map (section_puts d) (sections d))) d1 = Some d'"
      "dict_ok d'" "dict_map d' = reloaded (dict_map d)"
    using dict.put_all_agree [where m = "reloaded (dict_map d)", OF conjI [OF d1(2) alloc] d1(3) puts_agree [OF ok]] by blast
  have "iniparser_load alloc fs2 p = Some (Some d')" if "fs_files fs2 p = Some (dump_text d)" "fs_fault fs2 p = None" for fs2
    using load_dump_text [OF ok d'(1)] that d1(1)
    by (simp add: iniparser_load_def fopen_def readable_end_def file_bytes_def)
  then show ?thesis using open_p h2 d'(2,3) by blast
qed

lemma ini_dump_load:
  assumes ok: "dict_ok d" "ini_plain d" and fs: "fs_sound fs" "writable fs p" "length (dump_text d) \<le> fs_room fs"
    and alloc: "\<forall>n. alloc n"
  shows "\<exists>h fs1 h2 fs2 d'. fopen fs p True = (Some h, fs1) \<and> iniparser_dump_ini (Some d) (h, fs1) = Some (h2, fs2) \<and>
    fs_files fs2 = (fs_files fs)(p \<mapsto> dump_text d) \<and> fs_fault fs2 = fs_fault fs \<and>
    iniparser_load alloc fs2 p = Some (Some d') \<and> dict_ok d' \<and> dict_map d' = reloaded (dict_map d)"
proof -
  obtain h fs1 h2 d' where w: "fopen fs p True = (Some h, fs1)" "iniparser_dump_ini (Some d) (h, fs1) =
      Some (h2, fs\<lparr>fs_files := (fs_files fs)(p := Some (dump_text d)), fs_room := fs_room fs - length (dump_text d)\<rparr>)"
      "\<forall>fs2. fs_files fs2 p = Some (dump_text d) \<longrightarrow> fs_fault fs2 p = None \<longrightarrow> iniparser_load alloc fs2 p = Some (Some d')"
      "dict_ok d'" "dict_map d' = reloaded (dict_map d)"
    using ini_dump_exact [OF assms] by blast
  let ?fs2 = "fs\<lparr>fs_files := (fs_files fs)(p := Some (dump_text d)), fs_room := fs_room fs - length (dump_text d)\<rparr>"
  have "iniparser_load alloc ?fs2 p = Some (Some d')" using w(3) fs_soundD(1) [OF fs(1)] by simp
  then show ?thesis using w(1,2,4,5) by (intro exI [of _ h] exI [of _ fs1] exI [of _ h2] exI [of _ ?fs2] exI [of _ d']) simp
qed

section \<open>The length of the text\<close>

lemma entries_distinct:
  assumes "dict_ok d"
  shows "distinct (map fst (entries d))"
proof -
  have "distinct (map fst (List.map_filter (entry_at d) is))" if "distinct is" "set is \<subseteq> {..<dict_size d}" for "is"
    using that
  proof (induction "is")
    case (Cons i "is")
    show ?case
    proof (cases "dict_key d ! i")
      case (Some k)
      have "k \<noteq> fst e" if e: "e \<in> set (List.map_filter (entry_at d) is)" for e
      proof -
        obtain j where "j \<in> set is" "entry_at d j = Some e" using e by (auto simp: List.map_filter_def)
        then have j: "j < dict_size d" "j \<noteq> i" "dict_key d ! j = Some (fst e)"
          using Cons.prems by (auto simp: entry_at_def)
        have "i < dict_size d" using Cons.prems by simp
        from dict_unique [OF assms this j(1) Some] j(2,3) show ?thesis by auto
      qed
      moreover have "entry_at d i = Some (k, dict_val d ! i)" by (simp add: entry_at_def Some)
      ultimately show ?thesis using Cons by force
    next
      case None
      then have "entry_at d i = None" by (simp add: entry_at_def)
      then show ?thesis using Cons by simp
    qed
  qed simp
  then show ?thesis by (simp add: entries_def atLeast_upt)
qed

lemma length_entries:
  assumes "dict_ok d"
  shows "length (entries d) = card (dom (dict_map d))"
proof -
  have "fst ` set (entries d) = dom (dict_map d)" using set_entries [OF assms] by force
  then show ?thesis using distinct_card [OF entries_distinct [OF assms]] by simp
qed

lemma sum_filters:
  assumes "distinct ss" "\<And>e s t. e \<in> set es \<Longrightarrow> s \<in> set ss \<Longrightarrow> t \<in> set ss \<Longrightarrow> P s e \<Longrightarrow> P t e \<Longrightarrow> s = t"
  shows "(\<Sum>s \<leftarrow> ss. length (filter (P s) es)) \<le> length es"
  using assms(2)
proof (induction es)
  case (Cons e es)
  have "length (filter (\<lambda>s. P s e) ss) \<le> 1"
  proof (rule ccontr)
    assume "\<not> ?thesis"
    then obtain s t r where f: "filter (\<lambda>s. P s e) ss = s # t # r"
      by (cases "filter (\<lambda>s. P s e) ss"; cases "tl (filter (\<lambda>s. P s e) ss)") auto
    have "distinct (s # t # r)" using assms(1) f [symmetric] by simp
    moreover have "set (s # t # r) = {s \<in> set ss. P s e}" using f [symmetric] by auto
    ultimately show False using Cons.prems [of e s t] by auto
  qed
  moreover have "(\<Sum>s \<leftarrow> ss. length (filter (P s) (e # es))) = length (filter (\<lambda>s. P s e) ss) + (\<Sum>s \<leftarrow> ss. length (filter (P s) es))"
    by (induction ss) auto
  moreover have "(\<Sum>s \<leftarrow> ss. length (filter (P s) es)) \<le> length es" by (rule Cons.IH) (use Cons.prems in auto)
  ultimately show ?case by simp
qed simp

lemma length_concat_le: "(\<And>x. x \<in> set xs \<Longrightarrow> length (f x) \<le> m) \<Longrightarrow> length (concat (map f xs)) \<le> m * length xs"
  by (induction xs) fastforce+

lemma length_entry_line: "length (entry_line n v) = max 30 (length n) + length (text_of v) + 5"
proof -
  have "length (pad30 n) = max 30 (length n)" by (simp add: pad30_def)
  then show ?thesis by (simp add: entry_line_text [of n v]) (simp add: entry_line_def crlf_def)
qed

lemma length_dump_text:
  assumes "dict_ok d" "ini_plain d"
  shows "length (dump_text d) \<le> 2052 * length (entries d) + 2"
proof -
  have line: "length (entry_line (drop (length s + 1) k) v) \<le> 1025" if "s \<in> set (sections d)" "(k, v) \<in> set (entries_of d s)" for s k v
  proof -
    have s: "58 \<notin> set s" using that(1) by (simp add: sections_def)
    note e = in_entries_of [OF that(2) s]
    have "entry_ok d (k, v)" using assms(2) e(1) by (auto simp: ini_plain_def list_all_iff)
    moreover have "dict_map d s \<noteq> None" using that(1) set_sections [OF assms(1)] by simp
    ultimately show ?thesis using e(2,3) unfolding length_entry_line by (simp add: entry_ok_def Let_def)
  qed
  have sec: "length (section_text d s) \<le> 1027 + 1025 * length (entries_of d s)" if "s \<in> set (sections d)" for s
  proof -
    have "plain_section s" using that assms(2) by (auto simp: sections_def ini_plain_def list_all_iff entry_ok_def)
    moreover have "length (concat (map (\<lambda>(k, v). entry_line (drop (length s + 1) k) v) (entries_of d s))) \<le> 1025 * length (entries_of d s)"
      by (rule length_concat_le) (use line [OF that] in auto)
    ultimately show ?thesis by (simp add: section_text_def crlf_def plain_section_def)
  qed
  have "length (concat (map (section_text d) ss)) \<le> 1027 * length ss + 1025 * (\<Sum>s \<leftarrow> ss. length (entries_of d s))"
    if "set ss \<subseteq> set (sections d)" for ss
    using that
  proof (induction ss)
    case (Cons s ss)
    then show ?case using sec [of s] by simp
  qed simp
  from this [OF order_refl] have "length (concat (map (section_text d) (sections d))) \<le>
      1027 * length (sections d) + 1025 * (\<Sum>s \<leftarrow> sections d. length (entries_of d s))" .
  moreover have "length (sections d) \<le> length (entries d)" using length_filter_le [of _ "map fst (entries d)"] by (simp add: sections_def)
  moreover have "(\<Sum>s \<leftarrow> sections d. length (entries_of d s)) \<le> length (entries d)"
    unfolding entries_of_def
  proof (rule sum_filters)
    show "distinct (sections d)" using entries_distinct [OF assms(1)] by (simp add: sections_def)
    fix e s t
    assume "e \<in> set (entries d)" "s \<in> set (sections d)" "t \<in> set (sections d)"
      "case e of (k, v) \<Rightarrow> take (length s + 1) k = s @ [58]" "case e of (k, v) \<Rightarrow> take (length t + 1) k = t @ [58]"
    then have "(fst e, snd e) \<in> set (entries_of d s)" "(fst e, snd e) \<in> set (entries_of d t)" "58 \<notin> set s" "58 \<notin> set t"
      by (auto simp: entries_of_def sections_def)
    then show "s = t" using in_entries_of(3) by metis
  qed
  ultimately show ?thesis by (simp add: dump_text_def crlf_def)
qed

section \<open>The property\<close>

text \<open>
  C6. Saving and loading the settings: a dictionary with plain names and values is written by
  \<open>iniparser_dump_ini\<close> to the opened file and nothing else changes; \<open>iniparser_load\<close> then returns a
  dictionary in order with the same sections and keys and the same values, where a key without a value
  comes back with the empty one and a key without a section in the dictionary is lost. Neither overflows
  a buffer, and the load ends.
\<close>

theorem ini_round_trip:
  assumes "dict_ok d" "ini_plain d" "fs_sound fs" "writable fs p" "length (dump_text d) \<le> fs_room fs" "\<forall>n. alloc n"
  shows "\<exists>h fs1 h2 fs2 d'. fopen fs p True = (Some h, fs1) \<and> iniparser_dump_ini (Some d) (h, fs1) = Some (h2, fs2) \<and>
    fs_files fs2 = (fs_files fs)(p \<mapsto> dump_text d) \<and> fs_fault fs2 = fs_fault fs \<and>
    iniparser_load alloc fs2 p = Some (Some d') \<and> dict_ok d' \<and> dict_map d' = reloaded (dict_map d)"
  by (rule ini_dump_load [OF assms])

definition demo_ini :: dictionary where
  "demo_ini = \<lparr>dict_n = 2, dict_size = 2, dict_val = [Some [49], None], dict_key = [Some [97, 58, 120], Some [97]],
     dict_hash = [dictionary_hash [97, 58, 120], dictionary_hash [97]]\<rparr>"

definition demo_medium :: fsys where
  "demo_medium = \<lparr>fs_files = Map.empty, fs_creat = (\<lambda>_. True), fs_room = 100000, fs_keep = (\<lambda>_ _ b. b),
     fs_fault = (\<lambda>_. None), fs_stat = True, fs_dirs = (\<lambda>_. False)\<rparr>"

lemma demo_ini_ok: "dict_ok demo_ini"
  by (auto simp: dict_ok_def demo_ini_def used_def less_2_cases_iff)

lemma demo_ini_entries: "entries demo_ini = [([97, 58, 120], Some [49]), ([97], None)]"
  by (simp add: entries_def entry_at_def demo_ini_def upt_rec)

theorem ini_round_trip_witness:
  "\<exists>h fs1 h2 fs2 d'. fopen demo_medium [65] True = (Some h, fs1) \<and>
     iniparser_dump_ini (Some demo_ini) (h, fs1) = Some (h2, fs2) \<and>
     iniparser_load (\<lambda>_. True) fs2 [65] = Some (Some d') \<and> dict_map d' [97, 58, 120] = Some (Some [49]) \<and>
     dict_map d' [97] = Some None"
proof -
  have m: "dict_map demo_ini [97, 58, 120] = Some (Some [49])" "dict_map demo_ini [97] = Some None"
    by (simp_all add: dict_map_def demo_ini_def)
  have plain: "ini_plain demo_ini"
    unfolding ini_plain_def sections_def demo_ini_entries
    by (simp add: entry_ok_def Let_def not_in_def m plain_section_def plain_name_def plain_value_def stripped_def
        isspace_def tolower_def text_of_def ASCIILINESZ_def)
  have len: "length (dump_text demo_ini) \<le> 100000"
    by (simp add: dump_text_def sections_def section_text_def entries_of_def demo_ini_entries entry_line_def pad30_def crlf_def)
  have medium: "fs_sound demo_medium" "writable demo_medium [65]" "fs_room demo_medium = 100000"
    by (simp_all add: demo_medium_def fs_sound_def writable_def)
  have loaded: "reloaded (dict_map demo_ini) [97, 58, 120] = Some (Some [49])" "reloaded (dict_map demo_ini) [97] = Some None"
    by (simp_all add: reloaded_def not_in_def m text_of_def)
  obtain h fs1 h2 fs2 d' where "fopen demo_medium [65] True = (Some h, fs1)"
      "iniparser_dump_ini (Some demo_ini) (h, fs1) = Some (h2, fs2)"
      "iniparser_load (\<lambda>_. True) fs2 [65] = Some (Some d')" "dict_map d' = reloaded (dict_map demo_ini)"
    using ini_round_trip [OF demo_ini_ok plain medium(1,2), of "\<lambda>_. True"] len medium(3) by auto
  then show ?thesis
    by (intro exI [of _ h] exI [of _ fs1] exI [of _ h2] exI [of _ fs2] exI [of _ d']) (simp add: loaded)
qed

end
