(* ===== verification/CB_Backup.thy ===== *)
theory CB_Backup
  imports ITC_File_Stream UG_Dirs
begin

text \<open>
  The backup of the settings (\<open>project/ctrlboard/backup.c\<close>). The files below the backup of the
  configuration drive on the private drive are the ones to keep safe; each has a working copy on the
  configuration drive and a second one on the backup drive. \<open>BackupInit\<close> decides at start which of
  them is broken and restores it, \<open>BackupSyncFile\<close> brings the second copies up to date,
  \<open>BackupSave\<close> and \<open>BackupRestore\<close> copy all files one way.

  The state is the list of names and the file system. The drive letters are parameters
  (\<open>CFG_PUBLIC_DRIVE\<close>, \<open>CFG_BACKUP_DRIVE\<close>, \<open>CFG_PRIVATE_DRIVE\<close>), the requests to the FAT
  driver are the environment's. Flushing the NOR cache has no effect here: writes reach the medium at
  once. \<open>assert(0)\<close>, a name that does not fit and a failed allocation of the list are
  undefined.
\<close>

section \<open>The environment\<close>

datatype fat_ioctl = DriveDisable | DriveEnable | DriveExit | FatUnmount int | FatForceMount int | FatFormat int | FatMount int

record fat_drive =
  fd_disk :: int
  fd_fat :: bool
  fd_avail :: bool

record backup_env =
  bk_dir :: dir_env
  bk_config :: bytes
  bk_backup :: bytes
  bk_default :: bytes
  bk_table :: "fsys \<Rightarrow> fat_drive list"
  bk_ioctl :: "fat_ioctl \<Rightarrow> fsys \<Rightarrow> fsys"

definition MAX_BACKUP_COUNT :: nat where "MAX_BACKUP_COUNT = 64"
definition NEED_RESTORE_FROM_BACKUP :: int where "NEED_RESTORE_FROM_BACKUP = 1"
definition NEED_RESTORE_DEFAULT :: int where "NEED_RESTORE_DEFAULT = 2"
definition ITP_DISK_NOR :: int where "ITP_DISK_NOR = 6"

text \<open>\<open>sprintf(path, "%s:/%s", drive, name)\<close> into a buffer of 256 bytes.\<close>

definition drive_file :: "bytes \<Rightarrow> bytes \<Rightarrow> path" where
  "drive_file drive name = drive @ [58, 47] @ name"

definition file_path :: "bytes \<Rightarrow> bytes \<Rightarrow> path option" where
  "file_path drive name = (if length (drive_file drive name) < 256 then Some (drive_file drive name) else None)"

section \<open>The list of files\<close>

definition strip_slash :: "path \<Rightarrow> path" where
  "strip_slash p = (if p \<noteq> [] \<and> last p = 47 then butlast p else p)"

definition list_root :: "backup_env \<Rightarrow> path" where
  "list_root env = backup_root (bk_default env) @ 47 # bk_config env @ [47]"

definition add_backup :: "backup_env \<Rightarrow> bytes list \<Rightarrow> path \<Rightarrow> bytes list option" where
  "add_backup env names filePath =
     (let name = drop (length (list_root env)) filePath in
      if length names < MAX_BACKUP_COUNT \<and> de_malloc (bk_dir env) 256 \<noteq> None \<and> length name < 256
      then Some (names @ [name]) else None)"

partial_function (option) TraverseFileList :: "backup_env \<Rightarrow> fsys \<Rightarrow> path \<Rightarrow> bytes list \<Rightarrow> bytes list option" where
  "TraverseFileList env fs path names =
     (case de_readdir (bk_dir env) fs (strip_slash path) of
        None \<Rightarrow> Some names
      | Some ents \<Rightarrow>
          walk (\<lambda>e names.
            if dot_entry (fst e) then Some names
            else if snd e then do {
              dirPath \<leftarrow> path_buf (bk_dir env) (path @ fst e @ [47]);
              TraverseFileList env fs dirPath names
            }
            else if is_removal (fst e) then Some names
            else do {
              filePath \<leftarrow> path_buf (bk_dir env) (path @ fst e);
              add_backup env names filePath
            }) ents names)"

section \<open>Copying all files one way\<close>

definition no_stream :: file_stream where
  "no_stream = \<lparr>st_eof = False, st_size = 0, fst_file = None,
     fst_fs = \<lparr>fs_files = (\<lambda>_. None), fs_creat = (\<lambda>_. False), fs_room = 0, fs_keep = (\<lambda>_ _ b. b),
       fs_fault = (\<lambda>_. None), fs_stat = False, fs_dirs = (\<lambda>_. False)\<rparr>\<rparr>"

text \<open>Opening a file whose absence is an assertion failure.\<close>

definition open_or_die :: "fsys \<Rightarrow> file_stream \<Rightarrow> path \<Rightarrow> bool \<Rightarrow> file_stream option" where
  "open_or_die fs s p write =
     (let (r, s) = itcFileStreamOpen fs s p write in if r \<noteq> 0 then None else Some s)"

text \<open>A buffer of the size of the stream, filled from the stream.\<close>

definition read_all :: "backup_env \<Rightarrow> file_stream \<Rightarrow> (bytes \<times> file_stream) option" where
  "read_all env s = do {
     buf \<leftarrow> de_malloc (bk_dir env) (nat (st_size s));
     (r, buf, s) \<leftarrow> FileStreamRead s buf (st_size s);
     Some (buf, s)
   }"

definition sync_one :: "backup_env \<Rightarrow> bytes \<Rightarrow> bytes \<Rightarrow> bytes \<Rightarrow> file_stream \<times> file_stream \<times> fsys \<Rightarrow>
    (file_stream \<times> file_stream \<times> fsys) option" where
  "sync_one env srcPartition dstPartition = (\<lambda>name (srcStream, dstStream, fs). do {
     filePath \<leftarrow> file_path srcPartition name;
     srcStream \<leftarrow> open_or_die fs srcStream filePath False;
     (pFileBuffer, srcStream) \<leftarrow> read_all env srcStream;
     (r, srcStream) \<leftarrow> itcFileStreamClose srcStream;
     filePath \<leftarrow> file_path dstPartition name;
     dstStream \<leftarrow> open_or_die fs dstStream filePath True;
     (r, dstStream) \<leftarrow> FileStreamWrite dstStream pFileBuffer (st_size srcStream);
     (r, dstStream) \<leftarrow> itcFileStreamClose dstStream;
     Some (srcStream, dstStream, fst_fs dstStream)
   })"

definition FileSyncFile :: "backup_env \<Rightarrow> bytes list \<Rightarrow> fsys \<Rightarrow> bytes \<Rightarrow> bytes \<Rightarrow> fsys option" where
  "FileSyncFile env names fs srcPartition dstPartition = do {
     (srcStream, dstStream, fs) \<leftarrow> walk (sync_one env srcPartition dstPartition) names (no_stream, no_stream, fs);
     Some fs
   }"

definition BackupRestore :: "backup_env \<Rightarrow> bytes list \<Rightarrow> fsys \<Rightarrow> fsys option" where
  "BackupRestore env names fs = FileSyncFile env names fs (bk_backup env) (bk_config env)"

definition BackupSave :: "backup_env \<Rightarrow> bytes list \<Rightarrow> fsys \<Rightarrow> fsys option" where
  "BackupSave env names fs = FileSyncFile env names fs (bk_config env) (bk_backup env)"

definition BackupDestroy :: "bytes list \<Rightarrow> bytes list" where
  "BackupDestroy names = []"

section \<open>The check at start\<close>

definition special_file :: "bytes \<Rightarrow> path" where
  "special_file drive = drive @ [58, 47] @ map of_char ''backup_special_file''"

text \<open>One file: broken on the configuration drive, on the backup drive, or on neither.\<close>

fun check_names :: "backup_env \<Rightarrow> fsys \<Rightarrow> bytes list \<Rightarrow> int option" where
  "check_names env fs [] = Some 0"
| "check_names env fs (name # names) = do {
     p \<leftarrow> file_path (bk_config env) name;
     let (r, s) = itcFileStreamOpen fs no_stream p False;
     if r \<noteq> 0 then Some NEED_RESTORE_FROM_BACKUP
     else do {
       p \<leftarrow> file_path (bk_backup env) name;
       let (r, s) = itcFileStreamOpen fs no_stream p False;
       if r \<noteq> 0 then Some NEED_RESTORE_DEFAULT else check_names env fs names
     }
   }"

definition CheckBackupStatus :: "backup_env \<Rightarrow> bytes list \<Rightarrow> fsys \<Rightarrow> int option" where
  "CheckBackupStatus env names fs =
     (let (r, s) = itcFileStreamOpen fs no_stream (special_file (bk_config env)) False in
      if r = 0 then Some NEED_RESTORE_FROM_BACKUP else check_names env fs names)"

section \<open>Formatting a volume\<close>

definition GetDriveDiskMode :: "backup_env \<Rightarrow> fsys \<Rightarrow> int" where
  "GetDriveDiskMode env fs =
     (case filter (\<lambda>d. fd_fat d \<and> fd_avail d) (bk_table env fs) of [] \<Rightarrow> ITP_DISK_NOR | d # _ \<Rightarrow> fd_disk d)"

text \<open>The disks of the other mounted FAT volumes, each once.\<close>

definition remount_disks :: "int \<Rightarrow> fat_drive list \<Rightarrow> int list" where
  "remount_disks diskMode table =
     fold (\<lambda>d disks. if fd_disk d \<noteq> diskMode \<and> fd_fat d \<and> fd_avail d \<and> fd_disk d \<notin> set disks
                      then disks @ [fd_disk d] else disks) table []"

definition ReinitFatVolume :: "backup_env \<Rightarrow> int \<Rightarrow> fsys \<Rightarrow> fsys" where
  "ReinitFatVolume env volume fs =
     (let ioctl = bk_ioctl env; diskMode = GetDriveDiskMode env fs;
          fs = ioctl DriveDisable fs;
          disks = remount_disks diskMode (bk_table env fs);
          fs = fold (\<lambda>d. ioctl (FatUnmount d)) disks fs;
          fs = ioctl (FatUnmount diskMode) fs;
          fs = ioctl (FatForceMount diskMode) fs;
          fs = ioctl (FatFormat volume) fs;
          fs = ioctl DriveEnable fs
      in fold (\<lambda>d. ioctl (FatMount d)) disks fs)"

definition drive_char :: "bytes \<Rightarrow> int" where
  "drive_char d = (case d of [] \<Rightarrow> 0 | c # _ \<Rightarrow> uint c)"

section \<open>Start\<close>

definition restore_drive :: "backup_env \<Rightarrow> fsys \<Rightarrow> bytes \<Rightarrow> fsys option" where
  "restore_drive env fs drive = do {
     let fs = ReinitFatVolume env (drive_char drive - drive_char (bk_default env)) fs;
     (r, fs) \<leftarrow> ugRestoreDir (bk_dir env) fs (drive @ [58]) (path_join (backup_root (bk_default env)) (bk_config env));
     Some fs
   }"

definition BackupInit :: "backup_env \<Rightarrow> bytes list \<Rightarrow> fsys \<Rightarrow> (bytes list \<times> fsys) option" where
  "BackupInit env names fs = do {
     names \<leftarrow> TraverseFileList env fs (list_root env) names;
     status \<leftarrow> CheckBackupStatus env names fs;
     if status = NEED_RESTORE_FROM_BACKUP then do {
       fs \<leftarrow> restore_drive env fs (bk_config env);
       fs \<leftarrow> FileSyncFile env names fs (bk_backup env) (bk_config env);
       Some (names, fs)
     }
     else if status = NEED_RESTORE_DEFAULT then do {
       fs \<leftarrow> restore_drive env fs (bk_backup env);
       s \<leftarrow> open_or_die fs no_stream (special_file (bk_backup env)) True;
       (r, s) \<leftarrow> FileStreamWrite s [49, 50, 51, 52, 0] 5;
       (r, s) \<leftarrow> itcFileStreamClose s;
       Some (names, fst_fs s)
     }
     else Some (names, fs)
   }"

section \<open>Bringing the backup up to date\<close>

text \<open>
  One file. The source is read into a buffer when the sizes agree; the buffer is kept for the copy.
\<close>

definition sync_file :: "backup_env \<Rightarrow> bytes \<Rightarrow> fsys \<Rightarrow> fsys option" where
  "sync_file env name fs = do {
     srcFilePath \<leftarrow> file_path (bk_config env) name;
     srcStream \<leftarrow> open_or_die fs no_stream srcFilePath False;
     backupFilePath \<leftarrow> file_path (bk_backup env) name;
     backupStream \<leftarrow> open_or_die fs no_stream backupFilePath False;
     if st_size srcStream \<noteq> st_size backupStream then do {
       (r, backupStream) \<leftarrow> itcFileStreamClose backupStream;
       backupStream \<leftarrow> open_or_die fs backupStream backupFilePath True;
       (pSrcDataBuf, srcStream) \<leftarrow> read_all env (srcStream\<lparr>fst_fs := fst_fs backupStream\<rparr>);
       (r, backupStream) \<leftarrow> FileStreamWrite backupStream pSrcDataBuf (st_size srcStream);
       Some (fst_fs backupStream)
     }
     else do {
       (pSrcDataBuf, srcStream) \<leftarrow> read_all env srcStream;
       (pBackupDataBuf, backupStream) \<leftarrow> read_all env backupStream;
       if take (nat (st_size srcStream)) pSrcDataBuf \<noteq> take (nat (st_size srcStream)) pBackupDataBuf then do {
         (r, backupStream) \<leftarrow> itcFileStreamClose backupStream;
         backupStream \<leftarrow> open_or_die fs backupStream backupFilePath True;
         (r, backupStream) \<leftarrow> FileStreamWrite backupStream pSrcDataBuf (st_size srcStream);
         Some (fst_fs backupStream)
       }
       else Some fs
     }
   }"

definition BackupSyncFile :: "backup_env \<Rightarrow> bytes list \<Rightarrow> fsys \<Rightarrow> fsys option" where
  "BackupSyncFile env names fs = walk (sync_file env) names fs"

section \<open>One file\<close>

definition alloc_ok :: "backup_env \<Rightarrow> bool" where
  "alloc_ok env \<longleftrightarrow> (\<forall>n. \<exists>b. de_malloc (bk_dir env) n = Some b \<and> length b = n)"

lemma open_read_all:
  assumes "fs_files fs p = Some b" "fs_stat fs" "length b < 2 ^ 31" "alloc_ok env"
  shows "\<exists>s1. open_or_die fs s p False = Some s1 \<and> st_size s1 = int (length b) \<and> fst_fs s1 = fs \<and>
    (\<forall>fs'. fs_files fs' p = Some b \<and> fs_fault fs' p = None \<longrightarrow>
      (\<exists>s2. read_all env (s1\<lparr>fst_fs := fs'\<rparr>) = Some (b, s2) \<and> st_size s2 = int (length b)))"
proof -
  let ?s1 = "(itcStreamOpen s)\<lparr>fst_file := Some \<lparr>f_path = p, f_pos = 0, f_write = False\<rparr>, fst_fs := fs,
    st_size := int (length b)\<rparr>"
  have "open_or_die fs s p False = Some ?s1"
    using assms(1-3) by (simp add: open_or_die_def itcFileStreamOpen_def fopen_def Let_def file_bytes_def)
  moreover have "\<exists>s2. read_all env (?s1\<lparr>fst_fs := fs'\<rparr>) = Some (b, s2) \<and> st_size s2 = int (length b)"
    if fs': "fs_files fs' p = Some b" "fs_fault fs' p = None" for fs'
  proof -
    let ?s = "?s1\<lparr>fst_fs := fs'\<rparr>"
    obtain buf where buf: "de_malloc (bk_dir env) (length b) = Some buf" "length buf = length b"
      using assms(4) by (auto simp: alloc_ok_def)
    have inv: "file_inv fs' ?s" "file_contents ?s = b" "file_cursor ?s = 0"
      using fs' by (auto simp: file_inv_def file_contents_def file_cursor_def file_bytes_def)
    have k: "length b = min (length b) (length (file_contents ?s) - file_cursor ?s)" using inv(2,3) by simp
    obtain s2 where s2: "FileStreamRead ?s buf (int (length b)) =
        Some (int (length b), slice (file_contents ?s) (file_cursor ?s) (length b) @ drop (length b) buf, s2)"
        "file_inv fs' s2" "file_contents s2 = file_contents ?s"
      using file_read [OF inv(1) _ k, of buf] buf(2) by auto
    have "st_size s2 = int (length b)" using s2(2,3) inv(2) by (auto simp: file_inv_def)
    then show ?thesis using s2(1) buf inv(2,3) by (simp add: read_all_def)
  qed
  ultimately show ?thesis by (intro exI [of _ ?s1]) simp
qed

lemma file_close_state: "itcFileStreamClose s = Some (0, s\<lparr>fst_file := None\<rparr>)"
  by (cases "fst_file s") (simp_all add: itcFileStreamClose_def)

lemma open_write_all:
  assumes "writable fs p" "fs_sound fs" "length b \<le> fs_room fs"
  shows "\<exists>s1. open_or_die fs s p True = Some s1 \<and> fs_files (fst_fs s1) = (fs_files fs)(p := Some []) \<and>
    fs_fault (fst_fs s1) = fs_fault fs \<and> (\<exists>s2. FileStreamWrite s1 b (int (length b)) = Some (int (length b), s2) \<and>
      fst_fs s2 = fs\<lparr>fs_files := (fs_files fs)(p := Some b), fs_room := fs_room fs - length b\<rparr>)"
proof -
  obtain s1 s2 where w: "itcFileStreamOpen fs s p True = (0, s1)" "FileStreamWrite s1 b (int (length b)) = Some (int (length b), s2)"
      "fst_fs s2 = fs\<lparr>fs_files := (fs_files fs)(p := Some (take (length b) b)), fs_room := fs_room fs - length b\<rparr>"
    using file_write_whole [OF assms(1,2) order_refl assms(3)] by blast
  have "fst_fs s1 = fs\<lparr>fs_files := (fs_files fs)(p := Some [])\<rparr>"
    using w(1) assms(1) by (auto simp: itcFileStreamOpen_def fopen_def Let_def split: if_splits)
  then show ?thesis using w by (simp add: open_or_die_def)
qed

text \<open>What a file operation does: it puts \<open>b\<close> at a path.\<close>

definition puts_file :: "path \<Rightarrow> bytes \<Rightarrow> fsys \<Rightarrow> fsys \<Rightarrow> bool" where
  "puts_file p b fs fs' \<longleftrightarrow> fs_same p fs fs' \<and> fs_files fs' p = Some b \<and> fs_room fs \<le> fs_room fs' + length b"

lemma sync_file_result:
  assumes "fs_files fs (drive_file (bk_config env) name) = Some b" "fs_files fs (drive_file (bk_backup env) name) = Some c"
    and "length b < 2 ^ 31" "length c < 2 ^ 31" "fs_sound fs" "alloc_ok env"
    and "writable fs (drive_file (bk_backup env) name)" "length b \<le> fs_room fs"
    and "drive_file (bk_config env) name \<noteq> drive_file (bk_backup env) name"
    and "length (drive_file (bk_config env) name) < 256" "length (drive_file (bk_backup env) name) < 256"
  shows "\<exists>fs'. sync_file env name fs = Some fs' \<and> puts_file (drive_file (bk_backup env) name) b fs fs'"
proof -
  let ?p = "drive_file (bk_config env) name" and ?q = "drive_file (bk_backup env) name"
  have stat: "fs_stat fs" and fault: "\<And>p. fs_fault fs p = None" using assms(5) by (simp_all add: fs_sound_def)
  obtain s where s: "open_or_die fs no_stream ?p False = Some s" "st_size s = int (length b)" "fst_fs s = fs"
    "\<And>fs'. fs_files fs' ?p = Some b \<Longrightarrow> fs_fault fs' ?p = None \<Longrightarrow>
      \<exists>s2. read_all env (s\<lparr>fst_fs := fs'\<rparr>) = Some (b, s2) \<and> st_size s2 = int (length b)"
    using open_read_all [OF assms(1) stat assms(3,6), of no_stream] by blast
  obtain d where d: "open_or_die fs no_stream ?q False = Some d" "st_size d = int (length c)" "fst_fs d = fs"
    "\<And>fs'. fs_files fs' ?q = Some c \<Longrightarrow> fs_fault fs' ?q = None \<Longrightarrow>
      \<exists>s2. read_all env (d\<lparr>fst_fs := fs'\<rparr>) = Some (c, s2) \<and> st_size s2 = int (length c)"
    using open_read_all [OF assms(2) stat assms(4,6), of no_stream] by blast
  have same: "s\<lparr>fst_fs := fs\<rparr> = s" "d\<lparr>fst_fs := fs\<rparr> = d" using s(3) d(3) by auto
  have paths: "file_path (bk_config env) name = Some ?p" "file_path (bk_backup env) name = Some ?q"
    using assms(10,11) by (simp_all add: file_path_def)
  have put: "puts_file ?q b fs (fs\<lparr>fs_files := (fs_files fs)(?q := Some b), fs_room := fs_room fs - length b\<rparr>)"
    by (simp add: puts_file_def fs_same_def)
  show ?thesis
  proof (cases "length b = length c")
    case False
    obtain w w2 where w: "open_or_die fs (d\<lparr>fst_file := None\<rparr>) ?q True = Some w" "fs_files (fst_fs w) = (fs_files fs)(?q := Some [])"
        "fs_fault (fst_fs w) = fs_fault fs" "FileStreamWrite w b (int (length b)) = Some (int (length b), w2)"
        "fst_fs w2 = fs\<lparr>fs_files := (fs_files fs)(?q := Some b), fs_room := fs_room fs - length b\<rparr>"
      using open_write_all [OF assms(7,5,8), of "d\<lparr>fst_file := None\<rparr>"] by blast
    obtain s2 where s2: "read_all env (s\<lparr>fst_fs := fst_fs w\<rparr>) = Some (b, s2)" "st_size s2 = int (length b)"
      using s(4) [of "fst_fs w"] w(2,3) assms(1,9) fault by auto
    have "sync_file env name fs = Some (fst_fs w2)"
      using False s(1,2) d(1,2) paths w s2 by (simp add: sync_file_def file_close_state)
    then show ?thesis using put w(5) by simp
  next
    case True
    obtain s2 where s2: "read_all env s = Some (b, s2)" "st_size s2 = int (length b)"
      using s(4) [of fs] same(1) assms(1) fault by auto
    obtain d2 where d2: "read_all env d = Some (c, d2)" using d(4) [of fs] same(2) assms(2) fault by auto
    show ?thesis
    proof (cases "b = c")
      case eq: True
      then have "sync_file env name fs = Some fs"
        using s(1,2) d(1,2) paths s2 d2 by (simp add: sync_file_def)
      moreover have "puts_file ?q b fs fs" using assms(2) eq by (simp add: puts_file_def)
      ultimately show ?thesis by blast
    next
      case ne: False
      obtain w w2 where w: "open_or_die fs (d2\<lparr>fst_file := None\<rparr>) ?q True = Some w"
          "FileStreamWrite w b (int (length b)) = Some (int (length b), w2)"
          "fst_fs w2 = fs\<lparr>fs_files := (fs_files fs)(?q := Some b), fs_room := fs_room fs - length b\<rparr>"
        using open_write_all [OF assms(7,5,8), of "d2\<lparr>fst_file := None\<rparr>"] by blast
      have "sync_file env name fs = Some (fst_fs w2)"
        using True ne s(1,2) d(1,2) paths w s2 d2 by (simp add: sync_file_def file_close_state)
      then show ?thesis using put w(3) by simp
    qed
  qed
qed

lemma sync_one_result:
  assumes "fs_files fs (drive_file src name) = Some b" "length b < 2 ^ 31" "fs_sound fs" "alloc_ok env"
    and "writable fs (drive_file dst name)" "length b \<le> fs_room fs"
    and "length (drive_file src name) < 256" "length (drive_file dst name) < 256"
  shows "\<exists>s' d' fs'. sync_one env src dst name (s, d, fs) = Some (s', d', fs') \<and> puts_file (drive_file dst name) b fs fs'"
proof -
  let ?p = "drive_file src name" and ?q = "drive_file dst name"
  have stat: "fs_stat fs" and fault: "\<And>p. fs_fault fs p = None" using assms(3) by (simp_all add: fs_sound_def)
  obtain s1 where s1: "open_or_die fs s ?p False = Some s1" "fst_fs s1 = fs"
    "\<And>fs'. fs_files fs' ?p = Some b \<Longrightarrow> fs_fault fs' ?p = None \<Longrightarrow>
      \<exists>s2. read_all env (s1\<lparr>fst_fs := fs'\<rparr>) = Some (b, s2) \<and> st_size s2 = int (length b)"
    using open_read_all [OF assms(1) stat assms(2,4), of s] by blast
  have "s1\<lparr>fst_fs := fs\<rparr> = s1" using s1(2) by auto
  then obtain s2 where s2: "read_all env s1 = Some (b, s2)" "st_size s2 = int (length b)"
    using s1(3) [of fs] assms(1) fault by auto
  obtain w w2 where w: "open_or_die fs d ?q True = Some w"
      "FileStreamWrite w b (int (length b)) = Some (int (length b), w2)"
      "fst_fs w2 = fs\<lparr>fs_files := (fs_files fs)(?q := Some b), fs_room := fs_room fs - length b\<rparr>"
    using open_write_all [OF assms(5,3,6), of d] by blast
  have "sync_one env src dst name (s, d, fs) = Some (s2\<lparr>fst_file := None\<rparr>, w2\<lparr>fst_file := None\<rparr>, fst_fs w2)"
    using assms(7,8) s1(1) s2 w by (simp add: sync_one_def file_path_def file_close_state)
  then show ?thesis using w(3) by (auto simp: puts_file_def fs_same_def)
qed

section \<open>All files\<close>

text \<open>
  What a synchronisation from drive \<open>src\<close> to drive \<open>dst\<close> needs: both copies of every file, room for all
  of them, sound media and memory; and what it does.
\<close>

definition drive_size :: "fsys \<Rightarrow> bytes \<Rightarrow> bytes list \<Rightarrow> nat" where
  "drive_size fs d names = (\<Sum>n \<leftarrow> names. length (file_bytes fs (drive_file d n)))"

definition sync_ready :: "backup_env \<Rightarrow> bytes list \<Rightarrow> fsys \<Rightarrow> bytes \<Rightarrow> bytes \<Rightarrow> bool" where
  "sync_ready env names fs src dst \<longleftrightarrow> fs_sound fs \<and> alloc_ok env \<and> 58 \<notin> set src \<and> 58 \<notin> set dst \<and> src \<noteq> dst \<and>
     drive_size fs src names \<le> fs_room fs \<and>
     (\<forall>n \<in> set names. (\<exists>b. fs_files fs (drive_file src n) = Some b \<and> length b < 2 ^ 31) \<and>
        (\<exists>b. fs_files fs (drive_file dst n) = Some b \<and> length b < 2 ^ 31) \<and> writable fs (drive_file dst n) \<and>
        length (drive_file src n) < 256 \<and> length (drive_file dst n) < 256)"

definition synced :: "bytes list \<Rightarrow> fsys \<Rightarrow> bytes \<Rightarrow> bytes \<Rightarrow> fsys \<Rightarrow> bool" where
  "synced names fs src dst fs' \<longleftrightarrow>
     (\<forall>n \<in> set names. fs_files fs' (drive_file dst n) = fs_files fs (drive_file src n)) \<and>
     (\<forall>q. q \<notin> drive_file dst ` set names \<longrightarrow> fs_files fs' q = fs_files fs q) \<and>
     fs_creat fs' = fs_creat fs \<and> fs_keep fs' = fs_keep fs \<and> fs_fault fs' = fs_fault fs \<and> fs_stat fs' = fs_stat fs \<and>
     fs_dirs fs' = fs_dirs fs"

lemma drive_file_neq: "58 \<notin> set c \<Longrightarrow> 58 \<notin> set d \<Longrightarrow> c \<noteq> d \<Longrightarrow> drive_file c n \<noteq> drive_file d m"
proof
  assume c: "58 \<notin> set c" "58 \<notin> set d" "c \<noteq> d" and eq: "drive_file c n = drive_file d m"
  have "takeWhile (\<lambda>b. b \<noteq> 58) (x @ 58 # y) = x" if "58 \<notin> set x" for x y :: bytes
    using that by (induction x) auto
  then show False using c eq by (metis append_Cons append_Nil drive_file_def)
qed

lemma synced_unique: "synced names fs src dst fs1 \<Longrightarrow> synced names fs src dst fs2 \<Longrightarrow> fs_files fs1 = fs_files fs2"
proof
  fix q
  assume "synced names fs src dst fs1" "synced names fs src dst fs2"
  then show "fs_files fs1 q = fs_files fs2 q"
    unfolding synced_def by (cases "q \<in> drive_file dst ` set names") auto
qed

lemma sync_all:
  assumes ready: "sync_ready env names fs src dst"
    and step: "\<And>n b st fs1. n \<in> set names \<Longrightarrow> R st fs1 \<Longrightarrow> sync_ready env [n] fs1 src dst \<Longrightarrow>
      fs_files fs1 (drive_file src n) = Some b \<Longrightarrow>
      \<exists>st' fs2. f n st = Some st' \<and> R st' fs2 \<and> puts_file (drive_file dst n) b fs1 fs2"
    and "R st fs"
  shows "\<exists>st' fs'. walk f names st = Some st' \<and> R st' fs' \<and> synced names fs src dst fs' \<and>
    fs_room fs \<le> fs_room fs' + drive_size fs src names"
proof -
  note r = ready [unfolded sync_ready_def]
  let ?I = "\<lambda>xs st. \<exists>fs1. R st fs1 \<and> synced xs fs src dst fs1 \<and> fs_room fs \<le> fs_room fs1 + drive_size fs src xs"
  have "\<exists>st'. walk f names st = Some st' \<and> ?I names st'"
  proof (rule walk_done [where I = ?I])
    show "?I [] st" using assms(3) by (auto simp: synced_def)
    fix xs n ys st
    assume split: "names = xs @ n # ys" and "?I xs st"
    then obtain fs1 where fs1: "R st fs1" "synced xs fs src dst fs1" "fs_room fs \<le> fs_room fs1 + drive_size fs src xs" by blast
    note s = fs1(2) [unfolded synced_def]
    have n: "n \<in> set names" using split by simp
    have srcs: "fs_files fs1 (drive_file src m) = fs_files fs (drive_file src m)" for m
      using s drive_file_neq r by blast
    obtain b where b: "fs_files fs (drive_file src n) = Some b" "length b < 2 ^ 31" using r n by blast
    have "fs_files fs1 (drive_file dst n) = fs_files fs (drive_file src n) \<or> fs_files fs1 (drive_file dst n) = fs_files fs (drive_file dst n)"
      using s by (cases "drive_file dst n \<in> drive_file dst ` set xs") (auto simp: drive_file_def)
    then obtain c where c: "fs_files fs1 (drive_file dst n) = Some c" "length c < 2 ^ 31" using r n by metis
    have "drive_size fs src xs + length b \<le> drive_size fs src names"
      using b(1) by (simp add: split drive_size_def file_bytes_def)
    then have room: "length b \<le> fs_room fs1" using fs1(3) r by linarith
    have one: "sync_ready env [n] fs1 src dst"
      using r n b c room s srcs [of n] by (auto simp: sync_ready_def drive_size_def file_bytes_def fs_sound_def writable_def)
    have b1: "fs_files fs1 (drive_file src n) = Some b" using srcs b(1) by simp
    obtain st' fs2 where st': "f n st = Some st'" "R st' fs2" "puts_file (drive_file dst n) b fs1 fs2"
      using step [OF n fs1(1) one b1] by blast
    note p = st'(3) [unfolded puts_file_def fs_same_def]
    have "fs_files fs2 (drive_file dst m) = fs_files fs (drive_file src m)" if "m \<in> set (xs @ [n])" for m
    proof (cases "m = n")
      case True
      then show ?thesis using p b(1) by simp
    next
      case False
      then have "drive_file dst m \<noteq> drive_file dst n" by (simp add: drive_file_def)
      then show ?thesis using p s that False by simp
    qed
    moreover have "fs_files fs2 q = fs_files fs q" if "q \<notin> drive_file dst ` set (xs @ [n])" for q
      using p s that by simp
    ultimately have "synced (xs @ [n]) fs src dst fs2" using p s unfolding synced_def by metis
    moreover have "fs_room fs \<le> fs_room fs2 + drive_size fs src (xs @ [n])"
      using fs1(3) st'(3) b(1) by (simp add: puts_file_def drive_size_def file_bytes_def)
    ultimately show "\<exists>st'. f n st = Some st' \<and> ?I (xs @ [n]) st'" using st' by blast
  qed
  then show ?thesis by blast
qed

lemma sync_ready_one:
  assumes "sync_ready env [n] fs src dst" "fs_files fs (drive_file src n) = Some b"
  shows "length b < 2 ^ 31" "fs_sound fs" "alloc_ok env" "writable fs (drive_file dst n)" "length b \<le> fs_room fs"
    "length (drive_file src n) < 256" "length (drive_file dst n) < 256" "drive_file src n \<noteq> drive_file dst n"
    "\<exists>c. fs_files fs (drive_file dst n) = Some c \<and> length c < 2 ^ 31"
  using assms drive_file_neq by (auto simp: sync_ready_def drive_size_def file_bytes_def)

lemma BackupSyncFile_result:
  assumes "sync_ready env names fs (bk_config env) (bk_backup env)"
  shows "\<exists>fs'. BackupSyncFile env names fs = Some fs' \<and> synced names fs (bk_config env) (bk_backup env) fs'"
proof -
  have "\<exists>st' fs'. walk (sync_file env) names fs = Some st' \<and> st' = fs' \<and> synced names fs (bk_config env) (bk_backup env) fs' \<and>
      fs_room fs \<le> fs_room fs' + drive_size fs (bk_config env) names"
  proof (rule sync_all [where R = "(=)", OF assms])
    fix n b st fs1
    assume a: "st = fs1" "sync_ready env [n] fs1 (bk_config env) (bk_backup env)"
      "fs_files fs1 (drive_file (bk_config env) n) = Some b"
    note o = sync_ready_one [OF a(2,3)]
    obtain c where c: "fs_files fs1 (drive_file (bk_backup env) n) = Some c" "length c < 2 ^ 31" using o(9) by blast
    show "\<exists>st' fs2. sync_file env n st = Some st' \<and> st' = fs2 \<and> puts_file (drive_file (bk_backup env) n) b fs1 fs2"
      using sync_file_result [OF a(3) c(1) o(1) c(2) o(2,3,4,5,8,6,7)] a(1) by blast
  qed simp
  then show ?thesis by (auto simp: BackupSyncFile_def)
qed

lemma FileSyncFile_result:
  assumes "sync_ready env names fs src dst"
  shows "\<exists>fs'. FileSyncFile env names fs src dst = Some fs' \<and> synced names fs src dst fs' \<and>
    fs_room fs \<le> fs_room fs' + drive_size fs src names"
proof -
  have "\<exists>st' fs'. walk (sync_one env src dst) names (no_stream, no_stream, fs) = Some st' \<and> snd (snd st') = fs' \<and>
      synced names fs src dst fs' \<and> fs_room fs \<le> fs_room fs' + drive_size fs src names"
  proof (rule sync_all [where R = "\<lambda>st fs. snd (snd st) = fs", OF assms])
    fix n b fs1 and st :: "file_stream \<times> file_stream \<times> fsys"
    assume a: "snd (snd st) = fs1" "sync_ready env [n] fs1 src dst" "fs_files fs1 (drive_file src n) = Some b"
    note o = sync_ready_one [OF a(2,3)]
    obtain s d where st: "st = (s, d, fs1)" using a(1) by (metis prod.collapse)
    show "\<exists>st' fs2. sync_one env src dst n st = Some st' \<and> snd (snd st') = fs2 \<and> puts_file (drive_file dst n) b fs1 fs2"
      using sync_one_result [OF a(3) o(1-7), of s d] unfolding st by fastforce
  qed simp
  then show ?thesis by (auto simp: FileSyncFile_def)
qed

section \<open>A start with both copies missing\<close>

lemma walk_None: "f e s = None \<Longrightarrow> walk f (e # es) s = None"
  by simp

lemma FileSyncFile_missing:
  assumes "fs_files fs (drive_file src n) = None"
  shows "FileSyncFile env (n # names) fs src dst = None"
proof -
  have "open_or_die fs s (drive_file src n) False = None" for s
    using file_open_missing [OF assms, of s] by (auto simp: open_or_die_def)
  then have "sync_one env src dst n (s, d, fs) = None" for s d
    by (cases "length (drive_file src n) < 256") (simp_all add: sync_one_def file_path_def)
  then show ?thesis by (simp add: FileSyncFile_def walk_None)
qed

lemma ReinitFatVolume_absent:
  assumes "\<And>op fs. fs_files fs q = None \<Longrightarrow> fs_files (bk_ioctl env op fs) q = None" "fs_files fs q = None"
  shows "fs_files (ReinitFatVolume env v fs) q = None"
proof -
  have f: "fs_files (fold (\<lambda>d. bk_ioctl env (g d)) ds fs) q = None" if "fs_files fs q = None" for g :: "int \<Rightarrow> fat_ioctl" and ds fs
    using that by (induction ds arbitrary: fs) (simp_all add: assms(1))
  show ?thesis unfolding ReinitFatVolume_def Let_def by (intro f assms)
qed

lemma BackupInit_missing:
  assumes names: "TraverseFileList env fs (list_root env) names0 = Some (n # names)"
    and absent: "fs_files fs (special_file (bk_config env)) = None"
      "fs_files fs (drive_file (bk_config env) n) = None" "fs_files fs (drive_file (bk_backup env) n) = None"
    and fits: "length (drive_file (bk_config env) n) < 256"
    and drives: "47 \<notin> set (bk_config env)" "47 \<notin> set (bk_backup env)" "bk_config env \<noteq> bk_backup env"
    and ioctl: "\<And>op fs q. fs_files fs q = None \<Longrightarrow> fs_files (bk_ioctl env op fs) q = None"
    and env: "readdir_sound (bk_dir env)" "alloc_sized (de_malloc (bk_dir env))" "0 < unat (de_bufsize (bk_dir env))"
    and ready: "restore_ready (bk_dir env) (ReinitFatVolume env (drive_char (bk_config env) - drive_char (bk_default env)) fs)
      (bk_config env @ [58]) (path_join (backup_root (bk_default env)) (bk_config env))"
  shows "BackupInit env names0 fs = None"
proof -
  let ?fs = "ReinitFatVolume env (drive_char (bk_config env) - drive_char (bk_default env)) fs"
  have status: "CheckBackupStatus env (n # names) fs = Some NEED_RESTORE_FROM_BACKUP"
    using file_open_missing [OF absent(1), of no_stream] file_open_missing [OF absent(2), of no_stream] fits
    by (auto simp: CheckBackupStatus_def file_path_def)
  obtain ret fs' where r: "ugRestoreDir (bk_dir env) ?fs (bk_config env @ [58])
        (path_join (backup_root (bk_default env)) (bk_config env)) = Some (ret, fs')"
      "fs_below (bk_config env @ [58]) ?fs fs'"
    using restore_dir_result [OF env ready] unfolding restore_does_def by blast
  have on_backup: "below (bk_backup env @ [58]) (drive_file (bk_backup env) n)"
    by (simp add: below_def drive_file_def)
  have "\<not> below (bk_config env @ [58]) (drive_file (bk_backup env) n)"
    using drives_apart [of "bk_config env @ [58]" "bk_backup env @ [58]"] drives on_backup by auto
  then have "fs_files fs' (drive_file (bk_backup env) n) = fs_files ?fs (drive_file (bk_backup env) n)"
    using fs_belowD [OF r(2)] by blast
  also have "\<dots> = None" by (rule ReinitFatVolume_absent [OF ioctl absent(3)])
  finally have "FileSyncFile env (n # names) fs' (bk_backup env) (bk_config env) = None" by (rule FileSyncFile_missing)
  then show ?thesis using names status r(1) by (simp add: BackupInit_def restore_drive_def)
qed

section \<open>The properties\<close>

text \<open>
  C19. Bringing the backup up to date file by file is the same as saving all files: when both drives hold
  every file and there is room, \<open>BackupSyncFile\<close> and \<open>BackupSave\<close> both end and leave the same files;
  every copy on the backup drive then equals the one on the configuration drive and nothing else changed.
\<close>

theorem backup_sync_equals_save:
  assumes "sync_ready env names fs (bk_config env) (bk_backup env)"
  shows "\<exists>fs1 fs2. BackupSyncFile env names fs = Some fs1 \<and> BackupSave env names fs = Some fs2 \<and>
    fs_files fs1 = fs_files fs2 \<and> synced names fs (bk_config env) (bk_backup env) fs1"
  using BackupSyncFile_result [OF assms] FileSyncFile_result [OF assms] synced_unique
  unfolding BackupSave_def by metis

definition demo_bk :: backup_env where
  "demo_bk = \<lparr>bk_dir = demo_dir_env [[65], [101], [102], [103]], bk_config = [65], bk_backup = [66], bk_default = [68],
     bk_table = (\<lambda>_. []), bk_ioctl = (\<lambda>_ fs. fs)\<rparr>"

theorem backup_sync_equals_save_witness:
  "\<exists>fs1. BackupSyncFile demo_bk [[120], [121]] (demo_tree [] [[65, 58, 47, 120] \<mapsto> [1, 2], [65, 58, 47, 121] \<mapsto> [3],
      [66, 58, 47, 120] \<mapsto> [1, 9], [66, 58, 47, 121] \<mapsto> []]) = Some fs1 \<and>
    fs_files fs1 [66, 58, 47, 120] = Some [1, 2] \<and> fs_files fs1 [66, 58, 47, 121] = Some [3]"
proof -
  let ?fs = "demo_tree [] [[65, 58, 47, 120] \<mapsto> [1, 2], [65, 58, 47, 121] \<mapsto> [3],
      [66, 58, 47, 120] \<mapsto> [1, 9], [66, 58, 47, 121] \<mapsto> []]"
  have "sync_ready demo_bk [[120], [121]] ?fs (bk_config demo_bk) (bk_backup demo_bk)"
    by (simp add: sync_ready_def demo_bk_def demo_tree_def drive_file_def drive_size_def file_bytes_def fs_sound_def
        alloc_ok_def demo_dir_env_def writable_def)
  from backup_sync_equals_save [OF this] show ?thesis
    by (auto simp: synced_def demo_bk_def demo_tree_def drive_file_def)
qed


lemma demo_traverse:
  "TraverseFileList demo_bk demo_backup (list_root demo_bk) [] = Some [[101, 47, 103], [102]]"
  by (subst TraverseFileList.simps, simp add: list_root_def demo_bk_def demo_dir_env_def demo_listing_def demo_backup_def
      demo_dir_def demo_tree_def backup_root_def strip_slash_def path_join_def present_def dot_entry_def path_buf_def,
      subst TraverseFileList.simps, simp add: demo_listing_def strip_slash_def path_join_def present_def dot_entry_def
      path_buf_def is_removal_def add_backup_def demo_bk_def demo_dir_env_def list_root_def backup_root_def MAX_BACKUP_COUNT_def)

lemma demo_restore_ready:
  "restore_ready (bk_dir demo_bk) demo_backup [65, 58] (path_join (backup_root [68]) [65])"
proof -
  let ?r = "backup_root [68]"
  have lists: "readdir_lists (bk_dir demo_bk) demo_backup ?r"
    unfolding demo_bk_def by simp (rule demo_lists, use demo_backup_names name_okD(2) in auto)
  show ?thesis
    unfolding restore_ready_def
  proof (intro conjI)
    show "paths_fit (bk_dir demo_bk) demo_backup"
      by (auto simp: paths_fit_def demo_backup_present demo_dir_env_def demo_bk_def backup_root_def)
    show "readdir_lists (bk_dir demo_bk) demo_backup (path_join ?r [65])" by (rule readdir_lists_sub [OF lists below_join])
    show "fs_tree demo_backup (path_join ?r [65])" by (rule tree_sub [OF demo_backup_tree below_join]) simp
    show "small_files demo_backup (path_join ?r [65])"
      by (auto simp: small_files_def demo_backup_def demo_dir_def demo_tree_def split: if_splits)
    show "apart (path_join ?r [65]) [65, 58]" using backup_apart [of "[68]" "[65]"] by simp
  qed (simp_all add: demo_backup_def demo_dir_def demo_tree_def backup_root_def path_join_def)
qed


end
