(* ===== verification/CB_Upgrade.thy ===== *)
theory CB_Upgrade
  imports UG_Package UG_Files_Crc CB_Backup
begin

text \<open>
  The upgrade module of the control board (\<open>project/ctrlboard/upgrade.c\<close>): it finds a package on a USB
  stick or downloads it, checks its checksum, hands it to the package interpreter, and runs the factory
  reset. The download library, the drive table and the FAT driver are the environment:
  \<open>up_ftp_size\<close> is what the server answers for the size at each attempt, \<open>up_ftp_data\<close> the pieces it
  sends in each attempt, \<open>None\<close> when no session can be opened, with whether the transfer ended well. The
  console, the progress window and the watchdog have no effect on the state.
\<close>

record upgrade_env =
  up_ug :: ug_env
  up_dir :: dir_env
  up_public :: bytes
  up_private :: bytes
  up_filenames :: bytes
  up_table :: "fsys \<Rightarrow> drive_status list"
  up_ioctl :: "fat_ioctl \<Rightarrow> fsys \<Rightarrow> fsys"
  up_check_on_boot :: bool
  up_net :: bool
  up_delete :: bool
  up_ftp_size :: "bytes \<Rightarrow> nat \<Rightarrow> int"
  up_ftp_data :: "bytes \<Rightarrow> nat \<Rightarrow> (bytes list \<times> bool) option"

record upgrade_state =
  upgradeIsReady :: bool
  upgradeUrl :: bytes
  upgradeIsFinished :: bool
  upgradeResult :: int
  pkgFilePath :: path
  up_state :: ug_state

definition URL_LEN :: nat where "URL_LEN = 256"
definition QUIT_RESET_FACTORY :: int where "QUIT_RESET_FACTORY = 2"
definition QUIT_UPGRADE_FIRMWARE :: int where "QUIT_UPGRADE_FIRMWARE = 3"
definition QUIT_UPGRADE_WEB :: int where "QUIT_UPGRADE_WEB = 4"

definition crc_file_path :: "upgrade_env \<Rightarrow> path" where
  "crc_file_path env = up_public env @ [58, 47] @ map of_char ''ite_crc.dat''"

definition up_malloc :: "upgrade_env \<Rightarrow> nat \<Rightarrow> bytes option" where
  "up_malloc env = env_malloc (up_ug env)"

section \<open>The small operations\<close>

text \<open>The result is not 0 when the files of the public drive do not match their checksums.\<close>

definition UpgradeInit :: "upgrade_env \<Rightarrow> upgrade_state \<Rightarrow> (int \<times> upgrade_state) option" where
  "UpgradeInit env st = do {
     ret \<leftarrow> (if up_check_on_boot env
       then map_option (\<lambda>r. if r \<noteq> 0 then QUIT_RESET_FACTORY else 0)
         (ugCheckFilesCrc (up_malloc env) (env_buf_size (up_ug env)) (de_path_max (up_dir env)) (ug_fs (up_state st))
            (up_public env @ [58]) (crc_file_path env))
       else Some 0);
     Some (ret, st\<lparr>upgradeIsReady := False, upgradeIsFinished := False, upgradeResult := 0\<rparr>)
   }"

definition UpgradeSetFileCrc :: "upgrade_env \<Rightarrow> fsys \<Rightarrow> path \<Rightarrow> fsys option" where
  "UpgradeSetFileCrc env fs filepath =
     (if take 1 filepath = take 1 (up_public env)
      then map_option snd (ugSetFileCrc (up_malloc env) (env_buf_size (up_ug env)) (de_path_max (up_dir env)) fs
        (drop 2 filepath) (up_public env @ [58]) (crc_file_path env))
      else Some fs)"

definition UpgradeFilesCrc :: "upgrade_env \<Rightarrow> fsys \<Rightarrow> fsys option" where
  "UpgradeFilesCrc env fs = map_option snd (ugUpgradeFilesCrc (up_malloc env) (env_buf_size (up_ug env))
     (de_path_max (up_dir env)) fs (up_public env @ [58]) (crc_file_path env))"

text \<open>\<open>strncpy\<close> keeps at most \<open>URL_LEN - 1\<close> bytes; no URL clears it.\<close>

definition UpgradeSetUrl :: "bytes option \<Rightarrow> upgrade_state \<Rightarrow> upgrade_state" where
  "UpgradeSetUrl url st = st\<lparr>upgradeUrl := (case url of Some u \<Rightarrow> take (URL_LEN - 1) u | None \<Rightarrow> [])\<rparr>"

definition UpgradeIsReady :: "upgrade_state \<Rightarrow> bool" where "UpgradeIsReady st = upgradeIsReady st"
definition UpgradeIsFinished :: "upgrade_state \<Rightarrow> bool" where "UpgradeIsFinished st = upgradeIsFinished st"
definition UpgradeGetResult :: "upgrade_state \<Rightarrow> int" where "UpgradeGetResult st = upgradeResult st"

text \<open>The stream itself is an argument of \<open>UpgradeProcess\<close>.\<close>

definition UpgradeSetStream :: "upgrade_state \<Rightarrow> upgrade_state" where
  "UpgradeSetStream st = st\<lparr>upgradeIsFinished := False, upgradeResult := 0\<rparr>"

text \<open>The result of the reset is not looked at.\<close>

definition UpgradeResetFactory :: "upgrade_env \<Rightarrow> fsys \<Rightarrow> (int \<times> fsys) option" where
  "UpgradeResetFactory env fs = do {
     let fs = up_ioctl env (FatUnmount ITP_DISK_NOR) fs;
     let fs = up_ioctl env (FatForceMount ITP_DISK_NOR) fs;
     let fs = up_ioctl env (FatFormat 1) fs;
     (r, fs) \<leftarrow> ugResetFactory (up_dir env) (up_private env) fs;
     Some (0, fs)
   }"

section \<open>The package on a USB stick\<close>

text \<open>The words of a list separated by blanks, as \<open>strtok_r\<close> delivers them.\<close>

fun tokens :: "bytes \<Rightarrow> bytes \<Rightarrow> bytes list" where
  "tokens w [] = (if w = [] then [] else [w])"
| "tokens w (c # cs) = (if c = 32 then (if w = [] then tokens [] cs else w # tokens [] cs) else tokens (w @ [c]) cs)"

text \<open>The names in turn; the result is the path of the first file that can be opened, and its stream.\<close>

fun try_names :: "upgrade_env \<Rightarrow> fsys \<Rightarrow> bytes \<Rightarrow> path \<Rightarrow> bytes list \<Rightarrow> (path \<times> file_stream option) option" where
  "try_names env fs drive path [] = Some (path, None)"
| "try_names env fs drive path (name # names) = do {
     path \<leftarrow> path_buf (up_dir env) (drive @ name);
     let (r, s) = itcFileStreamOpen fs no_stream path False;
     if r = 0 then Some (path, Some s) else try_names env fs drive path names
   }"

text \<open>\<open>drives\<close> counts the table from its end; the list of names must hold a name.\<close>

fun try_drives :: "upgrade_env \<Rightarrow> fsys \<Rightarrow> drive_status list \<Rightarrow> path \<Rightarrow> nat \<Rightarrow> (path \<times> file_stream option) option" where
  "try_drives env fs table path 0 = Some (path, None)"
| "try_drives env fs table path (Suc i) =
     (let driveStatus = table ! i in
      if ds_avail driveStatus \<and> 7 \<le> ds_disk driveStatus \<and> ds_disk driveStatus \<le> 22 then
        (if tokens [] (up_filenames env) = [] \<or> de_path_max (up_dir env) \<le> length (up_filenames env) then None
         else do {
           (path, found) \<leftarrow> try_names env fs (ds_name driveStatus) path (tokens [] (up_filenames env));
           if found \<noteq> None then Some (path, found) else try_drives env fs table path i
         })
      else try_drives env fs table path i)"

definition OpenUsbPackage :: "upgrade_env \<Rightarrow> fsys \<Rightarrow> path \<Rightarrow> (path \<times> file_stream option) option" where
  "OpenUsbPackage env fs path = try_drives env fs (up_table env fs) path ITP_MAX_DRIVE"

section \<open>The package from a server\<close>

text \<open>The callback appends to the memory without looking at its size.\<close>

definition WriteMemoryCallback :: "bytes \<Rightarrow> bytes \<times> nat \<Rightarrow> (bytes \<times> nat) option" where
  "WriteMemoryCallback contents = (\<lambda>(memory, n). do {
     memory \<leftarrow> memcpy memory (int n) contents 0 (int (length contents));
     Some (memory, n + length contents)
   })"

definition DownloadPackage :: "upgrade_env \<Rightarrow> bytes \<Rightarrow> int \<Rightarrow> nat \<Rightarrow> array_stream option option" where
  "DownloadPackage env url filesize attempt =
     (case up_ftp_data env url attempt of
        None \<Rightarrow> Some None
      | Some (pieces, good) \<Rightarrow>
          (case up_malloc env (unat (word_of_int filesize :: u32)) of
             None \<Rightarrow> if pieces = [] \<and> \<not> good then Some None else None
           | Some memory \<Rightarrow> do {
               (memory, n) \<leftarrow> walk WriteMemoryCallback pieces (memory, 0);
               if good then do {
                 (r, s) \<leftarrow> itcArrayStreamOpen \<lparr>st_eof = False, st_size = 0, as_array = [], as_pos = 0\<rparr> memory (int n);
                 Some (Some s)
               }
               else Some None
             }))"

text \<open>The two loops share the counter \<open>retry\<close>; \<open>k\<close> counts the attempts.\<close>

function ftp_size :: "upgrade_env \<Rightarrow> bytes \<Rightarrow> int \<Rightarrow> nat \<Rightarrow> int \<Rightarrow> int \<times> int" where
  "ftp_size env url retry k filesize =
     (if retry < 0 then (retry - 1, filesize)
      else if 0 < up_ftp_size env url k then (retry - 1, up_ftp_size env url k)
      else ftp_size env url (retry - 1) (Suc k) (up_ftp_size env url k))"
  by pat_completeness auto
termination by (relation "measure (\<lambda>(_, _, retry, _, _). nat (retry + 1))") auto

function ftp_download :: "upgrade_env \<Rightarrow> bytes \<Rightarrow> int \<Rightarrow> int \<Rightarrow> nat \<Rightarrow> array_stream option option" where
  "ftp_download env url filesize retry k =
     (if retry < 0 then Some None
      else do {
        s \<leftarrow> DownloadPackage env url filesize k;
        if s \<noteq> None then Some s else ftp_download env url filesize (retry - 1) (Suc k)
      })"
  by pat_completeness auto
termination by (relation "measure (\<lambda>(_, _, _, retry, _). nat (retry + 1))") auto

declare ftp_size.simps [simp del] ftp_download.simps [simp del]

definition OpenFtpPackage :: "upgrade_env \<Rightarrow> bytes \<Rightarrow> array_stream option option" where
  "OpenFtpPackage env url =
     (let (retry, filesize) = ftp_size env url 10 0 0 in ftp_download env url filesize retry 0)"

section \<open>Checking and installing\<close>

definition install :: "'s itc_vt \<Rightarrow> upgrade_env \<Rightarrow> 's \<Rightarrow> ug_state \<Rightarrow> (int \<times> ug_state) option" where
  "install vt env fwStream st = do {
     (ret, _, fwStream) \<leftarrow> ugCheckCrc vt (up_malloc env) (env_buf_size (up_ug env)) fwStream None;
     if ret \<noteq> 0 then Some (ret, st)
     else do {
       (ret, _, st) \<leftarrow> ugUpgradePackage vt (up_ug env) fwStream st;
       Some (ret, st)
     }
   }"

definition UpgradePackage :: "upgrade_env \<Rightarrow> upgrade_state \<Rightarrow> (int \<times> upgrade_state) option" where
  "UpgradePackage env st =
     (if upgradeUrl st = [] then do {
        (path, fwStream) \<leftarrow> OpenUsbPackage env (ug_fs (up_state st)) (pkgFilePath st);
        let st = st\<lparr>pkgFilePath := path\<rparr>;
        case fwStream of
          None \<Rightarrow> Some (-1, st)
        | Some fwStream \<Rightarrow> do {
            (ret, ug) \<leftarrow> install file_stream_vt env fwStream (up_state st);
            let ug = (if ret = 0 \<and> up_delete env then ug\<lparr>ug_fs := snd (remove (ug_fs ug) path)\<rparr> else ug);
            Some (ret, st\<lparr>up_state := ug\<rparr>)
          }
      }
      else if \<not> up_net env then None
      else do {
        fwStream \<leftarrow> OpenFtpPackage env (upgradeUrl st);
        case fwStream of
          None \<Rightarrow> Some (-1, st)
        | Some fwStream \<Rightarrow> do {
            (ret, ug) \<leftarrow> install array_stream_vt env fwStream (up_state st);
            Some (ret, st\<lparr>up_state := ug\<rparr>)
          }
      })"

text \<open>
  The quit handling. For \<open>QUIT_UPGRADE_WEB\<close> the stream arrives from another task (\<open>web\<close>,
  \<open>None\<close> when none ever does, so the task waits for good); the call never returns, and the result is the
  state it stays in.
\<close>

datatype process_end = Returns int | Halts

definition process_web :: "upgrade_env \<Rightarrow> array_stream option \<Rightarrow> upgrade_state \<Rightarrow> upgrade_state option" where
  "process_web env web st = do {
     let fs = up_ioctl env (FatUnmount 7) (ug_fs (up_state st));
     let fs = up_ioctl env (FatUnmount 0) fs;
     let st = st\<lparr>upgradeIsReady := True, up_state := (up_state st)\<lparr>ug_fs := fs\<rparr>\<rparr>;
     stream \<leftarrow> web;
     (ret, _, ug) \<leftarrow> ugUpgradePackage array_stream_vt (up_ug env) stream (up_state st);
     Some (st\<lparr>upgradeResult := ret, upgradeIsFinished := True, up_state := ug\<rparr>)
   }"

definition UpgradeProcess :: "upgrade_env \<Rightarrow> array_stream option \<Rightarrow> int \<Rightarrow> upgrade_state \<Rightarrow> (process_end \<times> upgrade_state) option" where
  "UpgradeProcess env web code st =
     (if code = QUIT_RESET_FACTORY then do {
        (ret, fs) \<leftarrow> UpgradeResetFactory env (ug_fs (up_state st));
        Some (Returns ret, st\<lparr>up_state := (up_state st)\<lparr>ug_fs := fs\<rparr>\<rparr>)
      }
      else if code = QUIT_UPGRADE_FIRMWARE then do {
        (ret, st) \<leftarrow> UpgradePackage env st;
        Some (Returns ret, st)
      }
      else if code = QUIT_UPGRADE_WEB then do {
        st \<leftarrow> process_web env web st;
        Some (Halts, st)
      }
      else Some (Returns 0, st))"

section \<open>What the memory of a download holds\<close>

lemma write_piece: "memcpy memory (int n) x 0 (int (length x)) = Some m \<Longrightarrow>
    WriteMemoryCallback x (memory, n) = Some (m, n + length x)"
  by (simp add: WriteMemoryCallback_def)

lemma write_pieces:
  "n + length (concat pieces) \<le> length memory \<Longrightarrow>
   walk WriteMemoryCallback pieces (memory, n) =
     Some (take n memory @ concat pieces @ drop (n + length (concat pieces)) memory, n + length (concat pieces))"
proof (induction pieces arbitrary: memory n)
  case (Cons x pieces)
  let ?m = "take n memory @ x @ drop (n + length x) memory"
  have "memcpy memory (int n) x 0 (int (length x)) = Some ?m"
    using memcpy_int [of n "length x" memory 0 x] Cons.prems by simp
  moreover have "walk WriteMemoryCallback pieces (?m, n + length x) =
      Some (take (n + length x) ?m @ concat pieces @ drop (n + length x + length (concat pieces)) ?m,
        n + length x + length (concat pieces))"
    by (rule Cons.IH) (use Cons.prems in simp)
  ultimately show ?case using Cons.prems write_piece by (simp add: ac_simps)
qed simp

lemma write_pieces_overflow:
  "length memory < n + length (concat pieces) \<Longrightarrow> n \<le> length memory \<Longrightarrow>
   walk WriteMemoryCallback pieces (memory, n) = None"
proof (induction pieces arbitrary: memory n)
  case (Cons x pieces)
  show ?case
  proof (cases "n + length x \<le> length memory")
    case True
    let ?m = "take n memory @ x @ drop (n + length x) memory"
    have "memcpy memory (int n) x 0 (int (length x)) = Some ?m"
      using memcpy_int [of n "length x" memory 0 x] True by simp
    moreover have "walk WriteMemoryCallback pieces (?m, n + length x) = None"
      by (rule Cons.IH) (use Cons.prems True in simp_all)
    ultimately show ?thesis using write_piece by simp
  next
    case False
    then have "memcpy memory (int n) x 0 (int (length x)) = None" by (simp add: memcpy_def)
    then show ?thesis by (simp add: WriteMemoryCallback_def)
  qed
qed simp

text \<open>An attempt that delivers what was announced, and one that delivers more.\<close>

lemma DownloadPackage_exact:
  assumes "up_ftp_data env url k = Some (pieces, True)" "0 < length (concat pieces)" "length (concat pieces) < 2 ^ 31"
    and "\<And>n. \<exists>b. up_malloc env n = Some b \<and> length b = n"
  shows "\<exists>s. DownloadPackage env url (int (length (concat pieces))) k = Some (Some s) \<and> array_inv s \<and>
    as_array s = concat pieces \<and> array_cursor s = 0"
proof -
  let ?n = "length (concat pieces)"
  obtain m where m: "up_malloc env ?n = Some m" "length m = ?n" using assms(4) by blast
  have size: "unat (word_of_int (int ?n) :: u32) = ?n" using unat_of_nat_u32 [OF assms(3)] by simp
  have w: "walk WriteMemoryCallback pieces (m, 0) = Some (concat pieces, ?n)"
    using write_pieces [of 0 pieces m] m(2) by simp
  obtain s where s: "itcArrayStreamOpen \<lparr>st_eof = False, st_size = 0, as_array = [], as_pos = 0\<rparr> (concat pieces) (int ?n) = Some (0, s)"
    using assms(2) by (simp add: itcArrayStreamOpen_def)
  have "DownloadPackage env url (int ?n) k = Some (Some s)"
    unfolding DownloadPackage_def size by (simp only: assms(1) m(1) w s option.case prod.case if_True bind.bind_lunit)
  then show ?thesis using array_open_inv [OF assms(2) s] by blast
qed

lemma DownloadPackage_overflow:
  assumes "up_ftp_data env url k = Some (pieces, good)" "nat n < length (concat pieces)" "0 \<le> n" "n < 2 ^ 31"
    and "\<And>n. \<exists>b. up_malloc env n = Some b \<and> length b = n"
  shows "DownloadPackage env url n k = None"
proof -
  have size: "unat (word_of_int n :: u32) = nat n" using unat_of_nat_u32 [of "nat n"] assms(3,4) by simp
  obtain m where m: "up_malloc env (nat n) = Some m" "length m = nat n" using assms(5) by blast
  have "walk WriteMemoryCallback pieces (m, 0) = None" by (rule write_pieces_overflow) (use assms(2) m(2) in simp_all)
  then show ?thesis unfolding DownloadPackage_def size by (simp add: assms(1) m(1))
qed

section \<open>The file that is found\<close>

lemma try_names_found:
  "try_names env fs drive path0 names = Some (path, Some s) \<Longrightarrow> itcFileStreamOpen fs no_stream path False = (0, s)"
proof (induction names arbitrary: path0)
  case (Cons name names)
  obtain p where p: "path_buf (up_dir env) (drive @ name) = Some p"
    using Cons.prems by (cases "path_buf (up_dir env) (drive @ name)") simp_all
  obtain r s' where o: "itcFileStreamOpen fs no_stream p False = (r, s')" by force
  show ?case using Cons p o by (cases "r = 0") simp_all
qed simp

lemma try_drives_found:
  "try_drives env fs table path0 i = Some (path, Some s) \<Longrightarrow> itcFileStreamOpen fs no_stream path False = (0, s)"
proof (induction i arbitrary: path0)
  case (Suc i)
  show ?case
  proof (cases "ds_avail (table ! i) \<and> 7 \<le> ds_disk (table ! i) \<and> ds_disk (table ! i) \<le> 22")
    case True
    have list: "\<not> (tokens [] (up_filenames env) = [] \<or> de_path_max (up_dir env) \<le> length (up_filenames env))"
      using Suc.prems True by (auto simp: Let_def split: if_splits)
    let ?t = "try_names env fs (ds_name (table ! i)) path0 (tokens [] (up_filenames env))"
    show ?thesis
    proof (cases ?t)
      case None
      then show ?thesis using Suc.prems True list by (simp add: Let_def)
    next
      case (Some r)
      obtain p found where r: "r = (p, found)" by force
      show ?thesis
      proof (cases found)
        case None
        then have "try_drives env fs table p i = Some (path, Some s)" using Suc.prems True list Some r by (simp add: Let_def)
        then show ?thesis by (rule Suc.IH)
      next
        case (Some s')
        then have "?t = Some (path, Some s)" using Suc.prems True list \<open>?t = Some r\<close> r by (simp add: Let_def)
        then show ?thesis by (rule try_names_found)
      qed
    qed
  next
    case False
    then have "try_drives env fs table path0 i = Some (path, Some s)" using Suc.prems by (auto simp: Let_def)
    then show ?thesis by (rule Suc.IH)
  qed
qed simp

lemma OpenUsbPackage_found:
  "OpenUsbPackage env fs path0 = Some (path, Some s) \<Longrightarrow> itcFileStreamOpen fs no_stream path False = (0, s)"
  by (simp add: OpenUsbPackage_def try_drives_found)

section \<open>A checked package\<close>

text \<open>The bytes the checksum of a package covers: all but the last four.\<close>

definition package_body :: "bytes \<Rightarrow> u32 \<Rightarrow> u32 \<Rightarrow> u32 \<Rightarrow> u32 \<Rightarrow> bytes \<Rightarrow> u64 \<Rightarrow> file_entry list \<Rightarrow> bytes" where
  "package_body hdr off t unf n sizes psize es =
     hdr @ le32_bytes off @ le32_bytes FLAG_NO_PARTITION @
     le32_bytes 1 @ le32_bytes t @ le32_bytes unf @ le32_bytes n @ sizes @
     le32_bytes 4 @ le64_bytes psize @ file_blocks es @ le32_bytes 0"

lemma package_split: "package hdr off t unf n sizes psize es crc [] = package_body hdr off t unf n sizes psize es @ le32_bytes crc"
  by (simp add: package_def package_body_def)

text \<open>What an installation does to the device.\<close>

definition installs :: "ug_env \<Rightarrow> u8 \<Rightarrow> path \<Rightarrow> file_entry list \<Rightarrow> ug_state \<Rightarrow> int \<Rightarrow> ug_state \<Rightarrow> bool" where
  "installs env k drive es st ret st' \<longleftrightarrow>
     (\<forall>q. q \<notin> entry_path drive ` fst ` set es \<longrightarrow> fs_files (ug_fs st') q = fs_files (ug_fs st) q) \<and>
     fst (mark_abs (env_mark_pos env) (disks_mark (ug_disks st'))) = (if ret = 0 then Idle else Backuping) \<and>
     (ret = 0 \<longrightarrow> (\<forall>(nm, data) \<in> set es. fs_files (ug_fs st') (entry_path drive nm) = Some (decoded k data))) \<and>
     (drive_takes env drive es (ug_fs st) \<longrightarrow> ret = 0)"

text \<open>A device that can take the package.\<close>

definition device_ready :: "ug_env \<Rightarrow> u8 \<Rightarrow> ug_state \<Rightarrow> u32 \<Rightarrow> path \<Rightarrow> file_entry list \<Rightarrow> bool" where
  "device_ready env k st t drive es \<longleftrightarrow> length (size_bytes (ugDevice st)) = 80 \<and>
     length (fat_get_table (env_fat env) (ug_fs st)) = ITP_MAX_DRIVE \<and>
     (\<exists>disk i. type_disk t = Some disk \<and> find_drive (fat_get_table (env_fat env) (ug_fs st)) disk 0 0 0 = Some (i, drive)) \<and>
     names_ok (env_stack env) drive es \<and> (\<forall>n. \<exists>b. env_malloc env n = Some b \<and> length b = n) \<and>
     0 < unat (env_buf_size env) \<and> unat (env_buf_size env) mod 4 = 0 \<and> env_key env = ucast k \<and>
     mark_inv (env_mark_pos env) (disks_mark (ug_disks st)) \<and> mark_sound (env_mark_pos env) (disks_mark (ug_disks st))"

context itc_source
begin

lemma install_package:
  assumes "inv s" "contents s = package hdr off t unf (word_of_nat n) sizes psize es crc []"
    and "length hdr = 16" "length sizes = 8 * n" "n \<le> ITP_MAX_PARTITION" "length (contents s) < 2 ^ 31"
    and ready: "device_ready (up_ug env) k st t drive es"
  shows "\<exists>ret st'. install vt env s st = Some (ret, st') \<and>
    (crc \<noteq> crc_of (package_body hdr off t unf (word_of_nat n) sizes psize es) \<longrightarrow> ret = 143 \<and> st' = st) \<and>
    (crc = crc_of (package_body hdr off t unf (word_of_nat n) sizes psize es) \<longrightarrow> installs (up_ug env) k drive es st ret st')"
proof -
  let ?body = "package_body hdr off t unf (word_of_nat n) sizes psize es" and ?env = "up_ug env"
  note r = ready [unfolded device_ready_def]
  obtain disk i where disk: "type_disk t = Some disk"
      "find_drive (fat_get_table (env_fat ?env) (ug_fs st)) disk 0 0 0 = Some (i, drive)" using r by blast
  have alloc: "\<exists>b. env_malloc ?env n = Some b \<and> length b = n" for n using r by blast
  have split: "contents s = ?body @ le32_bytes crc" using assms(2) by (simp only: package_split)
  have bound: "length ?body + 4 < 2 ^ 31" using assms(6) split by simp
  obtain s1 where s1: "ugCheckCrc vt (up_malloc env) (env_buf_size ?env) s None =
        Some (if crc = crc_of ?body then 0 else 143, None, s1)"
      "crc = crc_of ?body \<longrightarrow> inv s1 \<and> contents s1 = contents s \<and> cursor s1 = 0"
    using ugCheckCrc_verdict [OF assms(1) split _ bound, of "up_malloc env" "env_buf_size ?env"] r
    by (auto simp: up_malloc_def)
  show ?thesis
  proof (cases "crc = crc_of ?body")
    case False
    then have "install vt env s st = Some (143, st)" using s1(1) by (simp add: install_def)
    then show ?thesis using False by blast
  next
    case True
    then have inv: "inv s1" "contents s1 = package hdr off t unf (word_of_nat n) sizes psize es crc []" "cursor s1 = 0"
        "length (contents s1) < 2 ^ 31" using s1(2) assms(2,6) by simp_all
    obtain d1 d2 where d: "with_mark (ugUpgradeStart (env_malloc ?env) (env_mark_pos ?env)) (ug_disks st) = Some (0, d1)"
        "with_mark (ugUpgradeFinish (env_malloc ?env) (env_mark_pos ?env)) d1 = Some (0, d2)"
        "fst (mark_abs (env_mark_pos ?env) (disks_mark d1)) = Backuping"
        "fst (mark_abs (env_mark_pos ?env) (disks_mark d2)) = Idle"
      by (rule mark_start_finish) (use r in auto)
    have sized: "alloc_sized (env_malloc ?env)" unfolding alloc_sized_def using alloc by (metis option.sel)
    obtain ret s2 st' where run: "ugUpgradePackage vt ?env s1 st = Some (ret, s2, st')"
        "\<forall>q. q \<notin> entry_path drive ` fst ` set es \<longrightarrow> fs_files (ug_fs st') q = fs_files (ug_fs st) q"
        "ug_disks st' = (if ret = 0 then d2 else d1)"
        "ret = 0 \<longrightarrow> (\<forall>(nm, data) \<in> set es. fs_files (ug_fs st') (entry_path drive nm) = Some (decoded k data))"
        "drive_takes ?env drive es (ug_fs st) \<longrightarrow> ret = 0"
      using package_result [OF inv(1-3) assms(3-5) inv(4) _ disk(1) _ disk(2) _ sized _ _ d(1,2), of k] r
      by (elim exE conjE) blast
    have "install vt env s st = Some (ret, st')" using True s1(1) run(1) by (simp add: install_def)
    then show ?thesis using True run(2-5) d(3,4) by (auto simp: installs_def)
  qed
qed

end

text \<open>A download of the announced size is the package.\<close>

lemma ftp_package_installed:
  assumes "upgradeUrl st \<noteq> []" "up_net env" "up_ftp_size env (upgradeUrl st) 0 = int (length (concat pieces))"
    and "up_ftp_data env (upgradeUrl st) 0 = Some (pieces, True)"
    and "concat pieces = package hdr off t unf (word_of_nat n) sizes psize es crc []"
    and "length hdr = 16" "length sizes = 8 * n" "n \<le> ITP_MAX_PARTITION" "length (concat pieces) < 2 ^ 31"
    and "device_ready (up_ug env) k (up_state st) t drive es"
  shows "\<exists>ret ug. UpgradePackage env st = Some (ret, st\<lparr>up_state := ug\<rparr>) \<and>
    (crc \<noteq> crc_of (package_body hdr off t unf (word_of_nat n) sizes psize es) \<longrightarrow> ret = 143 \<and> ug = up_state st) \<and>
    (crc = crc_of (package_body hdr off t unf (word_of_nat n) sizes psize es) \<longrightarrow>
      installs (up_ug env) k drive es (up_state st) ret ug)"
proof -
  have pos: "0 < length (concat pieces)" unfolding assms(5) package_def by simp
  have alloc: "\<exists>b. up_malloc env n = Some b \<and> length b = n" for n
    using assms(10) unfolding device_ready_def up_malloc_def by blast
  obtain s where s: "DownloadPackage env (upgradeUrl st) (int (length (concat pieces))) 0 = Some (Some s)" "array_inv s"
      "as_array s = concat pieces" using DownloadPackage_exact [OF assms(4) pos assms(9) alloc] by blast
  have "ftp_size env (upgradeUrl st) 10 0 0 = (9, int (length (concat pieces)))"
    using assms(3) pos by (subst ftp_size.simps) simp
  then have "OpenFtpPackage env (upgradeUrl st) = Some (Some s)"
    unfolding OpenFtpPackage_def by (subst ftp_download.simps) (simp add: s(1))
  then have up: "UpgradePackage env st = do { (ret, ug) \<leftarrow> install array_stream_vt env s (up_state st);
      Some (ret, st\<lparr>up_state := ug\<rparr>) }" using assms(1,2) by (simp add: UpgradePackage_def)
  have pkg: "as_array s = package hdr off t unf (word_of_nat n) sizes psize es crc []" using s(3) assms(5) by simp
  have len: "length (as_array s) < 2 ^ 31" using s(3) assms(9) by simp
  obtain ret ug where run: "install array_stream_vt env s (up_state st) = Some (ret, ug)"
    "(crc \<noteq> crc_of (package_body hdr off t unf (word_of_nat n) sizes psize es) \<longrightarrow> ret = 143 \<and> ug = up_state st) \<and>
    (crc = crc_of (package_body hdr off t unf (word_of_nat n) sizes psize es) \<longrightarrow>
      installs (up_ug env) k drive es (up_state st) ret ug)"
    using array_src.install_package [OF s(2) pkg assms(6-8) len assms(10)] by blast
  have "UpgradePackage env st = Some (ret, st\<lparr>up_state := ug\<rparr>)" using up run(1) by simp
  then show ?thesis using run(2) by blast
qed

section \<open>The properties\<close>


text \<open>A package with one file on a USB stick, for the device of \<open>UG_Package\<close>.\<close>

definition demo_crc :: u32 where
  "demo_crc = crc_of (package_body (replicate 16 0) 0 1 16 (word_of_nat 1) (replicate 8 0) 64 [([47, 97], [1, 2, 3])])"

definition demo_up_state :: upgrade_state where
  "demo_up_state = \<lparr>upgradeIsReady = False, upgradeUrl = [], upgradeIsFinished = False, upgradeResult = 0, pkgFilePath = [],
     up_state = demo_ug\<lparr>ug_fs := demo_drive\<lparr>fs_files := [[85, 58, 47, 112] \<mapsto>
       package (replicate 16 0) 0 1 16 (word_of_nat 1) (replicate 8 0) 64 [([47, 97], [1, 2, 3])] demo_crc []]\<rparr>\<rparr>\<rparr>"

definition demo_up :: "nat \<Rightarrow> upgrade_env" where
  "demo_up n = \<lparr>up_ug = demo_env, up_dir = demo_dir_env [], up_public = [65], up_private = [68], up_filenames = [112],
     up_table = (\<lambda>_. replicate 25 \<lparr>ds_disk = 23, ds_avail = False, ds_name = []\<rparr> @
       [\<lparr>ds_disk = 7, ds_avail = True, ds_name = [85, 58, 47]\<rparr>]),
     up_ioctl = (\<lambda>_ fs. fs), up_check_on_boot = False, up_net = True, up_delete = False,
     up_ftp_size = (\<lambda>_ _. int n), up_ftp_data = (\<lambda>_ _. Some ([[1], [2, 3]], True))\<rparr>"

lemma demo_package_length: "length (package (replicate 16 0) 0 1 16 1 (replicate 8 0) 64 [([47, 97], [1, 2, 3])] c []) = 86"
  by (simp add: package_def file_blocks_def file_block_def le64_bytes_def)

lemma demo_usb_found:
  "\<exists>s. OpenUsbPackage (demo_up n) (ug_fs (up_state demo_up_state)) (pkgFilePath demo_up_state) = Some ([85, 58, 47, 112], Some s)"
proof -
  have suc: "(26 :: nat) = Suc 25" by simp
  have "itcFileStreamOpen (ug_fs (up_state demo_up_state)) no_stream [85, 58, 47, 112] False = (0, s) \<Longrightarrow> ?thesis" for s
    unfolding OpenUsbPackage_def suc try_drives.simps(2)
    by (simp add: demo_up_def nth_append path_buf_def demo_dir_env_def)
  moreover have "\<exists>s. itcFileStreamOpen (ug_fs (up_state demo_up_state)) no_stream [85, 58, 47, 112] False = (0, s)"
    by (simp add: itcFileStreamOpen_def fopen_def demo_up_state_def demo_drive_def Let_def)
  ultimately show ?thesis by blast
qed


text \<open>
  C36. A server can write behind the end of the download buffer. The buffer has the size the server
  announced; when the transfer then delivers more, the callback copies all of it, outside the buffer.
\<close>

theorem ftp_download_overflows:
  assumes "upgradeUrl st \<noteq> []" "up_net env" "0 < up_ftp_size env (upgradeUrl st) 0" "up_ftp_size env (upgradeUrl st) 0 < 2 ^ 31"
    and "up_ftp_data env (upgradeUrl st) 0 = Some (pieces, good)"
      "nat (up_ftp_size env (upgradeUrl st) 0) < length (concat pieces)"
    and "\<And>n. \<exists>b. up_malloc env n = Some b \<and> length b = n"
  shows "UpgradePackage env st = None"
proof -
  let ?n = "up_ftp_size env (upgradeUrl st) 0"
  have "ftp_size env (upgradeUrl st) 10 0 0 = (9, ?n)" using assms(3) by (subst ftp_size.simps) simp
  moreover have "DownloadPackage env (upgradeUrl st) ?n 0 = None"
    by (rule DownloadPackage_overflow [OF assms(5,6) _ assms(4,7)]) (use assms(3) in simp)
  ultimately have "OpenFtpPackage env (upgradeUrl st) = None"
    unfolding OpenFtpPackage_def by (subst ftp_download.simps) simp
  then show ?thesis using assms(1,2) by (simp add: UpgradePackage_def)
qed

theorem ftp_download_overflows_witness:
  "UpgradePackage (demo_up 2) (demo_up_state\<lparr>upgradeUrl := [102]\<rparr>) = None"
  by (rule ftp_download_overflows [of _ _ "[[1], [2, 3]]" True])
    (simp_all add: demo_up_def up_malloc_def demo_env_def)

end
