(* ===== verification/CB_Config.thy ===== *)
theory CB_Config
  imports INI_Roundtrip CB_Upgrade
begin

text \<open>
  The settings of the control board (\<open>project/ctrlboard/config.c\<close>): they are loaded from an ini file at
  start and written back by a task of its own. The first part is the translation of the functions with
  one thread; the second part models the task, the requests for it and the changes of the settings as
  steps that interleave.

  The environment gives the allocator of the dictionary, the drive letter and \<open>PATH_MAX\<close>. A value that is
  used as a format string and holds a conversion, a number that does not fit its buffer of eight bytes
  and a NULL string that is copied are undefined. Flushing the NOR cache has no effect, writes reach the
  medium at once.
\<close>

section \<open>The C library\<close>

definition c_str :: "string \<Rightarrow> bytes" where
  "c_str s = map of_char s"

function dec_nat :: "nat \<Rightarrow> bytes" where
  "dec_nat n = (if n < 10 then [48 + word_of_nat n] else dec_nat (n div 10) @ [48 + word_of_nat (n mod 10)])"
  by pat_completeness auto
termination by (relation "measure id") auto

declare dec_nat.simps [simp del]

definition dec :: "int \<Rightarrow> bytes" where
  "dec n = (if n < 0 then 45 # dec_nat (nat (- n)) else dec_nat (nat n))"

text \<open>\<open>sprintf(buf, "%d", n)\<close> with \<open>char buf[8]\<close>.\<close>

definition sprintf_d :: "int \<Rightarrow> bytes option" where
  "sprintf_d n = (if length (dec n) < 8 then Some (dec n) else None)"

text \<open>What \<open>printf\<close> makes of a format without arguments.\<close>

fun format_only :: "bytes \<Rightarrow> bytes option" where
  "format_only [] = Some []"
| "format_only (c # cs) =
     (if c \<noteq> 37 then map_option ((#) c) (format_only cs)
      else case cs of [] \<Rightarrow> None | d # r \<Rightarrow> if d = 37 then map_option ((#) 37) (format_only r) else None)"

definition snprintf :: "nat \<Rightarrow> bytes \<Rightarrow> bytes option" where
  "snprintf n fmt = map_option (take (n - 1)) (format_only fmt)"

section \<open>The state\<close>

record Config =
  dhcp :: int
  ipaddr :: bytes
  netmask :: bytes
  gw :: bytes
  dns :: bytes
  brightness :: int
  screensaver_time :: int
  screensaver_type :: int
  lang :: int
  mainmenu_type :: int
  keysound :: bytes
  keylevel :: int
  audiolevel :: int
  photo_interval :: int
  touch_calibration :: int
  ssid :: bytes
  password :: bytes
  secumode :: bytes
  wifi_mode :: int
  wifi_on_off :: int
  user_id :: bytes
  user_password :: bytes

record config_env =
  ce_alloc :: "nat \<Rightarrow> bool"
  ce_path_max :: nat
  ce_up :: upgrade_env
  ce_bk :: backup_env

record config_state =
  theConfig :: Config
  cfgIni :: "dictionary option"
  cfgIsSaving :: bool
  cfgSavingCount :: bool

definition ini_path :: "config_env \<Rightarrow> path" where
  "ini_path env = up_public (ce_up env) @ [58, 47] @ c_str ''ctrlboard.ini''"

section \<open>Loading\<close>

text \<open>A setting that is copied as a string; the copy of a NULL pointer is undefined.\<close>

definition ini_str :: "dictionary \<Rightarrow> string \<Rightarrow> string \<Rightarrow> bytes option" where
  "ini_str d key def = do {
     p \<leftarrow> iniparser_getstring (Some d) (Some (c_str key)) (CStr (c_str def));
     case p of CStr s \<Rightarrow> Some s | _ \<Rightarrow> None
   }"

definition ini_int :: "dictionary \<Rightarrow> string \<Rightarrow> int \<Rightarrow> int option" where
  "ini_int d key def = iniparser_getint (Some d) (Some (c_str key)) def"

text \<open>\<open>strncpy\<close> into an array of \<open>n\<close> bytes of which the last stays 0.\<close>

definition strncpy :: "nat \<Rightarrow> bytes \<Rightarrow> bytes" where
  "strncpy n s = take (n - 1) s"

definition fresh_ini :: "(nat \<Rightarrow> bool) \<Rightarrow> dictionary option" where
  "fresh_ini alloc = do {
     d \<leftarrow> dictionary_new alloc 0;
     (r, d) \<leftarrow> dict_put alloc d (c_str ''tcpip'') None;
     (r, d) \<leftarrow> dict_put alloc d (c_str ''ctrlboard'') None;
     Some d
   }"

definition read_config :: "nat \<Rightarrow> dictionary \<Rightarrow> Config option" where
  "read_config path_max d = do {
     dhcp \<leftarrow> iniparser_getboolean (Some d) (Some (c_str ''tcpip:dhcp'')) 1;
     ipaddr \<leftarrow> ini_str d ''tcpip:ipaddr'' ''192.168.1.1'';
     netmask \<leftarrow> ini_str d ''tcpip:netmask'' ''255.255.255.0'';
     gw \<leftarrow> ini_str d ''tcpip:gw'' ''192.168.1.254'';
     dns \<leftarrow> ini_str d ''tcpip:dns'' ''192.168.1.254'';
     lang \<leftarrow> ini_int d ''ctrlboard:lang'' 0;
     brightness \<leftarrow> ini_int d ''ctrlboard:brightness'' 8;
     screensaver_time \<leftarrow> ini_int d ''ctrlboard:screensaver_time'' 30;
     screensaver_type \<leftarrow> ini_int d ''ctrlboard:screensaver_type'' 2;
     mainmenu_type \<leftarrow> ini_int d ''ctrlboard:mainmenu_type'' 0;
     keysound \<leftarrow> ini_str d ''ctrlboard:keysound'' ''key1.wav'';
     keysound \<leftarrow> (if length keysound < path_max then Some keysound else None);
     keylevel \<leftarrow> ini_int d ''ctrlboard:keylevel'' 80;
     audiolevel \<leftarrow> ini_int d ''ctrlboard:audiolevel'' 80;
     photo_interval \<leftarrow> ini_int d ''ctrlboard:photo_interval'' 10;
     user_id \<leftarrow> ini_str d ''ctrlboard:user_id'' ''admin'';
     user_password \<leftarrow> ini_str d ''ctrlboard:user_password'' ''admin'';
     ssid \<leftarrow> ini_str d ''wifi:ssid'' '''';
     ssid \<leftarrow> snprintf 64 ssid;
     password \<leftarrow> ini_str d ''wifi:password'' '''';
     password \<leftarrow> snprintf 256 password;
     secumode \<leftarrow> ini_str d ''wifi:secumode'' ''NA'';
     secumode \<leftarrow> snprintf 3 secumode;
     wifi_mode \<leftarrow> ini_int d ''wifi:wifi_mode'' 0;
     wifi_on_off \<leftarrow> ini_int d ''wifi:wifi_on_off'' 0;
     touch_calibration \<leftarrow> ini_int d ''ctrlboard:touch_calibration'' 1;
     Some \<lparr>dhcp = dhcp, ipaddr = strncpy 16 ipaddr, netmask = strncpy 16 netmask, gw = strncpy 16 gw, dns = strncpy 16 dns,
       brightness = brightness, screensaver_time = screensaver_time, screensaver_type = screensaver_type, lang = lang,
       mainmenu_type = mainmenu_type, keysound = keysound, keylevel = keylevel, audiolevel = audiolevel,
       photo_interval = photo_interval, touch_calibration = touch_calibration, ssid = ssid, password = password,
       secumode = secumode, wifi_mode = wifi_mode, wifi_on_off = wifi_on_off, user_id = strncpy 64 user_id,
       user_password = strncpy 64 user_password\<rparr>
   }"

definition ConfigInit :: "config_env \<Rightarrow> fsys \<Rightarrow> config_state \<Rightarrow> config_state option" where
  "ConfigInit env fs st = do {
     ini \<leftarrow> iniparser_load (ce_alloc env) fs (ini_path env);
     d \<leftarrow> (case ini of Some d \<Rightarrow> Some d | None \<Rightarrow> fresh_ini (ce_alloc env));
     c \<leftarrow> read_config (ce_path_max env) d;
     Some (st\<lparr>cfgIni := Some d, theConfig := c, cfgSavingCount := False\<rparr>)
   }"

definition ConfigExit :: "config_state \<Rightarrow> config_state option" where
  "ConfigExit st = do {
     iniparser_freedict (cfgIni st);
     Some (st\<lparr>cfgIni := None\<rparr>)
   }"

section \<open>Saving\<close>

text \<open>The settings in the order they are put into the dictionary.\<close>

definition config_pairs :: "Config \<Rightarrow> (bytes \<times> bytes option) list option" where
  "config_pairs c = do {
     lang \<leftarrow> sprintf_d (lang c);
     brightness \<leftarrow> sprintf_d (brightness c);
     screensaver_time \<leftarrow> sprintf_d (screensaver_time c);
     screensaver_type \<leftarrow> sprintf_d (screensaver_type c);
     mainmenu_type \<leftarrow> sprintf_d (mainmenu_type c);
     keylevel \<leftarrow> sprintf_d (keylevel c);
     audiolevel \<leftarrow> sprintf_d (audiolevel c);
     wifi_mode \<leftarrow> sprintf_d (wifi_mode c);
     wifi_on_off \<leftarrow> sprintf_d (wifi_on_off c);
     photo_interval \<leftarrow> sprintf_d (photo_interval c);
     touch_calibration \<leftarrow> sprintf_d (touch_calibration c);
     Some (map (\<lambda>(k, v). (c_str k, Some v))
      [(''tcpip:dhcp'', if dhcp c \<noteq> 0 then c_str ''y'' else c_str ''n''),
       (''tcpip:ipaddr'', ipaddr c), (''tcpip:netmask'', netmask c), (''tcpip:gw'', gw c), (''tcpip:dns'', dns c),
       (''ctrlboard:lang'', lang), (''ctrlboard:brightness'', brightness),
       (''ctrlboard:screensaver_time'', screensaver_time), (''ctrlboard:screensaver_type'', screensaver_type),
       (''ctrlboard:mainmenu_type'', mainmenu_type), (''ctrlboard:keysound'', keysound c),
       (''ctrlboard:keylevel'', keylevel), (''ctrlboard:audiolevel'', audiolevel),
       (''ctrlboard:user_id'', user_id c), (''ctrlboard:user_password'', user_password c),
       (''wifi:ssid'', ssid c), (''wifi:password'', password c), (''wifi:secumode'', secumode c),
       (''wifi:wifi_mode'', wifi_mode), (''wifi:wifi_on_off'', wifi_on_off),
       (''ctrlboard:photo_interval'', photo_interval), (''ctrlboard:touch_calibration'', touch_calibration)])
   }"

text \<open>The result of \<open>iniparser_set\<close> is not looked at. A file that cannot be opened leaves only the dictionary changed.\<close>

definition set_pair :: "(nat \<Rightarrow> bool) \<Rightarrow> bytes \<times> bytes option \<Rightarrow> dictionary option \<Rightarrow> dictionary option option" where
  "set_pair alloc = (\<lambda>(k, v) ini. map_option snd (iniparser_set alloc ini (Some k) v))"

definition ConfigSavePublic :: "config_env \<Rightarrow> config_state \<Rightarrow> fsys \<Rightarrow> (config_state \<times> fsys) option" where
  "ConfigSavePublic env st fs = do {
     kvs \<leftarrow> config_pairs (theConfig st);
     ini \<leftarrow> walk (set_pair (ce_alloc env)) kvs (cfgIni st);
     let st = st\<lparr>cfgIni := ini\<rparr>;
     let (f, fs) = fopen fs (ini_path env) True;
     (case f of
        None \<Rightarrow> Some (st, fs)
      | Some f \<Rightarrow> do {
          (f, fs) \<leftarrow> iniparser_dump_ini ini (f, fs);
          Some (st, fs)
        })
   }"

text \<open>The work of the task when nobody else runs: one round, as the counter does not change.\<close>

definition save_round :: "config_env \<Rightarrow> bytes list \<Rightarrow> config_state \<Rightarrow> fsys \<Rightarrow> (config_state \<times> fsys) option" where
  "save_round env names st fs = do {
     (st, fs) \<leftarrow> ConfigSavePublic env st fs;
     fs \<leftarrow> (if up_check_on_boot (ce_up env) then do {
         fs \<leftarrow> UpgradeSetFileCrc (ce_up env) fs (ini_path env);
         BackupSave (ce_bk env) names fs
       } else Some fs);
     Some (st, fs)
   }"

definition ConfigUpdateCrc :: "config_env \<Rightarrow> path option \<Rightarrow> fsys \<Rightarrow> fsys option" where
  "ConfigUpdateCrc env filepath fs =
     (if up_check_on_boot (ce_up env)
      then UpgradeSetFileCrc (ce_up env) fs (case filepath of Some p \<Rightarrow> p | None \<Rightarrow> ini_path env)
      else Some fs)"

section \<open>Numbers\<close>

lemma digit_val_digit: "k < 10 \<Longrightarrow> digit_val (48 + word_of_nat k) = int k"
proof -
  have "k < 10 \<longleftrightarrow> k \<in> {0, 1, 2, 3, 4, 5, 6, 7, 8, 9}" by auto
  then show "k < 10 \<Longrightarrow> digit_val (48 + word_of_nat k) = int k" by (auto simp: digit_val_def)
qed

lemma digit_range: "k < 10 \<Longrightarrow> 48 + word_of_nat k \<in> {48 :: u8..57}"
proof -
  have "k < 10 \<longleftrightarrow> k \<in> {0, 1, 2, 3, 4, 5, 6, 7, 8, 9}" by auto
  then show "k < 10 \<Longrightarrow> 48 + word_of_nat k \<in> {48 :: u8..57}" by auto
qed

lemma digit_of_range: "c \<in> {48..57} \<Longrightarrow> digit_val c < 10"
proof -
  assume c: "c \<in> {48..57}"
  then have "uint c \<le> uint (57 :: u8)" by (simp add: word_le_def)
  then show ?thesis using c by (simp add: digit_val_def)
qed

lemma dec_nat_digits: "set (dec_nat n) \<subseteq> {48..57}"
proof (induction n rule: dec_nat.induct)
  case (1 n)
  have "n mod 10 < 10" by simp
  then show ?case using 1 digit_range [of n] digit_range [of "n mod 10"] by (subst dec_nat.simps) auto
qed

lemma digits_val_snoc:
  assumes "set s \<subseteq> {48..57}" "k < 10"
  shows "digits_val 10 (s @ [48 + word_of_nat k]) = digits_val 10 s * 10 + int k"
proof -
  have all: "takeWhile (\<lambda>c. digit_val c < 10) t = t" if "set t \<subseteq> {48..57}" for t
    using that digit_of_range by (auto simp: takeWhile_eq_all_conv)
  have "set (s @ [48 + word_of_nat k]) \<subseteq> {48..57}" using assms digit_range [of k] by auto
  then have t: "takeWhile (\<lambda>c. digit_val c < 10) (s @ [48 + word_of_nat k]) = s @ [48 + word_of_nat k]" by (rule all)
  show ?thesis unfolding digits_val_def t all [OF assms(1)] by (simp add: digit_val_digit [OF assms(2)])
qed

lemma digits_val_dec: "digits_val 10 (dec_nat n) = int n"
proof (induction n rule: dec_nat.induct)
  case (1 n)
  have m: "n mod 10 < 10" by simp
  show ?case
  proof (cases "n < 10")
    case True
    have "digits_val 10 [] = 0" by (simp add: digits_val_def)
    then show ?thesis using True digits_val_snoc [of "[]" n] by (subst dec_nat.simps) simp
  next
    case False
    then have "dec_nat n = dec_nat (n div 10) @ [48 + word_of_nat (n mod 10)]" by (subst dec_nat.simps) simp
    then show ?thesis
      using digits_val_snoc [OF dec_nat_digits m, of "n div 10"] 1 [OF False] arg_cong [OF div_mult_mod_eq [of n 10], of int]
      by (simp only: of_nat_add of_nat_mult of_nat_numeral)
  qed
qed

lemma dec_nat_ne: "dec_nat n \<noteq> []"
  by (subst dec_nat.simps) simp

lemma dec_nat_hd: "0 < n \<Longrightarrow> hd (dec_nat n) \<noteq> 48"
proof (induction n rule: dec_nat.induct)
  case (1 n)
  show ?case
  proof (cases "n < 10")
    case True
    have "n < 10 \<longleftrightarrow> n \<in> {0, 1, 2, 3, 4, 5, 6, 7, 8, 9}" by auto
    then show ?thesis using True 1(2) by (subst dec_nat.simps) auto
  next
    case False
    then have "hd (dec_nat n) = hd (dec_nat (n div 10))" using dec_nat_ne [of "n div 10"] by (subst dec_nat.simps) simp
    then show ?thesis using 1(1) [OF False] False by simp
  qed
qed

lemma dec_nat_bound: "n < 10 ^ length (dec_nat n)"
proof (induction n rule: dec_nat.induct)
  case (1 n)
  show ?case
  proof (cases "n < 10")
    case True
    then show ?thesis by (subst dec_nat.simps) simp
  next
    case False
    then have "length (dec_nat n) = length (dec_nat (n div 10)) + 1" by (subst dec_nat.simps) simp
    then show ?thesis using 1 [OF False] by (simp add: div_less_iff_less_mult mult.commute)
  qed
qed

lemma not_space_digit: "c \<in> {48..57} \<Longrightarrow> \<not> isspace c \<and> c \<noteq> 45 \<and> c \<noteq> 43"
  by (auto simp: isspace_def word_le_nat_alt unat_arith_simps)

lemma strtol_num_dec: "strtol_num (dec_nat m) = int m"
proof (cases "m = 0")
  case True
  then have "dec_nat m = [48]" by (simp add: dec_nat.simps [of 0])
  then show ?thesis using True by (simp add: strtol_num_def digits_val_def digit_val_def)
next
  case False
  then have "take 1 (dec_nat m) \<noteq> [48]" using dec_nat_hd [of m] by (cases "dec_nat m") auto
  then show ?thesis using digits_val_dec [of m] by (simp add: strtol_num_def)
qed

lemma strtol_dec:
  assumes "- (2 ^ 31) \<le> n" "n < 2 ^ 31"
  shows "strtol (dec n) = n"
proof -
  obtain c cs where c: "dec_nat (nat n) = c # cs" using dec_nat_ne [of "nat n"] by (cases "dec_nat (nat n)") auto
  then have "c \<in> {48..57}" using dec_nat_digits [of "nat n"] by auto
  note d = not_space_digit [OF this]
  show ?thesis
  proof (cases "n < 0")
    case True
    have "\<not> isspace 45" by (simp add: isspace_def)
    then show ?thesis using strtol_num_dec [of "nat (- n)"] True assms by (simp add: dec_def strtol_def Let_def)
  next
    case False
    then have "strtol_num (c # cs) = n" using strtol_num_dec [of "nat n"] c by simp
    then show ?thesis using False c d assms by (simp add: dec_def strtol_def Let_def)
  qed
qed

lemma sprintf_d_range:
  assumes "sprintf_d n = Some s"
  shows "s = dec n" "- (2 ^ 31) \<le> n" "n < 2 ^ 31"
proof -
  have l: "length (dec n) < 8" and s: "s = dec n" using assms by (auto simp: sprintf_d_def split: if_splits)
  have "length (dec_nat (nat \<bar>n\<bar>)) \<le> 7" using l by (auto simp: dec_def split: if_splits)
  then have "(10 :: nat) ^ length (dec_nat (nat \<bar>n\<bar>)) \<le> 10 ^ 7" by (intro power_increasing) auto
  then have "nat \<bar>n\<bar> < 10 ^ 7" using dec_nat_bound [of "nat \<bar>n\<bar>"] by linarith
  then show "- (2 ^ 31) \<le> n" "n < 2 ^ 31" "s = dec n" using s by auto
qed

lemma plain_dec: "plain_value (dec n)"
proof -
  have digits: "set (dec_nat m) \<subseteq> {48..57}" "dec_nat m \<noteq> []" for m using dec_nat_digits dec_nat_ne by auto
  have set: "set (dec n) \<subseteq> insert 45 {48..57}" "dec n \<noteq> []" using digits by (auto simp: dec_def)
  have ok: "c \<noteq> 0 \<and> c \<noteq> 10 \<and> c \<noteq> 34 \<and> c \<noteq> 39 \<and> \<not> isspace c" if "c \<in> insert 45 {48..57}" for c :: u8
    using that by (auto simp: isspace_def word_le_nat_alt unat_arith_simps)
  have "hd (dec n) \<in> insert 45 {48..57}" "last (dec n) \<in> insert 45 {48..57}"
    using set hd_in_set last_in_set by blast+
  then show ?thesis using ok set unfolding plain_value_def stripped_def by blast
qed

section \<open>The keys\<close>

definition config_keys :: "string list" where
  "config_keys = [''tcpip:dhcp'', ''tcpip:ipaddr'', ''tcpip:netmask'', ''tcpip:gw'', ''tcpip:dns'', ''ctrlboard:lang'',
     ''ctrlboard:brightness'', ''ctrlboard:screensaver_time'', ''ctrlboard:screensaver_type'', ''ctrlboard:mainmenu_type'',
     ''ctrlboard:keysound'', ''ctrlboard:keylevel'', ''ctrlboard:audiolevel'', ''ctrlboard:user_id'',
     ''ctrlboard:user_password'', ''wifi:ssid'', ''wifi:password'', ''wifi:secumode'', ''wifi:wifi_mode'',
     ''wifi:wifi_on_off'', ''ctrlboard:photo_interval'', ''ctrlboard:touch_calibration'']"

definition config_numbers :: "Config \<Rightarrow> int list" where
  "config_numbers c = [lang c, brightness c, screensaver_time c, screensaver_type c, mainmenu_type c, keylevel c,
     audiolevel c, wifi_mode c, wifi_on_off c, photo_interval c, touch_calibration c]"

definition config_strings :: "Config \<Rightarrow> (bytes \<times> nat) list" where
  "config_strings c = [(ipaddr c, 16), (netmask c, 16), (gw c, 16), (dns c, 16), (keysound c, 256), (user_id c, 64),
     (user_password c, 64), (ssid c, 64), (password c, 256), (secumode c, 3)]"

definition config_values :: "Config \<Rightarrow> bytes list" where
  "config_values c = [if dhcp c \<noteq> 0 then c_str ''y'' else c_str ''n'', ipaddr c, netmask c, gw c, dns c, dec (lang c),
     dec (brightness c), dec (screensaver_time c), dec (screensaver_type c), dec (mainmenu_type c), keysound c,
     dec (keylevel c), dec (audiolevel c), user_id c, user_password c, ssid c, password c, secumode c,
     dec (wifi_mode c), dec (wifi_on_off c), dec (photo_interval c), dec (touch_calibration c)]"

definition config_kvs :: "Config \<Rightarrow> (bytes \<times> bytes option) list" where
  "config_kvs c = zip (map c_str config_keys) (map Some (config_values c))"

text \<open>
  Settings that survive: the strings fit their arrays, hold no newline and neither start nor end with a
  blank or start with a quote, the ones of the wireless network hold no percent sign, and the numbers have
  at most seven characters.
\<close>

definition config_plain :: "nat \<Rightarrow> Config \<Rightarrow> bool" where
  "config_plain path_max c \<longleftrightarrow> (dhcp c = 0 \<or> dhcp c = 1) \<and> list_all (\<lambda>n. length (dec n) < 8) (config_numbers c) \<and>
     list_all (\<lambda>(s, n). plain_value s \<and> length s < n) (config_strings c) \<and> length (keysound c) < path_max \<and>
     37 \<notin> set (ssid c) \<and> 37 \<notin> set (password c) \<and> 37 \<notin> set (secumode c)"

definition key_ok :: "bytes \<Rightarrow> bool" where
  "key_ok k \<longleftrightarrow> 58 \<in> set k \<and> takeWhile (not_in 58) k \<in> {c_str ''tcpip'', c_str ''ctrlboard'', c_str ''wifi''} \<and>
     plain_name (drop (length (takeWhile (not_in 58) k) + 1) k) \<and> length k \<le> 40 \<and> strlwc k = k"

lemma keys_distinct: "distinct (map c_str config_keys)"
  by (simp add: config_keys_def c_str_def)

lemma keys_ok: "list_all key_ok (map c_str config_keys)"
  by (simp add: config_keys_def key_ok_def c_str_def not_in_def plain_name_def stripped_def isspace_def tolower_def
      strlwc_def ASCIILINESZ_def)

lemma config_pairs_kvs:
  assumes "list_all (\<lambda>n. length (dec n) < 8) (config_numbers c)"
  shows "config_pairs c = Some (config_kvs c)"
  using assms by (simp add: config_numbers_def config_pairs_def sprintf_d_def config_kvs_def config_keys_def config_values_def)

lemma kvs_keys: "map fst (config_kvs c) = map c_str config_keys"
  by (simp add: config_kvs_def config_keys_def config_values_def)

lemma kvs_map: "(k, v) \<in> set (config_kvs c) \<Longrightarrow> map_of (rev (config_kvs c)) k = Some v"
  using keys_distinct by (intro map_of_is_SomeI) (simp_all add: kvs_keys rev_map [symmetric])

lemma kvs_map_None: "k \<notin> set (map c_str config_keys) \<Longrightarrow> map_of (rev (config_kvs c)) k = None"
  unfolding map_of_eq_None_iff using kvs_keys [of c] by (metis list.set_map set_rev)

lemma kvs_plain:
  assumes "config_plain path_max c" "(k, v) \<in> set (config_kvs c)"
  shows "key_ok k" "plain_value (text_of v) \<and> length (text_of v) < 256"
proof -
  have "k \<in> set (map c_str config_keys)" using assms(2) kvs_keys [of c] by (metis fst_conv image_eqI list.set_map)
  then show "key_ok k" using keys_ok by (auto simp: list_all_iff)
  have yes_no: "plain_value (c_str ''y'')" "plain_value (c_str ''n'')"
    by (simp_all add: plain_value_def stripped_def c_str_def isspace_def)
  have "list_all (\<lambda>v. plain_value v \<and> length v < 256) (config_values c)"
    using assms(1) yes_no plain_dec
    by (simp add: config_plain_def config_values_def config_numbers_def config_strings_def) (simp add: c_str_def)
  moreover have "v \<in> Some ` set (config_values c)" using assms(2) by (auto simp: config_kvs_def dest: set_zip_rightD)
  ultimately show "plain_value (text_of v) \<and> length (text_of v) < 256" by (auto simp: list_all_iff text_of_def)
qed

section \<open>Saving the settings\<close>

lemma walk_set_pair:
  assumes "list_all (\<lambda>(k, v). strlwc k = k) kvs" "walk (\<lambda>(k, v). dict_store alloc k v) kvs d = Some d'"
  shows "walk (set_pair alloc) kvs (Some d) = Some (Some d')"
  using assms
proof (induction kvs arbitrary: d)
  case (Cons kv kvs)
  obtain k v where kv: "kv = (k, v)" by fastforce
  obtain d1 where s: "dict_store alloc k v d = Some d1" and w: "walk (\<lambda>(k, v). dict_store alloc k v) kvs d1 = Some d'"
    using Cons.prems(2) by (auto simp: kv split: bind_splits)
  have d1: "dict_put alloc d k v = Some (0, d1)" using s by (auto simp: dict_store_def split: bind_splits if_splits)
  have "set_pair alloc (k, v) (Some d) = Some (Some d1)"
    using Cons.prems(1) d1 by (simp add: kv set_pair_def iniparser_set_def dictionary_set_def)
  then show ?case using Cons.IH [OF _ w] Cons.prems(1) by (simp add: kv)
qed simp

text \<open>The dictionary that is written.\<close>

definition updated :: "(bytes \<Rightarrow> bytes option option) \<Rightarrow> Config \<Rightarrow> bytes \<Rightarrow> bytes option option" where
  "updated m c = m ++ map_of (rev (config_kvs c))"

definition has_sections :: "dictionary \<Rightarrow> bool" where
  "has_sections d \<longleftrightarrow> list_all (\<lambda>s. dict_map d (c_str s) \<noteq> None) [''tcpip'', ''ctrlboard'', ''wifi'']"

lemma set_all_pairs:
  assumes "dict_ok d" "\<forall>n. alloc n"
  shows "\<exists>d'. walk (set_pair alloc) (config_kvs c) (Some d) = Some (Some d') \<and> dict_ok d' \<and> dict_map d' = updated (dict_map d) c"
proof -
  obtain d' where "walk (\<lambda>(k, v). dict_store alloc k v) (config_kvs c) d = Some d'" "dict_ok d'"
      "dict_map d' = dict_map d ++ map_of (rev (config_kvs c))"
    using dict.put_all [OF conjI [OF assms], of "config_kvs c"] by blast
  moreover have "list_all (\<lambda>(k, v). strlwc k = k) (config_kvs c)"
  proof -
    have "strlwc k = k" if "(k, v) \<in> set (config_kvs c)" for k v
      using that kvs_keys [of c] keys_ok by (metis fst_conv image_eqI key_ok_def list.set_map list_all_iff)
    then show ?thesis by (auto simp: list_all_iff)
  qed
  ultimately show ?thesis using walk_set_pair by (auto simp: updated_def)
qed

lemma updated_section:
  assumes "58 \<notin> set s"
  shows "updated m c s = m s"
proof -
  have "s \<notin> set (map c_str config_keys)" using assms keys_ok by (auto simp: list_all_iff key_ok_def)
  then show ?thesis using kvs_map_None by (simp add: updated_def map_add_def)
qed

lemma updated_plain:
  assumes "dict_ok d" "ini_plain d" "dict_map d (c_str ''tcpip'') \<noteq> None" "config_plain path_max c" "dict_ok d'"
    "dict_map d' = updated (dict_map d) c"
  shows "ini_plain d'" "length (entries d') \<le> length (entries d) + 22"
proof -
  have keep: "dict_map d' s = dict_map d s" if "58 \<notin> set s" for s
    using updated_section [OF that] by (simp add: assms(6))
  have no_colon: "58 \<notin> set (takeWhile (not_in 58) k)" for k by (auto simp: not_in_def dest: set_takeWhileD)
  have "entry_ok d' (k, v)" if e: "(k, v) \<in> set (entries d')" for k v
  proof (cases "map_of (rev (config_kvs c)) k")
    case None
    have "dict_map d k = Some v"
      using e None set_entries [OF assms(5)] by (simp add: assms(6) updated_def map_add_def)
    then have "entry_ok d (k, v)" using set_entries [OF assms(1)] assms(2) by (auto simp: ini_plain_def list_all_iff)
    then show ?thesis using keep [OF no_colon] by (cases "58 \<in> set k") (simp_all add: entry_ok_def Let_def)
  next
    case (Some w)
    then have "w = v" using e set_entries [OF assms(5)] by (simp add: assms(6) updated_def map_add_def)
    then have "(k, v) \<in> set (config_kvs c)" using map_of_SomeD [OF Some] by simp
    note p = kvs_plain [OF assms(4) this]
    then show ?thesis by (auto simp: entry_ok_def Let_def key_ok_def ASCIILINESZ_def)
  qed
  moreover have "c_str ''tcpip'' \<in> set (sections d')"
    using set_sections [OF assms(5), of "c_str ''tcpip''"] keep [of "c_str ''tcpip''"] assms(3) by (simp add: c_str_def)
  ultimately show "ini_plain d'" by (auto simp: ini_plain_def list_all_iff)
  have "dom (dict_map d') = dom (dict_map d) \<union> dom (map_of (rev (config_kvs c)))"
    by (auto simp: assms(6) updated_def)
  moreover have "dom (map_of (rev (config_kvs c))) = set (map c_str config_keys)"
    unfolding dom_map_of_conv_image_fst using kvs_keys [of c] by (metis list.set_map set_rev)
  moreover have "card (set (map c_str config_keys)) \<le> 22"
    using card_length [of "map c_str config_keys"] by (simp add: config_keys_def)
  ultimately have "card (dom (dict_map d')) \<le> card (dom (dict_map d)) + 22"
    using card_Un_le [of "dom (dict_map d)" "dom (map_of (rev (config_kvs c)))"] by simp
  then show "length (entries d') \<le> length (entries d) + 22" by (simp add: length_entries [OF assms(1)] length_entries [OF assms(5)])
qed

section \<open>Reading them back\<close>

lemma format_plain: "37 \<notin> set s \<Longrightarrow> format_only s = Some s"
  by (induction s) auto

lemma snprintf_plain: "37 \<notin> set s \<Longrightarrow> length s < n \<Longrightarrow> snprintf n s = Some s"
  by (simp add: snprintf_def format_plain)

lemma kvs_numbers:
  "(c_str ''ctrlboard:lang'', Some (dec (lang c))) \<in> set (config_kvs c)"
  "(c_str ''ctrlboard:brightness'', Some (dec (brightness c))) \<in> set (config_kvs c)"
  "(c_str ''ctrlboard:screensaver_time'', Some (dec (screensaver_time c))) \<in> set (config_kvs c)"
  "(c_str ''ctrlboard:screensaver_type'', Some (dec (screensaver_type c))) \<in> set (config_kvs c)"
  "(c_str ''ctrlboard:mainmenu_type'', Some (dec (mainmenu_type c))) \<in> set (config_kvs c)"
  "(c_str ''ctrlboard:keylevel'', Some (dec (keylevel c))) \<in> set (config_kvs c)"
  "(c_str ''ctrlboard:audiolevel'', Some (dec (audiolevel c))) \<in> set (config_kvs c)"
  "(c_str ''ctrlboard:photo_interval'', Some (dec (photo_interval c))) \<in> set (config_kvs c)"
  "(c_str ''ctrlboard:touch_calibration'', Some (dec (touch_calibration c))) \<in> set (config_kvs c)"
  "(c_str ''wifi:wifi_mode'', Some (dec (wifi_mode c))) \<in> set (config_kvs c)"
  "(c_str ''wifi:wifi_on_off'', Some (dec (wifi_on_off c))) \<in> set (config_kvs c)"
  by (simp_all add: config_kvs_def config_keys_def config_values_def)

lemma kvs_strings:
  "(c_str ''tcpip:ipaddr'', Some (ipaddr c)) \<in> set (config_kvs c)"
  "(c_str ''tcpip:netmask'', Some (netmask c)) \<in> set (config_kvs c)"
  "(c_str ''tcpip:gw'', Some (gw c)) \<in> set (config_kvs c)"
  "(c_str ''tcpip:dns'', Some (dns c)) \<in> set (config_kvs c)"
  "(c_str ''ctrlboard:keysound'', Some (keysound c)) \<in> set (config_kvs c)"
  "(c_str ''ctrlboard:user_id'', Some (user_id c)) \<in> set (config_kvs c)"
  "(c_str ''ctrlboard:user_password'', Some (user_password c)) \<in> set (config_kvs c)"
  "(c_str ''wifi:ssid'', Some (ssid c)) \<in> set (config_kvs c)"
  "(c_str ''wifi:password'', Some (password c)) \<in> set (config_kvs c)"
  "(c_str ''wifi:secumode'', Some (secumode c)) \<in> set (config_kvs c)"
  by (simp_all add: config_kvs_def config_keys_def config_values_def)

lemma key_sections:
  "takeWhile (not_in 58) (c_str (''tcpip:'' @ x)) = c_str ''tcpip''"
  "takeWhile (not_in 58) (c_str (''ctrlboard:'' @ x)) = c_str ''ctrlboard''"
  "takeWhile (not_in 58) (c_str (''wifi:'' @ x)) = c_str ''wifi''"
  by (simp_all add: c_str_def not_in_def)

text \<open>What is read when the keys of the wireless network were lost.\<close>

definition no_wifi :: "Config \<Rightarrow> Config" where
  "no_wifi c = c\<lparr>ssid := [], password := [], secumode := c_str ''NA'', wifi_mode := 0, wifi_on_off := 0\<rparr>"

lemma read_updated:
  assumes plain: "config_plain path_max c" and ok: "dict_ok d" "dict_map d = reloaded (updated m c)"
    and sections: "m (c_str ''tcpip'') \<noteq> None" "m (c_str ''ctrlboard'') \<noteq> None"
  shows "read_config path_max d = Some (if m (c_str ''wifi'') = None then no_wifi c else c)"
proof -
  note p = plain [unfolded config_plain_def config_numbers_def config_strings_def, simplified]
  have get: "iniparser_getstring (Some d) (Some (c_str k)) def =
      Some (if m (takeWhile (not_in 58) (c_str k)) = None then def else CStr v)"
    if "(c_str k, Some v) \<in> set (config_kvs c)" for k v def
  proof -
    note k = kvs_plain(1) [OF plain that]
    have "58 \<notin> set (takeWhile (not_in 58) (c_str k))" by (auto simp: not_in_def dest: set_takeWhileD)
    note sec = updated_section [OF this, of m c]
    have "updated m c (c_str k) = Some (Some v)" using kvs_map [OF that] by (simp add: updated_def map_add_def)
    then have "dict_map d (c_str k) = (if m (takeWhile (not_in 58) (c_str k)) = None then None else Some (Some v))"
      using k unfolding ok(2) reloaded_def sec by (simp add: key_ok_def text_of_def)
    then show ?thesis using dict_get_map [OF ok(1)] k by (simp add: iniparser_getstring_def key_ok_def)
  qed
  have str: "ini_str d k def = Some (if m (takeWhile (not_in 58) (c_str k)) = None then c_str def else v)"
    if "(c_str k, Some v) \<in> set (config_kvs c)" for k v def
    using get [OF that] by (simp add: ini_str_def)
  have num: "ini_int d k def = Some (if m (takeWhile (not_in 58) (c_str k)) = None then def else n)"
    if "(c_str k, Some (dec n)) \<in> set (config_kvs c)" "length (dec n) < 8" for k n def
  proof -
    have "sprintf_d n = Some (dec n)" using that(2) by (simp add: sprintf_d_def)
    note r = sprintf_d_range [OF this]
    show ?thesis using get [OF that(1)] strtol_dec [OF r(2,3)] by (simp add: ini_int_def iniparser_getint_def)
  qed
  note kvs = config_kvs_def config_keys_def config_values_def
  note names = key_sections [simplified]
  let ?w = "\<lambda>a b. if m (c_str ''wifi'') = None then a else b"
  have flag: "iniparser_getboolean (Some d) (Some (c_str ''tcpip:dhcp'')) 1 = Some (dhcp c)"
  proof -
    have "(c_str ''tcpip:dhcp'', Some (if dhcp c \<noteq> 0 then c_str ''y'' else c_str ''n'')) \<in> set (config_kvs c)" by (simp add: kvs)
    note g = get [OF this, unfolded names]
    show ?thesis using p sections unfolding iniparser_getboolean_def g by (auto simp: c_str_def)
  qed
  note strings = str [OF kvs_strings(1), unfolded names]
    str [OF kvs_strings(2), unfolded names]
    str [OF kvs_strings(3), unfolded names]
    str [OF kvs_strings(4), unfolded names]
    str [OF kvs_strings(5), unfolded names]
    str [OF kvs_strings(6), unfolded names]
    str [OF kvs_strings(7), unfolded names]
    str [OF kvs_strings(8), unfolded names]
    str [OF kvs_strings(9), unfolded names]
    str [OF kvs_strings(10), unfolded names]
  have short: "length (dec (lang c)) < 8"
    "length (dec (brightness c)) < 8"
    "length (dec (screensaver_time c)) < 8"
    "length (dec (screensaver_type c)) < 8"
    "length (dec (mainmenu_type c)) < 8"
    "length (dec (keylevel c)) < 8"
    "length (dec (audiolevel c)) < 8"
    "length (dec (photo_interval c)) < 8"
    "length (dec (touch_calibration c)) < 8"
    "length (dec (wifi_mode c)) < 8"
    "length (dec (wifi_on_off c)) < 8"
    using p by simp_all
  note numbers = num [OF kvs_numbers(1) short(1), unfolded names]
    num [OF kvs_numbers(2) short(2), unfolded names]
    num [OF kvs_numbers(3) short(3), unfolded names]
    num [OF kvs_numbers(4) short(4), unfolded names]
    num [OF kvs_numbers(5) short(5), unfolded names]
    num [OF kvs_numbers(6) short(6), unfolded names]
    num [OF kvs_numbers(7) short(7), unfolded names]
    num [OF kvs_numbers(8) short(8), unfolded names]
    num [OF kvs_numbers(9) short(9), unfolded names]
    num [OF kvs_numbers(10) short(10), unfolded names]
    num [OF kvs_numbers(11) short(11), unfolded names]
  have cut: "strncpy 16 (ipaddr c) = ipaddr c" "strncpy 16 (netmask c) = netmask c" "strncpy 16 (gw c) = gw c"
    "strncpy 16 (dns c) = dns c" "strncpy 64 (user_id c) = user_id c" "strncpy 64 (user_password c) = user_password c"
    using p by (simp_all add: strncpy_def)
  have "37 \<notin> set (?w (c_str '''') (ssid c))" "length (?w (c_str '''') (ssid c)) < 64"
    "37 \<notin> set (?w (c_str '''') (password c))" "length (?w (c_str '''') (password c)) < 256"
    "37 \<notin> set (?w (c_str ''NA'') (secumode c))" "length (?w (c_str ''NA'') (secumode c)) < 3"
    using p by (simp_all add: c_str_def)
  note printed = snprintf_plain [OF this(1,2)] snprintf_plain [OF this(3,4)] snprintf_plain [OF this(5,6)]
  have empty: "c_str '''' = []" by (simp add: c_str_def)
  have ks: "length (keysound c) < path_max" using p by simp
  have all: "read_config path_max d = Some \<lparr>dhcp = dhcp c, ipaddr = ipaddr c, netmask = netmask c, gw = gw c, dns = dns c,
       brightness = brightness c, screensaver_time = screensaver_time c, screensaver_type = screensaver_type c, lang = lang c,
       mainmenu_type = mainmenu_type c, keysound = keysound c, keylevel = keylevel c, audiolevel = audiolevel c,
       photo_interval = photo_interval c, touch_calibration = touch_calibration c, ssid = ?w (c_str '''') (ssid c),
       password = ?w (c_str '''') (password c), secumode = ?w (c_str ''NA'') (secumode c), wifi_mode = ?w 0 (wifi_mode c),
       wifi_on_off = ?w 0 (wifi_on_off c), user_id = user_id c, user_password = user_password c\<rparr>"
    unfolding read_config_def flag strings numbers if_not_P [OF sections(1)] if_not_P [OF sections(2)]
      bind.bind_lunit if_P [OF ks] printed cut ..
  show ?thesis
    by (cases "m (c_str ''wifi'') = None"; cases c) (simp_all only: all if_True if_False no_wifi_def empty simp_thms Config.simps)
qed

section \<open>The round trip of the settings\<close>

text \<open>Room for every line of the file.\<close>

definition ini_room :: "dictionary \<Rightarrow> nat" where
  "ini_room d = 2052 * (length (entries d) + 22) + 2"

lemma save_exact:
  assumes st: "cfgIni st = Some d" "dict_ok d" "ini_plain d" "dict_map d (c_str ''tcpip'') \<noteq> None" "dict_map d (c_str ''ctrlboard'') \<noteq> None"
      "config_plain (ce_path_max env) (theConfig st)"
    and fs: "fs_sound fs" "writable fs (ini_path env)" "ini_room d \<le> fs_room fs"
    and alloc: "\<forall>n. ce_alloc env n"
  shows "\<exists>ini t. ConfigSavePublic env st fs = Some (st\<lparr>cfgIni := ini\<rparr>,
      fs\<lparr>fs_files := (fs_files fs)(ini_path env := Some t), fs_room := fs_room fs - length t\<rparr>) \<and> length t \<le> ini_room d \<and>
    (\<forall>fs1 st0. fs_files fs1 (ini_path env) = Some t \<longrightarrow> fs_fault fs1 (ini_path env) = None \<longrightarrow> (\<exists>st2. ConfigInit env fs1 st0 = Some st2 \<and>
      theConfig st2 = (if dict_map d (c_str ''wifi'') = None then no_wifi (theConfig st) else theConfig st)))"
proof -
  let ?c = "theConfig st" and ?p = "ini_path env"
  have pairs: "config_pairs ?c = Some (config_kvs ?c)" using st(6) by (intro config_pairs_kvs) (simp add: config_plain_def)
  obtain d1 where d1: "walk (set_pair (ce_alloc env)) (config_kvs ?c) (Some d) = Some (Some d1)" "dict_ok d1"
      "dict_map d1 = updated (dict_map d) ?c"
    using set_all_pairs [OF st(2) alloc] by blast
  note plain = updated_plain [OF st(2,3,4,6) d1(2,3)]
  let ?t = "dump_text d1"
  have len: "length ?t \<le> ini_room d"
    using length_dump_text [OF d1(2) plain(1)] plain(2) by (simp add: ini_room_def)
  then obtain h fs1 h2 d2 where w: "fopen fs ?p True = (Some h, fs1)" "iniparser_dump_ini (Some d1) (h, fs1) =
        Some (h2, fs\<lparr>fs_files := (fs_files fs)(?p := Some ?t), fs_room := fs_room fs - length ?t\<rparr>)"
      "\<forall>fs2. fs_files fs2 ?p = Some ?t \<longrightarrow> fs_fault fs2 ?p = None \<longrightarrow> iniparser_load (ce_alloc env) fs2 ?p = Some (Some d2)"
      "dict_ok d2" "dict_map d2 = reloaded (dict_map d1)"
    using ini_dump_exact [OF d1(2) plain(1) fs(1,2) _ alloc] fs(3) by (meson le_trans)
  have save: "ConfigSavePublic env st fs = Some (st\<lparr>cfgIni := Some d1\<rparr>,
      fs\<lparr>fs_files := (fs_files fs)(?p := Some ?t), fs_room := fs_room fs - length ?t\<rparr>)"
    using pairs st(1) d1(1) w(1,2) by (simp add: ConfigSavePublic_def)
  let ?c2 = "if dict_map d (c_str ''wifi'') = None then no_wifi ?c else ?c"
  have "read_config (ce_path_max env) d2 = Some ?c2"
    by (rule read_updated [OF st(6) w(4) _ st(4,5)]) (simp add: w(5) d1(3))
  then have "ConfigInit env fs2 st0 = Some (st0\<lparr>cfgIni := Some d2, theConfig := ?c2, cfgSavingCount := False\<rparr>)"
    if "fs_files fs2 ?p = Some ?t" "fs_fault fs2 ?p = None" for fs2 st0
    using w(3) that by (simp add: ConfigInit_def)
  then show ?thesis using save len by (intro exI [of _ "Some d1"] exI [of _ ?t]) auto
qed

lemma save_and_init:
  assumes st: "cfgIni st = Some d" "dict_ok d" "ini_plain d" "dict_map d (c_str ''tcpip'') \<noteq> None" "dict_map d (c_str ''ctrlboard'') \<noteq> None"
      "config_plain (ce_path_max env) (theConfig st)"
    and fs: "fs_sound fs" "writable fs (ini_path env)" "ini_room d \<le> fs_room fs"
    and alloc: "\<forall>n. ce_alloc env n"
  shows "\<exists>st1 fs1. ConfigSavePublic env st fs = Some (st1, fs1) \<and> theConfig st1 = theConfig st \<and>
    (\<forall>q. q \<noteq> ini_path env \<longrightarrow> fs_files fs1 q = fs_files fs q) \<and>
    (\<forall>st0. \<exists>st2. ConfigInit env fs1 st0 = Some st2 \<and>
      theConfig st2 = (if dict_map d (c_str ''wifi'') = None then no_wifi (theConfig st) else theConfig st))"
  using save_exact [OF assms] fs_soundD(1) [OF fs(1)] by fastforce

text \<open>
  C5. The settings survive a restart: when the dictionary has the three sections and plain names, the
  settings are plain and the drive has room, \<open>ConfigSavePublic\<close> writes the ini file and changes no other,
  and \<open>ConfigInit\<close> on that drive reads the same settings back, every number, string and flag, whatever
  state it starts from.
\<close>

theorem config_survives_restart:
  assumes "cfgIni st = Some d" "dict_ok d" "ini_plain d" "has_sections d" "config_plain (ce_path_max env) (theConfig st)"
    and "fs_sound fs" "writable fs (ini_path env)" "ini_room d \<le> fs_room fs" "\<forall>n. ce_alloc env n"
  shows "\<exists>st1 fs1. ConfigSavePublic env st fs = Some (st1, fs1) \<and> theConfig st1 = theConfig st \<and>
    (\<forall>q. q \<noteq> ini_path env \<longrightarrow> fs_files fs1 q = fs_files fs q) \<and>
    (\<forall>st0. \<exists>st2. ConfigInit env fs1 st0 = Some st2 \<and> theConfig st2 = theConfig st)"
proof -
  have s: "dict_map d (c_str ''tcpip'') \<noteq> None" "dict_map d (c_str ''ctrlboard'') \<noteq> None" "dict_map d (c_str ''wifi'') \<noteq> None"
    using assms(4) by (simp_all add: has_sections_def)
  from save_and_init [OF assms(1,2,3) s(1,2) assms(5,6,7,8,9)] show ?thesis unfolding if_not_P [OF s(3)] .
qed

text \<open>The dictionary \<open>ConfigInit\<close> makes when there is no ini file.\<close>

lemma fresh_ini_map:
  assumes "\<forall>n. alloc n"
  shows "\<exists>d. fresh_ini alloc = Some d \<and> dict_ok d \<and> dict_map d = [c_str ''tcpip'' \<mapsto> None, c_str ''ctrlboard'' \<mapsto> None]"
proof -
  have alloc: "allocates alloc n" for n using assms by (simp add: allocates_def)
  obtain d0 where d0: "dictionary_new alloc 0 = Some d0" "dict_ok d0" "dict_map d0 = Map.empty"
    using dictionary_new_map [OF alloc, of 0] by blast
  obtain d1 where d1: "dict_put alloc d0 (c_str ''tcpip'') None = Some (0, d1)" "dict_ok d1" "dict_map d1 = [c_str ''tcpip'' \<mapsto> None]"
    using dict_put_map [OF d0(2) alloc alloc, of None "c_str ''tcpip''"] d0(3) by auto
  obtain d2 where "dict_put alloc d1 (c_str ''ctrlboard'') None = Some (0, d2)" "dict_ok d2"
      "dict_map d2 = [c_str ''tcpip'' \<mapsto> None, c_str ''ctrlboard'' \<mapsto> None]"
    using dict_put_map [OF d1(2) alloc alloc, of None "c_str ''ctrlboard''"] d1(3) by auto
  then show ?thesis using d0(1) d1(1) by (simp add: fresh_ini_def)
qed

lemma plain_sections_only:
  assumes "dict_ok d" "dict_map d = [c_str ''tcpip'' \<mapsto> None, c_str ''ctrlboard'' \<mapsto> None]"
  shows "ini_plain d" "length (entries d) \<le> 2"
proof -
  have plain: "plain_section (c_str ''tcpip'')" "plain_section (c_str ''ctrlboard'')"
    by (simp_all add: plain_section_def c_str_def stripped_def isspace_def tolower_def)
  have "k = c_str ''tcpip'' \<or> k = c_str ''ctrlboard''" if "(k, v) \<in> set (entries d)" for k v
    using that set_entries [OF assms(1), of k v] by (auto simp: assms(2) split: if_splits)
  moreover have "58 \<notin> set (c_str ''tcpip'')" "58 \<notin> set (c_str ''ctrlboard'')" by (simp_all add: c_str_def)
  moreover have "c_str ''tcpip'' \<in> set (sections d)"
    using set_sections [OF assms(1), of "c_str ''tcpip''"] by (simp add: assms(2) c_str_def)
  ultimately show "ini_plain d" using plain by (auto simp: ini_plain_def list_all_iff entry_ok_def)
  have "dom (dict_map d) = {c_str ''tcpip'', c_str ''ctrlboard''}" by (auto simp: assms(2))
  then have "card (dom (dict_map d)) \<le> 2" by (simp add: card_insert_if)
  then show "length (entries d) \<le> 2" by (simp add: length_entries [OF assms(1)])
qed

text \<open>
  C38. Without an ini file the settings of the wireless network are never saved: the dictionary made at
  start has sections for the network and the board only, and the printer skips keys whose section is
  missing. After a save and a restart the name, password and mode of the wireless network are the defaults
  again, while all other settings are kept.
\<close>

theorem config_fresh_loses_wifi:
  assumes "fs_files fs (ini_path env) = None" "ConfigInit env fs st00 = Some st0"
    and "config_plain (ce_path_max env) c"
    and "fs_sound fs" "writable fs (ini_path env)" "50000 \<le> fs_room fs" "\<forall>n. ce_alloc env n"
  shows "\<exists>st1 fs1 st2. ConfigSavePublic env (st0\<lparr>theConfig := c\<rparr>) fs = Some (st1, fs1) \<and>
    ConfigInit env fs1 st1 = Some st2 \<and> theConfig st2 = no_wifi c"
proof -
  let ?st = "st0\<lparr>theConfig := c\<rparr>"
  obtain d where d: "fresh_ini (ce_alloc env) = Some d" "dict_ok d" "dict_map d = [c_str ''tcpip'' \<mapsto> None, c_str ''ctrlboard'' \<mapsto> None]"
    using fresh_ini_map [OF assms(7)] by blast
  have "iniparser_load (ce_alloc env) fs (ini_path env) = Some None"
    using assms(1) by (simp add: iniparser_load_def fopen_def)
  then have ini: "cfgIni ?st = Some d"
    using assms(2) d(1) by (auto simp: ConfigInit_def split: bind_splits)
  have room: "ini_room d \<le> fs_room fs" using plain_sections_only(2) [OF d(2,3)] assms(6) by (simp add: ini_room_def)
  have m: "dict_map d (c_str ''tcpip'') \<noteq> None" "dict_map d (c_str ''ctrlboard'') \<noteq> None" "dict_map d (c_str ''wifi'') = None"
    by (simp_all add: d(3) c_str_def)
  have c: "config_plain (ce_path_max env) (theConfig ?st)" using assms(3) by simp
  obtain st1 fs1 where s: "ConfigSavePublic env ?st fs = Some (st1, fs1)"
      "\<forall>st0. \<exists>st2. ConfigInit env fs1 st0 = Some st2 \<and> theConfig st2 = no_wifi (theConfig ?st)"
    using save_and_init [OF ini d(2) plain_sections_only(1) [OF d(2,3)] m(1,2) c assms(4,5) room assms(7)]
    unfolding if_P [OF m(3)] by blast
  then show ?thesis by auto
qed

lemma read_sections_only:
  assumes "dict_ok d" "\<And>k. k \<in> set (map c_str config_keys) \<Longrightarrow> dict_map d k = None" "8 < path_max"
  shows "\<exists>c. read_config path_max d = Some c"
proof -
  have get: "iniparser_getstring (Some d) (Some (c_str k)) def = Some def" if "k \<in> set config_keys" for k def
  proof -
    have k: "c_str k \<in> set (map c_str config_keys)" using that by simp
    then have "strlwc (c_str k) = c_str k" using keys_ok unfolding list_all_iff key_ok_def by blast
    then show ?thesis using dict_get_map [OF assms(1)] assms(2) [OF k] by (simp add: iniparser_getstring_def)
  qed
  have str: "ini_str d k def = Some (c_str def)" if "k \<in> set config_keys" for k def
    using get [OF that] by (simp add: ini_str_def)
  have num: "ini_int d k def = Some def" if "k \<in> set config_keys" for k def
    using get [OF that] by (simp add: ini_int_def iniparser_getint_def)
  have flag: "iniparser_getboolean (Some d) (Some (c_str ''tcpip:dhcp'')) 1 = Some 1"
    using get [of "''tcpip:dhcp''"] by (simp add: iniparser_getboolean_def config_keys_def)
  have "length (c_str ''key1.wav'') < path_max" using assms(3) by (simp add: c_str_def)
  moreover have "snprintf n (c_str '''') = Some []" "snprintf n (c_str ''NA'') = Some (take (n - 1) (c_str ''NA''))" for n
    by (simp_all add: snprintf_def c_str_def)
  ultimately show ?thesis
    unfolding read_config_def by (simp add: flag str num config_keys_def)
qed

lemma plain_sections:
  assumes "dict_ok d" "\<And>k v. dict_map d k = Some v \<Longrightarrow> 58 \<notin> set k \<and> plain_section k"
  shows "ini_plain d"
proof -
  have e: "58 \<notin> set k" "plain_section k" if "(k, v) \<in> set (entries d)" for k v
    using that set_entries [OF assms(1)] assms(2) by blast+
  have "sections d = map fst (entries d)" unfolding sections_def by (rule filter_True) (use e(1) in auto)
  moreover have "list_all (entry_ok d) (entries d)" using e by (auto simp: list_all_iff entry_ok_def)
  ultimately show ?thesis by (simp add: ini_plain_def)
qed

definition demo_config :: Config where
  "demo_config = \<lparr>dhcp = 1, ipaddr = c_str ''10.0.0.2'', netmask = c_str ''255.0.0.0'', gw = [], dns = [], brightness = 8,
     screensaver_time = 30, screensaver_type = 2, lang = 0, mainmenu_type = 0, keysound = c_str ''key1.wav'', keylevel = 80,
     audiolevel = -1, photo_interval = 10, touch_calibration = 1, ssid = c_str ''a b'', password = c_str ''=x;'',
     secumode = c_str ''NA'', wifi_mode = 0, wifi_on_off = 1, user_id = c_str ''admin'', user_password = c_str ''admin''\<rparr>"

definition demo_config_env :: config_env where
  "demo_config_env = \<lparr>ce_alloc = (\<lambda>_. True), ce_path_max = 256, ce_up = demo_up 0, ce_bk = demo_bk\<rparr>"

lemma demo_config_plain: "config_plain 256 demo_config"
  by (simp add: config_plain_def config_numbers_def config_strings_def demo_config_def dec_def dec_nat.simps plain_value_def
      stripped_def isspace_def c_str_def)

lemma demo_medium_ok: "fs_sound demo_medium" "writable demo_medium p" "fs_room demo_medium = 100000" "fs_files demo_medium p = None"
  by (simp_all add: demo_medium_def fs_sound_def writable_def)

text \<open>A dictionary with the three sections and nothing else.\<close>

lemma three_sections: "\<exists>d. dict_ok d \<and> ini_plain d \<and> has_sections d \<and> ini_room d \<le> 51302"
proof -
  have alloc: "allocates (\<lambda>_. True) n" for n by (simp add: allocates_def)
  obtain d0 where d0: "dict_ok d0" "dict_map d0 = Map.empty"
    using dictionary_new_map [OF alloc, of 0] by blast
  let ?kvs = "[(c_str ''tcpip'', None), (c_str ''ctrlboard'', None), (c_str ''wifi'', None)]"
  obtain d where d: "dict_ok d" "dict_map d = map_of (rev ?kvs)"
    using dict.put_all [where alloc = "\<lambda>_. True" and kvs = ?kvs and d = d0] d0 by auto
  have m: "dict_map d = [c_str ''tcpip'' \<mapsto> None, c_str ''ctrlboard'' \<mapsto> None, c_str ''wifi'' \<mapsto> None]"
    unfolding d(2) by (simp add: c_str_def fun_eq_iff)
  have plain: "58 \<notin> set k \<and> plain_section k" if "dict_map d k = Some v" for k v
    using that unfolding m by (auto simp: plain_section_def c_str_def stripped_def isspace_def tolower_def split: if_splits)
  have "dom (dict_map d) = {c_str ''tcpip'', c_str ''ctrlboard'', c_str ''wifi''}" by (auto simp: m)
  then have "card (dom (dict_map d)) \<le> 3" by (simp add: card_insert_if)
  then have "ini_room d \<le> 51302" by (simp add: ini_room_def length_entries [OF d(1)])
  moreover have "has_sections d" unfolding has_sections_def m by simp
  moreover have "ini_plain d" by (rule plain_sections [OF d(1)]) (rule plain)
  ultimately show ?thesis using d(1) by blast
qed

theorem config_survives_restart_witness:
  "\<exists>d st1 fs1 st2. ConfigSavePublic demo_config_env
       \<lparr>theConfig = demo_config, cfgIni = Some d, cfgIsSaving = False, cfgSavingCount = False\<rparr> demo_medium = Some (st1, fs1) \<and>
     ConfigInit demo_config_env fs1 st1 = Some st2 \<and> theConfig st2 = demo_config"
proof -
  obtain d where d: "dict_ok d" "ini_plain d" "has_sections d" "ini_room d \<le> 51302" using three_sections by blast
  let ?st = "\<lparr>theConfig = demo_config, cfgIni = Some d, cfgIsSaving = False, cfgSavingCount = False\<rparr>"
  have c: "config_plain (ce_path_max demo_config_env) (theConfig ?st)" using demo_config_plain by (simp add: demo_config_env_def)
  have ini: "cfgIni ?st = Some d" and alloc: "\<forall>n. ce_alloc demo_config_env n" by (simp_all add: demo_config_env_def)
  have room: "ini_room d \<le> fs_room demo_medium" using d(4) by (simp add: demo_medium_ok)
  obtain st1 fs1 where "ConfigSavePublic demo_config_env ?st demo_medium = Some (st1, fs1)"
      "\<forall>st0. \<exists>st2. ConfigInit demo_config_env fs1 st0 = Some st2 \<and> theConfig st2 = demo_config"
    using config_survives_restart [OF ini d(1-3) c demo_medium_ok(1,2) room alloc] by auto
  then show ?thesis by blast
qed

theorem config_fresh_loses_wifi_witness:
  "\<exists>st0 st1 fs1 st2. ConfigSavePublic demo_config_env (st0\<lparr>theConfig := demo_config\<rparr>) demo_medium = Some (st1, fs1) \<and>
     ConfigInit demo_config_env fs1 st1 = Some st2 \<and> ssid (theConfig st2) = [] \<and> ssid demo_config \<noteq> []"
proof -
  let ?st = "\<lparr>theConfig = demo_config, cfgIni = None, cfgIsSaving = False, cfgSavingCount = False\<rparr>"
  have alloc: "\<forall>n. ce_alloc demo_config_env n" by (simp add: demo_config_env_def)
  obtain d where d: "fresh_ini (ce_alloc demo_config_env) = Some d" "dict_ok d"
      "dict_map d = [c_str ''tcpip'' \<mapsto> None, c_str ''ctrlboard'' \<mapsto> None]"
    using fresh_ini_map [OF alloc] by blast
  have absent: "dict_map d k = None" if "k \<in> set (map c_str config_keys)" for k
  proof -
    have "58 \<in> set k" using that keys_ok by (auto simp: list_all_iff key_ok_def)
    then have "k \<noteq> c_str ''tcpip''" "k \<noteq> c_str ''ctrlboard''" by (auto simp: c_str_def)
    then show ?thesis by (simp add: d(3))
  qed
  have "8 < ce_path_max demo_config_env" by (simp add: demo_config_env_def)
  from read_sections_only [OF d(2) absent this] obtain c where c: "read_config (ce_path_max demo_config_env) d = Some c" by blast
  have "iniparser_load (ce_alloc demo_config_env) demo_medium (ini_path demo_config_env) = Some None"
    by (simp add: iniparser_load_def fopen_def demo_medium_ok)
  then have init: "ConfigInit demo_config_env demo_medium ?st =
      Some (?st\<lparr>cfgIni := Some d, theConfig := c, cfgSavingCount := False\<rparr>)"
    using d(1) c by (simp add: ConfigInit_def)
  have plain: "config_plain (ce_path_max demo_config_env) demo_config" using demo_config_plain by (simp add: demo_config_env_def)
  have room: "50000 \<le> fs_room demo_medium" by (simp add: demo_medium_ok)
  have "ssid (no_wifi demo_config) = []" "ssid demo_config \<noteq> []" by (simp_all add: no_wifi_def demo_config_def c_str_def)
  then show ?thesis
    using config_fresh_loses_wifi [OF demo_medium_ok(4) init plain demo_medium_ok(1,2) room alloc] by metis
qed

end
