(* ===== verification/CB_Saving.thy ===== *)
theory CB_Saving
  imports CB_Config
begin

text \<open>
  Saving the settings in the background (\<open>project/ctrlboard/config.c\<close>): \<open>ConfigSave\<close> counts a request and
  starts a task unless one is running; \<open>ConfigSaveTask\<close> reads the counter, puts the settings into the
  dictionary, writes the file and starts over when the counter has changed. The counter and the flag are of
  type \<open>bool\<close>, so counting stops at 1. The steps of the tasks interleave with changes of the settings and
  with requests; a step is one access to the shared state, filling the dictionary and writing the file
  (the theory CB_Config) being one step each. The checksum and the backup that follow the writing
  do not touch this state.
\<close>

section \<open>The steps\<close>

text \<open>Where a task stands, with the value of its local \<open>savingCount\<close>.\<close>

datatype save_pc = Started | Reading | Setting bool | Dumping bool | Testing bool

record save_sys =
  sv_config :: Config
  sv_dict :: Config
  sv_file :: Config
  sv_saving :: bool
  sv_count :: bool
  sv_tasks :: "save_pc list"

datatype save_event = Change Config | Request | Run nat

definition request :: "save_sys \<Rightarrow> save_sys" where
  "request s = (let s = s\<lparr>sv_count := True\<rparr> in
     if sv_saving s then s else s\<lparr>sv_tasks := sv_tasks s @ [Started]\<rparr>)"

definition drop_nth :: "nat \<Rightarrow> 'a list \<Rightarrow> 'a list" where
  "drop_nth i xs = take i xs @ drop (Suc i) xs"

definition task_step :: "nat \<Rightarrow> save_pc \<Rightarrow> save_sys \<Rightarrow> save_sys" where
  "task_step i pc s =
     (case pc of
        Started \<Rightarrow> s\<lparr>sv_saving := True, sv_tasks := (sv_tasks s)[i := Reading]\<rparr>
      | Reading \<Rightarrow> s\<lparr>sv_tasks := (sv_tasks s)[i := Setting (sv_count s)]\<rparr>
      | Setting n \<Rightarrow> s\<lparr>sv_dict := sv_config s, sv_tasks := (sv_tasks s)[i := Dumping n]\<rparr>
      | Dumping n \<Rightarrow> s\<lparr>sv_file := sv_dict s, sv_tasks := (sv_tasks s)[i := Testing n]\<rparr>
      | Testing n \<Rightarrow>
          if n \<noteq> sv_count s then s\<lparr>sv_tasks := (sv_tasks s)[i := Reading]\<rparr>
          else s\<lparr>sv_saving := False, sv_tasks := drop_nth i (sv_tasks s)\<rparr>)"

inductive save_step :: "save_event \<Rightarrow> save_sys \<Rightarrow> save_sys \<Rightarrow> bool" where
  change: "save_step (Change c) s (s\<lparr>sv_config := c\<rparr>)"
| request: "save_step Request s (request s)"
| run: "i < length (sv_tasks s) \<Longrightarrow> save_step (Run i) s (task_step i (sv_tasks s ! i) s)"

inductive save_run :: "save_event list \<Rightarrow> save_sys \<Rightarrow> save_sys \<Rightarrow> bool" where
  stop: "save_run [] s s"
| go: "save_step e s s1 \<Longrightarrow> save_run es s1 s2 \<Longrightarrow> save_run (e # es) s s2"

text \<open>After \<open>ConfigInit\<close>.\<close>

definition save_init :: "Config \<Rightarrow> save_sys" where
  "save_init c = \<lparr>sv_config = c, sv_dict = c, sv_file = c, sv_saving = False, sv_count = False, sv_tasks = []\<rparr>"

section \<open>The counter\<close>

text \<open>While there is a task the counter is 1, and so is every copy of it.\<close>

fun pc_count :: "save_pc \<Rightarrow> bool" where
  "pc_count (Setting n) = n"
| "pc_count (Dumping n) = n"
| "pc_count (Testing n) = n"
| "pc_count _ = True"

definition counted :: "save_sys \<Rightarrow> bool" where
  "counted s \<longleftrightarrow> (sv_tasks s \<noteq> [] \<longrightarrow> sv_count s) \<and> list_all pc_count (sv_tasks s)"

lemma counted_init: "counted (save_init c)"
  by (simp add: counted_def save_init_def)

lemma set_update_all: "list_all P xs \<Longrightarrow> P x \<Longrightarrow> list_all P (xs[i := x])"
  by (auto simp: list_all_iff dest: set_update_subset_insert [THEN subsetD])

lemma set_drop_nth: "list_all P xs \<Longrightarrow> list_all P (drop_nth i xs)"
  by (auto simp: list_all_iff drop_nth_def dest: in_set_takeD in_set_dropD)

lemma counted_step:
  assumes "save_step e s s'" "counted s"
  shows "counted s'"
  using assms(1)
proof (cases rule: save_step.cases)
  case (run i)
  then have count: "sv_count s" "list_all pc_count (sv_tasks s)" "pc_count (sv_tasks s ! i)"
    using assms(2) by (auto simp: counted_def list_all_length)
  then show ?thesis
    unfolding run(2) by (cases "sv_tasks s ! i") (auto simp: task_step_def counted_def set_update_all set_drop_nth)
qed (use assms(2) in \<open>auto simp: counted_def request_def Let_def\<close>)

lemma counted_run: "save_run es s s' \<Longrightarrow> counted s \<Longrightarrow> counted s'"
  by (induction rule: save_run.induct) (auto dest: counted_step)

section \<open>A change during a save\<close>

lemma save_run_append: "save_run es s s1 \<Longrightarrow> save_run es' s1 s2 \<Longrightarrow> save_run (es @ es') s s2"
  by (induction rule: save_run.induct) (auto intro: save_run.go)

text \<open>The steps a task has left, and the settings it leaves in the file when nothing else happens.\<close>

fun steps_left :: "save_pc \<Rightarrow> nat" where
  "steps_left Started = 5"
| "steps_left Reading = 4"
| "steps_left (Setting n) = 3"
| "steps_left (Dumping n) = 2"
| "steps_left (Testing n) = 1"

fun left_in_file :: "save_pc \<Rightarrow> save_sys \<Rightarrow> Config" where
  "left_in_file (Dumping n) s = sv_dict s"
| "left_in_file (Testing n) s = sv_file s"
| "left_in_file _ s = sv_config s"

lemma run_alone:
  assumes "counted s" "sv_tasks s = [pc]"
  shows "\<exists>s'. save_run (replicate (steps_left pc) (Run 0)) s s' \<and> sv_tasks s' = [] \<and> \<not> sv_saving s' \<and>
    sv_config s' = sv_config s \<and> sv_file s' = left_in_file pc s"
  using assms
proof (induction "steps_left pc" arbitrary: pc s)
  case (Suc n)
  let ?s1 = "task_step 0 pc s"
  have step: "save_step (Run 0) s ?s1" using save_step.run [of 0 s] Suc.prems(2) by simp
  have counted: "counted ?s1" by (rule counted_step [OF step Suc.prems(1)])
  have count: "sv_count s" "pc_count pc" using Suc.prems by (simp_all add: counted_def)
  show ?case
  proof (cases n)
    case 0
    then obtain m where "pc = Testing m" using Suc.hyps(2) by (cases pc) auto
    then show ?thesis
      using save_run.go [OF step save_run.stop] count Suc.prems(2) by (auto simp: task_step_def drop_nth_def)
  next
    case (Suc k)
    then obtain pc1 where pc1: "sv_tasks ?s1 = [pc1]" "steps_left pc1 = n" "left_in_file pc1 ?s1 = left_in_file pc s"
        "sv_config ?s1 = sv_config s"
      using Suc.hyps(2) Suc.prems(2) by (cases pc) (auto simp: task_step_def)
    obtain s' where "save_run (replicate (steps_left pc1) (Run 0)) ?s1 s'" "sv_tasks s' = []" "\<not> sv_saving s'"
        "sv_config s' = sv_config ?s1" "sv_file s' = left_in_file pc1 ?s1"
      using Suc.hyps(1) [OF pc1(2) [symmetric] counted pc1(1)] by blast
    then show ?thesis
      using save_run.go [OF step] pc1 Suc.hyps(2) by (metis replicate_Suc)
  qed
next
  case 0
  then show ?case by (cases pc) simp_all
qed

section \<open>The property\<close>

text \<open>
  C37. When a change of the settings and a request to save them arrive while a task is saving, the task
  always ends, but the change reaches the file only when the task had not yet filled the dictionary.
  Later requests are lost: no task is left, the flag is clear, and the file keeps older settings.
  The comparison of the counters, meant to catch this, never fails in any reachable state.
\<close>

theorem config_save_lost:
  assumes "save_run es (save_init c0) s" "sv_saving s" "sv_tasks s = [pc]"
  shows "(\<forall>n. pc = Testing n \<longrightarrow> n = sv_count s) \<and>
    (\<exists>s'. save_run ([Change c, Request] @ replicate (steps_left pc) (Run 0)) s s' \<and> sv_tasks s' = [] \<and> \<not> sv_saving s' \<and>
      sv_config s' = c \<and>
      sv_file s' = (case pc of Dumping n \<Rightarrow> sv_dict s | Testing n \<Rightarrow> sv_file s | _ \<Rightarrow> c))"
proof -
  have counted: "counted s" by (rule counted_run [OF assms(1) counted_init])
  let ?s1 = "s\<lparr>sv_config := c\<rparr>" and ?s2 = "s\<lparr>sv_config := c, sv_count := True\<rparr>"
  have change: "save_step (Change c) s ?s1" by (rule save_step.change)
  have "save_step Request ?s1 (request ?s1)" by (rule save_step.request)
  then have req: "save_step Request ?s1 ?s2" using assms(2) by (simp add: request_def Let_def)
  have two: "save_run [Change c, Request] s ?s2" by (intro save_run.go [OF change] save_run.go [OF req] save_run.stop)
  have counted2: "counted ?s2" using counted by (simp add: counted_def)
  have one: "sv_tasks ?s2 = [pc]" using assms(3) by simp
  obtain s' where s': "save_run (replicate (steps_left pc) (Run 0)) ?s2 s'" "sv_tasks s' = []" "\<not> sv_saving s'"
      "sv_config s' = sv_config ?s2" "sv_file s' = left_in_file pc ?s2"
    using run_alone [OF counted2 one] by blast
  have "left_in_file pc ?s2 = (case pc of Dumping n \<Rightarrow> sv_dict s | Testing n \<Rightarrow> sv_file s | _ \<Rightarrow> c)" by (cases pc) simp_all
  moreover have "n = sv_count s" if "pc = Testing n" for n using counted assms(3) that by (simp add: counted_def)
  ultimately show ?thesis using save_run_append [OF two s'(1)] s' by auto
qed

theorem config_save_lost_witness:
  "\<exists>es s'. save_run es (save_init demo_config) s' \<and> sv_tasks s' = [] \<and> sv_config s' = demo_config\<lparr>lang := 1\<rparr> \<and>
     sv_file s' = demo_config \<and> last (filter (\<lambda>e. \<forall>i. e \<noteq> Run i) es) = Request"
proof -
  let ?s0 = "save_init demo_config"
  let ?s1 = "?s0\<lparr>sv_count := True, sv_tasks := [Started]\<rparr>"
  let ?s2 = "?s1\<lparr>sv_saving := True, sv_tasks := [Reading]\<rparr>"
  let ?s3 = "?s2\<lparr>sv_tasks := [Setting True]\<rparr>"
  let ?s4 = "?s3\<lparr>sv_tasks := [Dumping True]\<rparr>"
  have a: "save_step Request ?s0 ?s1" using save_step.request [of ?s0] by (simp add: request_def save_init_def)
  have b: "save_step (Run 0) ?s1 ?s2" using save_step.run [of 0 ?s1] by (simp add: task_step_def save_init_def)
  have c: "save_step (Run 0) ?s2 ?s3" using save_step.run [of 0 ?s2] by (simp add: task_step_def save_init_def)
  have d: "save_step (Run 0) ?s3 ?s4" using save_step.run [of 0 ?s3] by (simp add: task_step_def save_init_def)
  have run: "save_run [Request, Run 0, Run 0, Run 0] ?s0 ?s4"
    by (rule save_run.go [OF a save_run.go [OF b save_run.go [OF c save_run.go [OF d save_run.stop]]]])
  have "sv_saving ?s4" "sv_tasks ?s4 = [Dumping True]" by simp_all
  from config_save_lost [OF run this, of "demo_config\<lparr>lang := 1\<rparr>"]
  obtain s' where "save_run ([Change (demo_config\<lparr>lang := 1\<rparr>), Request] @ replicate 2 (Run 0)) ?s4 s'" "sv_tasks s' = []"
      "sv_config s' = demo_config\<lparr>lang := 1\<rparr>" "sv_file s' = sv_dict ?s4"
    by auto
  moreover have "sv_dict ?s4 = demo_config" by (simp add: save_init_def)
  ultimately show ?thesis
    using save_run_append [OF run] by (intro exI [of _ "[Request, Run 0, Run 0, Run 0] @ [Change (demo_config\<lparr>lang := 1\<rparr>), Request] @ replicate 2 (Run 0)"] exI [of _ s']) (simp add: numeral_2_eq_2)
qed

end
