(* ===== verification/CB_Main.thy ===== *)
theory CB_Main
  imports CB_Storage CB_Saving
begin

text \<open>
  The start of the control board (\<open>project/ctrlboard/main.c\<close>): the backup is set up, the files of the
  public drive are checked against their checksums, a failed check restores them from the backup drive,
  twice at most, and a passed one brings the backup up to date. Then the settings are loaded and the user
  interface runs until it quits with a code, which the upgrade module handles. The user interface is a
  parameter; the video, network and photo modules keep no state that is modelled here.
\<close>

definition with_fs :: "upgrade_state \<Rightarrow> fsys \<Rightarrow> upgrade_state" where
  "with_fs st fs = st\<lparr>up_state := (up_state st)\<lparr>ug_fs := fs\<rparr>\<rparr>"

abbreviation st_fs :: "upgrade_state \<Rightarrow> fsys" where
  "st_fs st \<equiv> ug_fs (up_state st)"

text \<open>The label \<open>retry_backup\<close>; \<open>n\<close> is the counter \<open>restryCount\<close>.\<close>

function retry_backup :: "upgrade_env \<Rightarrow> backup_env \<Rightarrow> bytes list \<Rightarrow> nat \<Rightarrow> upgrade_state \<Rightarrow> (int \<times> upgrade_state) option" where
  "retry_backup up bk names n st = do {
     (ret, st) \<leftarrow> UpgradeInit up st;
     if ret \<noteq> 0 then
       (if 2 < n + 1 then Some (ret, st)
        else do {
          fs \<leftarrow> BackupRestore bk names (st_fs st);
          retry_backup up bk names (n + 1) (with_fs st fs)
        })
     else do {
       fs \<leftarrow> BackupSyncFile bk names (st_fs st);
       Some (0, with_fs st fs)
     }
   }"
  by pat_completeness auto
termination by (relation "measure (\<lambda>(_, _, _, n, _). 3 - n)") auto

declare retry_backup.simps [simp del]

definition boot :: "upgrade_env \<Rightarrow> backup_env \<Rightarrow> bytes list \<Rightarrow> upgrade_state \<Rightarrow> (int \<times> bytes list \<times> upgrade_state) option" where
  "boot up bk names st =
     (if up_check_on_boot up then do {
        (names, fs) \<leftarrow> BackupInit bk names (st_fs st);
        (ret, st) \<leftarrow> retry_backup up bk names 0 (with_fs st fs);
        Some (ret, names, st)
      }
      else do {
        (ret, st) \<leftarrow> UpgradeInit up st;
        Some (ret, names, st)
      })"

text \<open>
  The board with its settings loaded, up to the end of the process. \<open>scene\<close> is the user interface with the
  modules that keep no state here: it gets the state and leaves a code, the settings and the state.
  \<open>drives\<close> is the drive table at the start of the storage module. The result is what is left of the list
  of backup files, how the process ends and the state.
\<close>

definition run_board ::
    "config_env \<Rightarrow> int \<Rightarrow> drive_status list \<Rightarrow> array_stream option \<Rightarrow>
     (config_state \<Rightarrow> storage \<Rightarrow> upgrade_state \<Rightarrow> (int \<times> config_state \<times> upgrade_state) option) \<Rightarrow>
     bytes list \<Rightarrow> config_state \<Rightarrow> upgrade_state \<Rightarrow> (bytes list \<times> process_end \<times> upgrade_state) option" where
  "run_board ce disk drives web scene names cfg st = do {
     let up = ce_up ce;
     let storage = StorageInit disk (up_public up) drives;
     (ret, cfg, st) \<leftarrow> scene cfg storage st;
     let st = with_fs st (up_ioctl up DriveExit (st_fs st));
     cfg \<leftarrow> ConfigExit cfg;
     let names = (if up_check_on_boot up then BackupDestroy names else names);
     map_option (Pair names) (UpgradeProcess up web ret st)
   }"

definition SDL_main ::
    "config_env \<Rightarrow> int \<Rightarrow> drive_status list \<Rightarrow> array_stream option \<Rightarrow>
     (config_state \<Rightarrow> storage \<Rightarrow> upgrade_state \<Rightarrow> (int \<times> config_state \<times> upgrade_state) option) \<Rightarrow>
     config_state \<Rightarrow> upgrade_state \<Rightarrow> (bytes list \<times> process_end \<times> upgrade_state) option" where
  "SDL_main ce disk drives web scene cfg st = do {
     (ret, names, st) \<leftarrow> boot (ce_up ce) (ce_bk ce) [] st;
     if ret \<noteq> 0 then map_option (Pair names) (UpgradeProcess (ce_up ce) web ret st)
     else do {
       cfg \<leftarrow> ConfigInit ce (st_fs st) cfg;
       run_board ce disk drives web scene names cfg st
     }
   }"

section \<open>A start without anything to restore\<close>

lemma check_names_present:
  assumes "sync_ready bk names fs (bk_config bk) (bk_backup bk)"
  shows "check_names bk fs names = Some 0"
proof -
  have "check_names bk fs ns = Some 0" if "set ns \<subseteq> set names" for ns
    using that
  proof (induction ns)
    case (Cons n ns)
    note r = assms [unfolded sync_ready_def]
    have stat: "fs_stat fs" using r by (simp add: fs_sound_def)
    have paths: "file_path (bk_config bk) n = Some (drive_file (bk_config bk) n)" "file_path (bk_backup bk) n = Some (drive_file (bk_backup bk) n)"
      using r Cons.prems by (simp_all add: file_path_def)
    have opens: "fst (itcFileStreamOpen fs no_stream (drive_file d n) False) = 0" if "\<exists>b. fs_files fs (drive_file d n) = Some b \<and> length b < 2 ^ 31" for d
      using that stat by (auto simp: itcFileStreamOpen_def fopen_def Let_def)
    have "fst (itcFileStreamOpen fs no_stream (drive_file (bk_config bk) n) False) = 0"
        "fst (itcFileStreamOpen fs no_stream (drive_file (bk_backup bk) n) False) = 0"
      using r Cons.prems by (intro opens; auto)+
    then show ?case using Cons paths by (auto simp: split_beta)
  qed simp
  then show ?thesis by simp
qed

lemma backup_init_idle:
  assumes "TraverseFileList bk fs (list_root bk) names0 = Some names"
    and "fs_files fs (special_file (bk_config bk)) = None" "sync_ready bk names fs (bk_config bk) (bk_backup bk)"
  shows "BackupInit bk names0 fs = Some (names, fs)"
proof -
  have "fst (itcFileStreamOpen fs no_stream (special_file (bk_config bk)) False) \<noteq> 0"
    using file_open_missing [OF assms(2), of no_stream] by (auto simp: split_beta)
  then have "CheckBackupStatus bk names fs = Some 0"
    using check_names_present [OF assms(3)] by (auto simp: CheckBackupStatus_def split_beta)
  then show ?thesis using assms(1) by (simp add: BackupInit_def NEED_RESTORE_FROM_BACKUP_def NEED_RESTORE_DEFAULT_def)
qed

section \<open>The check and the two copies\<close>

definition crc_name :: bytes where
  "crc_name = map of_char ''ite_crc.dat''"

lemma crc_file_path_drive: "crc_file_path up = drive_file (up_public up) crc_name"
  by (simp add: crc_file_path_def drive_file_def crc_name_def)

definition boot_check :: "upgrade_env \<Rightarrow> fsys \<Rightarrow> int option" where
  "boot_check up fs = ugCheckFilesCrc (up_malloc up) (env_buf_size (up_ug up)) (de_path_max (up_dir up)) fs
     (up_public up @ [58]) (crc_file_path up)"

lemma UpgradeInit_check:
  assumes "up_check_on_boot up" "boot_check up (st_fs st) = Some r"
  shows "\<exists>st'. UpgradeInit up st = Some (if r \<noteq> 0 then QUIT_RESET_FACTORY else 0, st') \<and> up_state st' = up_state st"
  using assms by (simp add: UpgradeInit_def boot_check_def)

text \<open>
  The copies on the backup drive fit together: its checksum file is valid and names files of the list, whose
  copies there have the checksums of their entries.
\<close>

definition backup_valid :: "upgrade_env \<Rightarrow> backup_env \<Rightarrow> bytes list \<Rightarrow> entries \<Rightarrow> fsys \<Rightarrow> bool" where
  "backup_valid up bk names es fs \<longleftrightarrow> crc_name \<in> set names \<and>
     fs_files fs (drive_file (bk_backup bk) crc_name) = Some (crc_file es) \<and>
     entries_ok (de_path_max (up_dir up)) (up_public up @ [58]) es \<and>
     (\<forall>(name, c) \<in> set es. \<exists>n \<in> set names. name = 47 # n \<and>
        (\<exists>b. fs_files fs (drive_file (bk_backup bk) n) = Some b \<and> c = crc_of b))"

lemma restored_check:
  assumes "backup_valid up bk names es fs" "synced names fs (bk_backup bk) (bk_config bk) fs1" "bk_config bk = up_public up"
    and "env_ok (up_malloc up) (env_buf_size (up_ug up)) fs1"
  shows "boot_check up fs1 = Some 0"
proof -
  have copy: "fs_files fs1 (drive_file (up_public up) n) = fs_files fs (drive_file (bk_backup bk) n)" if "n \<in> set names" for n
    using assms(2,3) that by (simp add: synced_def)
  note v = assms(1) [unfolded backup_valid_def]
  have crc: "fs_files fs1 (crc_file_path up) = Some (encode_entries es @ le32_bytes (crc_of (encode_entries es)))"
    using copy [of crc_name] v by (simp add: crc_file_path_drive crc_file_def)
  have "entries_verdict fs1 (up_public up @ [58]) es = 0"
    unfolding entries_verdict_0
  proof (clarify)
    fix name c
    assume "(name, c) \<in> set es"
    then obtain n b where n: "n \<in> set names" "name = 47 # n" "fs_files fs (drive_file (bk_backup bk) n) = Some b" "c = crc_of b"
      using v by blast
    have "fs_files fs1 ((up_public up @ [58]) @ name) = Some b" using copy [OF n(1)] n(2,3) by (simp add: drive_file_def)
    then show "\<exists>b. fs_files fs1 ((up_public up @ [58]) @ name) = Some b \<and> c = crc_of b" using n(4) by blast
  qed
  then show ?thesis unfolding boot_check_def using files_check [OF crc assms(4)] v by simp
qed

lemma synced_env:
  assumes "synced names fs src dst fs1" "env_ok malloc cfg fs"
  shows "env_ok malloc cfg fs1"
proof -
  have "\<exists>q. fs_files fs1 p = fs_files fs q" for p
    using assms(1) unfolding synced_def by (cases "p \<in> drive_file dst ` set names") auto
  then have "files_small fs1" using assms(2) unfolding env_ok_def files_small_def by metis
  then show ?thesis using assms by (auto simp: env_ok_def synced_def fs_sound_def)
qed

lemma drive_size_synced:
  assumes "synced names fs src dst fs1"
  shows "drive_size fs1 dst names = drive_size fs src names"
proof -
  have "map (\<lambda>n. length (file_bytes fs1 (drive_file dst n))) names = map (\<lambda>n. length (file_bytes fs (drive_file src n))) names"
    using assms by (simp add: synced_def file_bytes_def)
  then show ?thesis unfolding drive_size_def by (rule arg_cong)
qed

lemma sync_ready_back:
  assumes "sync_ready bk names fs src dst" "synced names fs src dst fs1" "fs_room fs \<le> fs_room fs1 + drive_size fs src names"
    and "2 * drive_size fs src names \<le> fs_room fs" "\<forall>n \<in> set names. writable fs (drive_file src n)"
  shows "sync_ready bk names fs1 dst src"
proof -
  note r = assms(1) [unfolded sync_ready_def] and s = assms(2) [unfolded synced_def]
  have "fs_files fs1 (drive_file src n) = fs_files fs (drive_file src n)" for n using s drive_file_neq r by blast
  moreover have "drive_size fs1 dst names \<le> fs_room fs1" using drive_size_synced [OF assms(2)] assms(3,4) by linarith
  ultimately show ?thesis using r s assms(5) by (auto simp: sync_ready_def fs_sound_def writable_def)
qed

lemma synced_twice:
  assumes "synced names fs src dst fs1" "synced names fs1 dst src fs2" "58 \<notin> set src" "58 \<notin> set dst" "src \<noteq> dst"
  shows "synced names fs src dst fs2"
proof -
  note s1 = assms(1) [unfolded synced_def] and s2 = assms(2) [unfolded synced_def]
  have ne: "drive_file dst n \<noteq> drive_file src m" for n m using drive_file_neq assms(3-5) by blast
  have other: "fs_files fs1 (drive_file src n) = fs_files fs (drive_file src n)" for n using s1 ne by (metis (no_types, lifting) imageE)
  have "fs_files fs2 q = fs_files fs1 q" for q
  proof (cases "q \<in> drive_file src ` set names")
    case True
    then show ?thesis using s1 s2 other by force
  next
    case False
    then show ?thesis using s2 by blast
  qed
  then show ?thesis using s1 s2 by (simp add: synced_def)
qed

lemma boot_repairs:
  assumes "up_check_on_boot up" "bk_config bk = up_public up"
    and "TraverseFileList bk (st_fs st) (list_root bk) [] = Some names" "fs_files (st_fs st) (special_file (bk_config bk)) = None"
    and "sync_ready bk names (st_fs st) (bk_config bk) (bk_backup bk)" "sync_ready bk names (st_fs st) (bk_backup bk) (bk_config bk)"
    and "2 * drive_size (st_fs st) (bk_backup bk) names \<le> fs_room (st_fs st)"
    and "env_ok (up_malloc up) (env_buf_size (up_ug up)) (st_fs st)"
    and "boot_check up (st_fs st) = Some r" "r \<noteq> 0 \<Longrightarrow> backup_valid up bk names es (st_fs st)"
  shows "\<exists>st'. boot up bk [] st = Some (0, names, st') \<and>
    (if r = 0 then synced names (st_fs st) (bk_config bk) (bk_backup bk) (st_fs st')
     else synced names (st_fs st) (bk_backup bk) (bk_config bk) (st_fs st'))"
proof -
  let ?fs = "st_fs st"
  have same: "with_fs st ?fs = st" by (simp add: with_fs_def)
  have start: "boot up bk [] st = map_option (\<lambda>(ret, st). (ret, names, st)) (retry_backup up bk names 0 st)"
    using backup_init_idle [OF assms(3-5)] assms(1)
    by (auto simp: boot_def same split: bind_splits prod.splits)
  obtain st1 where st1: "UpgradeInit up st = Some (if r \<noteq> 0 then QUIT_RESET_FACTORY else 0, st1)" "up_state st1 = up_state st"
    using UpgradeInit_check [OF assms(1,9)] by blast
  show ?thesis
  proof (cases "r = 0")
    case True
    obtain fs1 where "BackupSyncFile bk names ?fs = Some fs1" "synced names ?fs (bk_config bk) (bk_backup bk) fs1"
      using BackupSyncFile_result [OF assms(5)] by blast
    then show ?thesis using True st1 start by (simp add: retry_backup.simps [of up bk names 0 st] with_fs_def)
  next
    case False
    obtain fs1 where fs1: "FileSyncFile bk names ?fs (bk_backup bk) (bk_config bk) = Some fs1"
        "synced names ?fs (bk_backup bk) (bk_config bk) fs1" "fs_room ?fs \<le> fs_room fs1 + drive_size ?fs (bk_backup bk) names"
      using FileSyncFile_result [OF assms(6)] by blast
    let ?st2 = "with_fs st1 fs1"
    have fs2: "st_fs ?st2 = fs1" by (simp add: with_fs_def)
    have "boot_check up (st_fs ?st2) = Some 0"
      using restored_check [OF assms(10) [OF False] fs1(2) assms(2) synced_env [OF fs1(2) assms(8)]] fs2 by simp
    then obtain st3 where st3: "UpgradeInit up ?st2 = Some (0, st3)" "up_state st3 = up_state ?st2"
      using UpgradeInit_check [OF assms(1), of ?st2 0] by auto
    have "sync_ready bk names fs1 (bk_config bk) (bk_backup bk)"
      using sync_ready_back [OF assms(6) fs1(2,3) assms(7)] assms(5) by (simp add: sync_ready_def)
    then obtain fs3 where fs3: "BackupSyncFile bk names fs1 = Some fs3" "synced names fs1 (bk_config bk) (bk_backup bk) fs3"
      using BackupSyncFile_result by blast
    have last: "retry_backup up bk names 1 ?st2 = Some (0, with_fs st3 fs3)"
      using st3 fs2 fs3(1) by (simp add: retry_backup.simps [of up bk names "Suc 0"])
    have "retry_backup up bk names 0 st = Some (0, with_fs st3 fs3)"
      using False st1 fs1(1) last by (simp add: retry_backup.simps [of up bk names 0 st] QUIT_RESET_FACTORY_def BackupRestore_def)
    moreover have "synced names ?fs (bk_backup bk) (bk_config bk) fs3"
      using synced_twice [OF fs1(2) fs3(2)] assms(6) by (simp add: sync_ready_def)
    ultimately show ?thesis using False start by (simp add: with_fs_def)
  qed
qed

section \<open>The property\<close>

text \<open>
  C4. The start repairs the settings. When every file of the list is on both drives and there is room, the
  start ends, whatever the check of the public drive says. If the check passes, the backup is brought up to
  date and the public drive is untouched. If it fails, and the copies on the backup drive fit together,
  one restoration is enough: the start succeeds, the files of the public drive are the copies of the
  backup, and nothing else has changed.
\<close>

theorem boot_repairs_settings:
  assumes "up_check_on_boot up" "bk_config bk = up_public up"
    and "TraverseFileList bk (st_fs st) (list_root bk) [] = Some names" "fs_files (st_fs st) (special_file (bk_config bk)) = None"
    and "sync_ready bk names (st_fs st) (bk_config bk) (bk_backup bk)" "sync_ready bk names (st_fs st) (bk_backup bk) (bk_config bk)"
    and "2 * drive_size (st_fs st) (bk_backup bk) names \<le> fs_room (st_fs st)"
    and "env_ok (up_malloc up) (env_buf_size (up_ug up)) (st_fs st)"
    and "boot_check up (st_fs st) = Some r" "r \<noteq> 0 \<Longrightarrow> backup_valid up bk names es (st_fs st)"
  shows "\<exists>st'. boot up bk [] st = Some (0, names, st') \<and>
    (if r = 0 then synced names (st_fs st) (bk_config bk) (bk_backup bk) (st_fs st')
     else synced names (st_fs st) (bk_backup bk) (bk_config bk) (st_fs st'))"
  by (rule boot_repairs [OF assms])

text \<open>A board whose file \<open>A:/a\<close> has one wrong byte; the copy on \<open>B:\<close> is right.\<close>

definition boot_entries :: entries where
  "boot_entries = [([47, 97], crc_of [1, 2, 3])]"

definition boot_bk :: backup_env where
  "boot_bk = demo_bk\<lparr>bk_dir := demo_dir_env [crc_name, [97]]\<rparr>"

definition boot_fs :: fsys where
  "boot_fs = demo_tree [path_join (backup_root [68]) [65]]
     [path_join (path_join (backup_root [68]) [65]) crc_name \<mapsto> [], path_join (path_join (backup_root [68]) [65]) [97] \<mapsto> [],
      drive_file [65] crc_name \<mapsto> crc_file boot_entries, drive_file [65] [97] \<mapsto> [1, 2, 4],
      drive_file [66] crc_name \<mapsto> crc_file boot_entries, drive_file [66] [97] \<mapsto> [1, 2, 3]]"

definition boot_up :: upgrade_env where
  "boot_up = (demo_up 0)\<lparr>up_check_on_boot := True\<rparr>"

definition boot_state :: upgrade_state where
  "boot_state = with_fs demo_up_state boot_fs"

lemma boot_demo:
  "st_fs boot_state = boot_fs" "up_public boot_up = [65]" "bk_config boot_bk = [65]" "bk_backup boot_bk = [66]"
  "up_check_on_boot boot_up" "up_malloc boot_up = (\<lambda>n. Some (replicate n 0))" "env_buf_size (up_ug boot_up) = 4"
  "de_path_max (up_dir boot_up) = 64" "de_malloc (bk_dir boot_bk) = (\<lambda>n. Some (replicate n 0))"
  by (simp_all add: boot_state_def with_fs_def boot_up_def demo_up_def boot_bk_def demo_bk_def demo_env_def demo_dir_env_def up_malloc_def)

lemma boot_names: "crc_name = [105, 116, 101, 95, 99, 114, 99, 46, 100, 97, 116]"
  by (simp add: crc_name_def of_char_def)

lemma boot_files:
  "fs_files boot_fs (drive_file [65] crc_name) = Some (crc_file boot_entries)" "fs_files boot_fs (drive_file [65] [97]) = Some [1, 2, 4]"
  "fs_files boot_fs (drive_file [66] crc_name) = Some (crc_file boot_entries)" "fs_files boot_fs (drive_file [66] [97]) = Some [1, 2, 3]"
  "length (crc_file boot_entries) = 11" "fs_room boot_fs = 100"
  by (simp_all add: boot_fs_def demo_tree_def drive_file_def boot_names path_join_def backup_root_def crc_file_def boot_entries_def)

lemma boot_traverse: "TraverseFileList boot_bk boot_fs (list_root boot_bk) [] = Some [crc_name, [97]]"
  by (subst TraverseFileList.simps, simp add: list_root_def boot_bk_def demo_bk_def demo_dir_env_def demo_listing_def
      boot_fs_def demo_tree_def backup_root_def strip_slash_def path_join_def present_def dot_entry_def path_buf_def
      boot_names drive_file_def is_removal_def add_backup_def MAX_BACKUP_COUNT_def)

lemma boot_ready: "sync_ready boot_bk [crc_name, [97]] boot_fs (bk_config boot_bk) (bk_backup boot_bk)"
  "sync_ready boot_bk [crc_name, [97]] boot_fs (bk_backup boot_bk) (bk_config boot_bk)"
  by (simp_all add: sync_ready_def boot_demo boot_files drive_size_def file_bytes_def alloc_ok_def writable_def fs_sound_def)
    (simp_all add: boot_fs_def demo_tree_def boot_names drive_file_def path_join_def backup_root_def)

lemma boot_env: "env_ok (up_malloc boot_up) (env_buf_size (up_ug boot_up)) boot_fs"
  by (simp add: env_ok_def boot_demo fs_sound_def files_small_def)
    (auto simp: boot_fs_def demo_tree_def boot_files UG_Files_Crc.alloc_ok_def)

lemma boot_fails: "boot_check boot_up boot_fs = Some 76"
proof -
  have "crc_of [1, 2, 3] \<noteq> crc_of [1, 2, 4]" using crc_of_one_byte [of 3 4 "[1, 2]" "[]"] by simp
  moreover have "entries_ok 64 [65, 58] boot_entries" by (simp add: entries_ok_def boot_entries_def)
  ultimately show ?thesis
    using files_check [OF boot_files(1) [unfolded crc_file_def] boot_env, of 64 "[65, 58]"] boot_files(2)
    by (simp add: boot_check_def boot_demo crc_file_path_drive boot_entries_def drive_file_def)
qed

theorem boot_repairs_settings_witness:
  "\<exists>st'. boot boot_up boot_bk [] boot_state = Some (0, [crc_name, [97]], st') \<and>
    fs_files (st_fs st') (drive_file [65] [97]) = Some [1, 2, 3]"
proof -
  have valid: "backup_valid boot_up boot_bk [crc_name, [97]] boot_entries (st_fs boot_state)"
    by (simp add: backup_valid_def boot_demo boot_files boot_entries_def entries_ok_def)
  have special: "fs_files (st_fs boot_state) (special_file (bk_config boot_bk)) = None"
    by (simp add: boot_demo special_file_def) (simp add: boot_fs_def demo_tree_def drive_file_def boot_names path_join_def backup_root_def)
  have size: "2 * drive_size (st_fs boot_state) (bk_backup boot_bk) [crc_name, [97]] \<le> fs_room (st_fs boot_state)"
    by (simp add: boot_demo boot_files drive_size_def file_bytes_def)
  show ?thesis
    using boot_repairs_settings [of boot_up boot_bk boot_state "[crc_name, [97]]" 76 boot_entries]
      boot_traverse special boot_ready size boot_env boot_fails valid
    by (auto simp: boot_demo synced_def boot_files)
qed

end
