(* ===== verification/ITC_Tree.thy ===== *)
theory ITC_Tree
  imports Prelude
begin

text \<open>
  The intrusive tree of the \<open>itc\<close> library (\<open>sdk/share/itc/itc_tree.c\<close>). A node
  has three pointers: its parent, its next sibling and its first child. The heap is split by field:
  \<open>parent\<close>, \<open>sibling\<close> and \<open>child\<close> are functions from addresses to pointers,
  and a pointer is an optional address (\<open>None\<close> is \<open>NULL\<close>). A loop that follows
  \<open>NULL\<close>, or goes round a cycle, has the result \<open>None\<close>.

  The abstract view of a heap is a function \<open>K\<close> that gives every node the list of its children:
  \<open>forest h K\<close>. The lemmas show, for every operation, the list operation it performs on
  \<open>K\<close>, and that the heap is a forest again, so all other lists are unchanged.
\<close>

record itc_heap =
  parent :: "nat \<Rightarrow> nat option"
  sibling :: "nat \<Rightarrow> nat option"
  child :: "nat \<Rightarrow> nat option"

section \<open>The operations\<close>

definition itcTreePushFront :: "itc_heap \<Rightarrow> nat \<Rightarrow> nat \<Rightarrow> itc_heap" where
  "itcTreePushFront h tree node =
     (let h1 = (case child h tree of
                  None \<Rightarrow> h\<lparr>sibling := (sibling h)(node := None)\<rparr>
                | Some c \<Rightarrow> h\<lparr>sibling := (sibling h)(node := Some c)\<rparr>);
          h2 = h1\<lparr>child := (child h1)(tree := Some node)\<rparr>
      in h2\<lparr>parent := (parent h2)(node := Some tree)\<rparr>)"

text \<open>\<open>for (; c->sibling; c = c->sibling);\<close>\<close>

partial_function (option) last_sibling :: "itc_heap \<Rightarrow> nat \<Rightarrow> nat option" where
  "last_sibling h c = (case sibling h c of None \<Rightarrow> Some c | Some d \<Rightarrow> last_sibling h d)"

definition itcTreePushBack :: "itc_heap \<Rightarrow> nat \<Rightarrow> nat \<Rightarrow> itc_heap option" where
  "itcTreePushBack h tree node = do {
     h1 \<leftarrow> (case child h tree of
              None \<Rightarrow> Some (h\<lparr>child := (child h)(tree := Some node)\<rparr>)
            | Some c \<Rightarrow> do { l \<leftarrow> last_sibling h c; Some (h\<lparr>sibling := (sibling h)(l := Some node)\<rparr>) });
     let h2 = h1\<lparr>parent := (parent h1)(node := Some tree)\<rparr>;
     Some (h2\<lparr>sibling := (sibling h2)(node := None)\<rparr>)
   }"

text \<open>\<open>for (; p->sibling != node; p = p->sibling);\<close>\<close>

partial_function (option) find_prev :: "itc_heap \<Rightarrow> nat \<Rightarrow> nat \<Rightarrow> nat option" where
  "find_prev h p node =
     (case sibling h p of None \<Rightarrow> None
      | Some q \<Rightarrow> if q = node then Some p else find_prev h q node)"

definition itcTreeRemove :: "itc_heap \<Rightarrow> nat \<Rightarrow> itc_heap option" where
  "itcTreeRemove h node =
     (case parent h node of
        None \<Rightarrow> Some h
      | Some par \<Rightarrow>
          (case child h par of
             None \<Rightarrow> None
           | Some prev \<Rightarrow> do {
               h1 \<leftarrow> (if prev = node then Some (h\<lparr>child := (child h)(par := sibling h node)\<rparr>)
                      else do {
                        prev \<leftarrow> find_prev h prev node;
                        Some (h\<lparr>sibling := (sibling h)(prev := sibling h node)\<rparr>)
                      });
               Some (h1\<lparr>sibling := (sibling h1)(node := None), parent := (parent h1)(node := None)\<rparr>)
             }))"

text \<open>The loop of \<open>itcTreeGetChildAtImpl\<close>: the outer option is its termination.\<close>

partial_function (option) child_at :: "itc_heap \<Rightarrow> nat option \<Rightarrow> int \<Rightarrow> int \<Rightarrow> nat option option" where
  "child_at h c i index =
     (case c of None \<Rightarrow> Some None
      | Some a \<Rightarrow> if i = index then Some (Some a) else child_at h (sibling h a) (i + 1) index)"

definition itcTreeGetChildAtImpl :: "itc_heap \<Rightarrow> nat \<Rightarrow> int \<Rightarrow> nat option option" where
  "itcTreeGetChildAtImpl h tree index =
     (if index \<ge> 0 then child_at h (child h tree) 0 index else None)"

partial_function (option) count_siblings :: "itc_heap \<Rightarrow> nat option \<Rightarrow> int \<Rightarrow> int option" where
  "count_siblings h c i =
     (case c of None \<Rightarrow> Some i | Some a \<Rightarrow> count_siblings h (sibling h a) (i + 1))"

definition itcTreeGetChildCountImpl :: "itc_heap \<Rightarrow> nat \<Rightarrow> int option" where
  "itcTreeGetChildCountImpl h tree = count_siblings h (child h tree) 0"

text \<open>
  The loop of \<open>itcTreeRotateFront\<close> remembers the child before the last one.
\<close>

partial_function (option) last_two :: "itc_heap \<Rightarrow> nat \<Rightarrow> nat option \<Rightarrow> (nat \<times> nat option) option" where
  "last_two h c prev =
     (case sibling h c of None \<Rightarrow> Some (c, prev) | Some d \<Rightarrow> last_two h d (Some c))"

definition itcTreeRotateFront :: "itc_heap \<Rightarrow> nat \<Rightarrow> itc_heap option" where
  "itcTreeRotateFront h tree =
     (case child h tree of
        None \<Rightarrow> Some h
      | Some first \<Rightarrow>
          if sibling h first = None then Some h
          else do {
            (c, prevChild) \<leftarrow> last_two h first None;
            let h1 = h\<lparr>sibling := (sibling h)(c := child h tree)\<rparr>;
            let h2 = h1\<lparr>child := (child h1)(tree := Some c)\<rparr>;
            (case prevChild of
               None \<Rightarrow> None
             | Some p \<Rightarrow> Some (h2\<lparr>sibling := (sibling h2)(p := None)\<rparr>))
          })"

definition itcTreeRotateBack :: "itc_heap \<Rightarrow> nat \<Rightarrow> itc_heap option" where
  "itcTreeRotateBack h tree =
     (case child h tree of
        None \<Rightarrow> Some h
      | Some first \<Rightarrow>
          if sibling h first = None then Some h
          else do {
            c \<leftarrow> last_sibling h first;
            let h1 = h\<lparr>child := (child h)(tree := sibling h first)\<rparr>;
            let h2 = h1\<lparr>sibling := (sibling h1)(c := Some first)\<rparr>;
            Some (h2\<lparr>sibling := (sibling h2)(first := None)\<rparr>)
          })"

subsection \<open>Swapping two nodes\<close>

text \<open>\<open>for (; p->sibling != a && p->sibling != b; p = p->sibling);\<close>\<close>

partial_function (option) find_prev2 :: "itc_heap \<Rightarrow> nat \<Rightarrow> nat \<Rightarrow> nat \<Rightarrow> nat option" where
  "find_prev2 h p a b =
     (case sibling h p of None \<Rightarrow> None
      | Some q \<Rightarrow> if q = a \<or> q = b then Some p else find_prev2 h q a b)"

text \<open>
  The part that the branches of \<open>itcTreeSwap\<close> for a common parent repeat: node \<open>x\<close>
  comes before \<open>y\<close>, and the pointer to \<open>x\<close> has been redirected to \<open>y\<close>. If they
  are adjacent their sibling pointers are rotated, otherwise the predecessor of \<open>y\<close> is
  searched from the successor of \<open>x\<close> and the two sibling pointers are exchanged.
\<close>

definition swap_siblings :: "itc_heap \<Rightarrow> nat \<Rightarrow> nat \<Rightarrow> itc_heap option" where
  "swap_siblings h x y =
     (if sibling h x = Some y then
        (let h1 = h\<lparr>sibling := (sibling h)(x := sibling h y)\<rparr>
         in Some (h1\<lparr>sibling := (sibling h1)(y := Some x)\<rparr>))
      else
        (case sibling h x of
           None \<Rightarrow> None
         | Some n \<Rightarrow> do {
             prev \<leftarrow> find_prev h n y;
             let h1 = h\<lparr>sibling := (sibling h)(prev := Some x)\<rparr>;
             let temp = sibling h1 x;
             let h2 = h1\<lparr>sibling := (sibling h1)(x := sibling h1 y)\<rparr>;
             Some (h2\<lparr>sibling := (sibling h2)(y := temp)\<rparr>)
           }))"

text \<open>
  Redirecting the pointer that leads to a node among the children of \<open>par\<close>, from
  \<open>par->child\<close> or from the sibling before it: the two halves of the branch for different
  parents.
\<close>

definition redirect :: "itc_heap \<Rightarrow> nat \<Rightarrow> nat \<Rightarrow> nat \<Rightarrow> itc_heap option" where
  "redirect h par x y =
     (case child h par of
        None \<Rightarrow> None
      | Some prev \<Rightarrow>
          if prev = x then
            (case parent h prev of None \<Rightarrow> None
             | Some pp \<Rightarrow> Some (h\<lparr>child := (child h)(pp := Some y)\<rparr>))
          else do {
            prev \<leftarrow> find_prev h prev x;
            Some (h\<lparr>sibling := (sibling h)(prev := Some y)\<rparr>)
          })"

definition itcTreeSwap :: "itc_heap \<Rightarrow> nat \<Rightarrow> nat \<Rightarrow> itc_heap option" where
  "itcTreeSwap h a b =
     (if a = b then None
      else case (parent h a, parent h b) of
        (Some pa, Some pb) \<Rightarrow>
          if pa = pb then
            (case child h pa of
               None \<Rightarrow> None
             | Some prev \<Rightarrow>
                 if prev = a then
                   (case parent h prev of None \<Rightarrow> None
                    | Some pp \<Rightarrow> swap_siblings (h\<lparr>child := (child h)(pp := Some b)\<rparr>) a b)
                 else if prev = b then
                   (case parent h prev of None \<Rightarrow> None
                    | Some pp \<Rightarrow> swap_siblings (h\<lparr>child := (child h)(pp := Some a)\<rparr>) b a)
                 else do {
                   prev \<leftarrow> find_prev2 h prev a b;
                   if sibling h prev = Some a
                   then swap_siblings (h\<lparr>sibling := (sibling h)(prev := Some b)\<rparr>) a b
                   else if sibling h prev = Some b
                   then swap_siblings (h\<lparr>sibling := (sibling h)(prev := Some a)\<rparr>) b a
                   else Some h
                 })
          else do {
            h1 \<leftarrow> redirect h pa a b;
            h2 \<leftarrow> redirect h1 pb b a;
            let tempParent = parent h2 a;
            let tempSibling = sibling h2 a;
            let h3 = h2\<lparr>parent := (parent h2)(a := parent h2 b),
                       sibling := (sibling h2)(a := sibling h2 b)\<rparr>;
            Some (h3\<lparr>parent := (parent h3)(b := tempParent),
                    sibling := (sibling h3)(b := tempSibling)\<rparr>)
          }
      | _ \<Rightarrow> Some h)"

section \<open>Chains of siblings\<close>

text \<open>
  \<open>seg f p xs q\<close>: following \<open>f\<close> from the pointer \<open>p\<close> visits the nodes \<open>xs\<close>
  and ends at the pointer \<open>q\<close>.
\<close>

fun seg :: "(nat \<Rightarrow> nat option) \<Rightarrow> nat option \<Rightarrow> nat list \<Rightarrow> nat option \<Rightarrow> bool" where
  "seg f p [] q \<longleftrightarrow> p = q"
| "seg f p (x # xs) q \<longleftrightarrow> p = Some x \<and> seg f (f x) xs q"

lemma seg_append: "seg f p (xs @ ys) q \<longleftrightarrow> (\<exists>r. seg f p xs r \<and> seg f r ys q)"
  by (induction xs arbitrary: p) auto

lemma seg_upd [simp]: "a \<notin> set xs \<Longrightarrow> seg (f(a := v)) p xs q \<longleftrightarrow> seg f p xs q"
  by (induction xs arbitrary: p) auto

lemma seg_cong: "(\<And>x. x \<in> set xs \<Longrightarrow> f x = g x) \<Longrightarrow> seg f p xs q \<longleftrightarrow> seg g p xs q"
  by (induction xs arbitrary: p) auto

lemma seg_None [simp]: "seg f None xs q \<longleftrightarrow> xs = [] \<and> q = None"
  by (cases xs) auto

lemma seg_det: "seg f p xs None \<Longrightarrow> seg f p ys None \<Longrightarrow> xs = ys"
proof (induction xs arbitrary: p ys)
  case (Cons x xs)
  then show ?case by (cases ys) auto
qed simp

lemma seg_distinct: "seg f p xs None \<Longrightarrow> distinct xs"
proof (induction xs arbitrary: p)
  case (Cons x xs)
  have "x \<notin> set xs"
  proof
    assume "x \<in> set xs"
    then obtain us vs where xs: "xs = us @ x # vs" by (auto dest: split_list)
    with Cons.prems have "seg f (f x) (us @ x # vs) None" "seg f (f x) vs None"
      by (auto simp: seg_append)
    then have "us @ x # vs = vs" by (rule seg_det)
    then have "length (us @ x # vs) = length vs" by (rule arg_cong)
    then show False by simp
  qed
  with Cons show ?case by auto
qed simp

section \<open>What the loops find\<close>

lemma last_sibling_seg: "seg (sibling h) (Some c) xs None \<Longrightarrow> last_sibling h c = Some (last xs)"
proof (induction xs arbitrary: c)
  case (Cons x xs)
  show ?case
  proof (cases xs)
    case Nil
    with Cons.prems show ?thesis by (subst last_sibling.simps) simp
  next
    case (Cons y ys)
    with Cons.prems Cons.IH [of y] show ?thesis by (subst last_sibling.simps) simp
  qed
qed simp

lemma find_prev_seg:
  "seg (sibling h) (Some p) (us @ a # v # zs) q \<Longrightarrow> distinct (us @ a # v # zs) \<Longrightarrow>
   find_prev h p v = Some a"
proof (induction us arbitrary: p)
  case Nil
  then show ?case by (subst find_prev.simps) simp
next
  case (Cons u us)
  obtain n where n: "sibling h u = Some n" using Cons.prems(1) by (cases us) auto
  have "n \<noteq> v" using Cons.prems n by (cases us) auto
  then show ?case using Cons n by (subst find_prev.simps) auto
qed

lemma find_prev2_seg:
  "seg (sibling h) (Some p) (us @ c # v # zs) q \<Longrightarrow> distinct (us @ c # v # zs) \<Longrightarrow>
   v = a \<and> b \<notin> set us \<union> {c} \<or> v = b \<and> a \<notin> set us \<union> {c} \<Longrightarrow>
   find_prev2 h p a b = Some c"
proof (induction us arbitrary: p)
  case Nil
  then show ?case by (subst find_prev2.simps) auto
next
  case (Cons u us)
  obtain n where n: "sibling h u = Some n" using Cons.prems(1) by (cases us) auto
  have "n \<noteq> v" "n \<in> set us \<union> {c}" using Cons.prems(1,2) n by (cases us; auto)+
  then have "\<not> (n = a \<or> n = b)" using Cons.prems(3) by auto
  then show ?case using Cons n by (subst find_prev2.simps) auto
qed

lemma last_two_seg:
  "seg (sibling h) (Some c) (us @ [a, b]) None \<Longrightarrow> last_two h c prev = Some (b, Some a)"
proof (induction us arbitrary: c prev)
  case Nil
  then show ?case by (auto simp: last_two.simps [of h a] last_two.simps [of h b])
next
  case (Cons u us)
  obtain n where "sibling h u = Some n" using Cons.prems by (cases us) auto
  then show ?case using Cons by (subst last_two.simps) auto
qed

lemma count_siblings_seg: "seg (sibling h) p xs None \<Longrightarrow> count_siblings h p i = Some (i + int (length xs))"
  by (induction xs arbitrary: p i) (simp_all add: count_siblings.simps)

lemma child_at_seg:
  "seg (sibling h) p xs None \<Longrightarrow> i \<le> index \<Longrightarrow>
   child_at h p i index = Some (if nat (index - i) < length xs then Some (xs ! nat (index - i)) else None)"
proof (induction xs arbitrary: p i)
  case Nil
  then show ?case by (simp add: child_at.simps)
next
  case (Cons x xs)
  show ?case
  proof (cases "i = index")
    case True
    with Cons.prems show ?thesis by (simp add: child_at.simps)
  next
    case False
    then have "nat (index - i) = Suc (nat (index - (i + 1)))" using Cons.prems(2) by auto
    with False Cons show ?thesis by (subst child_at.simps) simp
  qed
qed

section \<open>Forests\<close>

definition forest :: "itc_heap \<Rightarrow> (nat \<Rightarrow> nat list) \<Rightarrow> bool" where
  "forest h K \<longleftrightarrow> (\<forall>t. seg (sibling h) (child h t) (K t) None) \<and>
     (\<forall>t c. c \<in> set (K t) \<longleftrightarrow> parent h c = Some t)"

lemma forest_seg: "forest h K \<Longrightarrow> seg (sibling h) (child h t) (K t) None"
  by (simp add: forest_def)

lemma forest_parent: "forest h K \<Longrightarrow> c \<in> set (K t) \<longleftrightarrow> parent h c = Some t"
  by (simp add: forest_def)

lemma forest_distinct: "forest h K \<Longrightarrow> distinct (K t)"
  by (blast intro: seg_distinct forest_seg)

lemma forestI:
  assumes "\<And>t. seg (sibling h) (child h t) (K t) None" "\<And>t c. c \<in> set (K t) \<longleftrightarrow> parent h c = Some t"
  shows "forest h K"
  using assms by (simp add: forest_def)

text \<open>
  The list of a node is unchanged by writes to sibling pointers of nodes elsewhere. All
  operations but the swap of nodes with different parents write within one list.
\<close>

lemma forest_other:
  assumes "forest h K" "\<And>c. c \<in> set (K t) \<Longrightarrow> f c = sibling h c"
  shows "seg f (child h t) (K t) None"
  by (subst seg_cong [of _ f "sibling h"]) (simp_all add: assms forest_seg)

lemma forest_empty: "forest h K \<Longrightarrow> child h t = None \<longleftrightarrow> K t = []"
  using forest_seg [of h K t] by (cases "K t") auto

lemma forest_first: "forest h K \<Longrightarrow> child h t = Some c \<Longrightarrow> \<exists>cs. K t = c # cs"
  using forest_seg [of h K t] by (cases "K t") auto

text \<open>
  The one-list update rule: an operation that gives the node \<open>t\<close> the list \<open>xs\<close> of
  children, taken from its old children and from nodes without a parent, and leaves every other
  list alone.
\<close>

lemma forest_update:
  assumes F: "forest h K"
    and same: "\<And>c t'. t' \<noteq> t \<Longrightarrow> parent h c = Some t' \<Longrightarrow> sibling h' c = sibling h c"
    and chd: "\<And>t'. t' \<noteq> t \<Longrightarrow> child h' t' = child h t'"
    and new: "seg (sibling h') (child h' t) xs None"
    and par: "\<And>c. parent h' c =
      (if c \<in> set xs then Some t else if parent h c = Some t then None else parent h c)"
    and fresh: "\<And>c. c \<in> set xs \<Longrightarrow> parent h c = Some t \<or> parent h c = None"
  shows "forest h' (K(t := xs))"
proof (rule forestI)
  fix t'
  have "seg (sibling h') (child h t') (K t') None" if "t' \<noteq> t"
    by (rule forest_other [OF F]) (use same that forest_parent [OF F] in auto)
  then show "seg (sibling h') (child h' t') ((K(t := xs)) t') None"
    using chd new by (cases "t' = t") auto
next
  fix t' c
  show "c \<in> set ((K(t := xs)) t') \<longleftrightarrow> parent h' c = Some t'"
    using par [of c] fresh [of c] forest_parent [OF F, of c t'] by (cases "t' = t") auto
qed

section \<open>The operations on the lists of children\<close>

lemma itcTreePushFront_forest:
  assumes F: "forest h K" and free: "parent h node = None"
  shows "forest (itcTreePushFront h tree node) (K(tree := node # K tree))"
proof -
  have fresh: "node \<notin> set (K t)" for t using forest_parent [OF F] free by simp
  let ?h = "itcTreePushFront h tree node"
  have h: "sibling ?h = (sibling h)(node := child h tree)" "child ?h = (child h)(tree := Some node)"
    "parent ?h = (parent h)(node := Some tree)"
    by (simp_all add: itcTreePushFront_def Let_def split: option.split)
  show ?thesis
    using fresh free forest_seg [OF F, of tree] forest_parent [OF F]
    by (intro forest_update [OF F]) (auto simp: h)
qed

lemma itcTreePushBack_empty:
  assumes F: "forest h K" and free: "parent h node = None" and c: "child h tree = None"
  shows "itcTreePushBack h tree node = Some (h\<lparr>child := (child h)(tree := Some node),
      parent := (parent h)(node := Some tree), sibling := (sibling h)(node := None)\<rparr>)"
    and "forest (h\<lparr>child := (child h)(tree := Some node),
      parent := (parent h)(node := Some tree), sibling := (sibling h)(node := None)\<rparr>)
      (K(tree := [node]))"
proof -
  show "itcTreePushBack h tree node = Some (h\<lparr>child := (child h)(tree := Some node),
      parent := (parent h)(node := Some tree), sibling := (sibling h)(node := None)\<rparr>)"
    using c by (simp add: itcTreePushBack_def Let_def)
  have none: "parent h x \<noteq> Some tree" for x
    using forest_parent [OF F, of x tree] forest_empty [OF F, of tree] c by simp
  show "forest (h\<lparr>child := (child h)(tree := Some node),
      parent := (parent h)(node := Some tree), sibling := (sibling h)(node := None)\<rparr>)
      (K(tree := [node]))"
    by (rule forest_update [OF F]) (use free none in auto)
qed

lemma itcTreePushBack_last:
  assumes F: "forest h K" and free: "parent h node = None" and K: "K tree = us @ [l]"
  shows "itcTreePushBack h tree node = Some (h\<lparr>sibling := (sibling h)(l := Some node, node := None),
      parent := (parent h)(node := Some tree)\<rparr>)" (is ?E)
    and "forest (h\<lparr>sibling := (sibling h)(l := Some node, node := None),
      parent := (parent h)(node := Some tree)\<rparr>) (K(tree := us @ [l, node]))" (is "forest ?h _")
proof -
  have S: "seg (sibling h) (child h tree) (us @ [l]) None"
    using forest_seg [OF F, of tree] unfolding K .
  have d: "distinct (us @ [l])" using forest_distinct [OF F, of tree] unfolding K .
  obtain c where c: "child h tree = Some c" using S by (cases us) auto
  have "last_sibling h c = Some l" using last_sibling_seg [of h c "us @ [l]"] S c by simp
  then show ?E using c by (simp add: itcTreePushBack_def Let_def)
  have kids: "x \<in> set us \<or> x = l \<longleftrightarrow> parent h x = Some tree" for x
    using forest_parent [OF F, of x tree] unfolding K by auto
  have pl: "parent h l = Some tree" and nl: "node \<noteq> l" "node \<notin> set us" "l \<notin> set us"
    using kids [of l] kids [of node] free d by auto
  show "forest ?h (K(tree := us @ [l, node]))"
  proof (rule forest_update [OF F])
    show "seg (sibling ?h) (child ?h tree) (us @ [l, node]) None"
      using S nl by (simp add: seg_append)
    show "sibling ?h x = sibling h x" if "t' \<noteq> tree" "parent h x = Some t'" for x t'
      using that pl free by auto
    show "parent ?h x = (if x \<in> set (us @ [l, node]) then Some tree
        else if parent h x = Some tree then None else parent h x)" for x
      using kids [of x] by auto
    show "parent h x = Some tree \<or> parent h x = None" if "x \<in> set (us @ [l, node])" for x
      using kids [of x] free that by auto
  qed simp
qed

lemma itcTreePushBack_forest:
  assumes F: "forest h K" and free: "parent h node = None"
  shows "\<exists>h'. itcTreePushBack h tree node = Some h' \<and> forest h' (K(tree := K tree @ [node]))"
proof (cases "K tree" rule: rev_cases)
  case Nil
  then have "child h tree = None" using forest_empty [OF F] by simp
  from itcTreePushBack_empty [OF F free this] Nil show ?thesis by simp
next
  case (snoc us l)
  from itcTreePushBack_last [OF F free snoc] snoc show ?thesis by simp
qed

lemma itcTreeRemove_forest:
  assumes F: "forest h K" and par: "parent h node = Some t"
  shows "\<exists>h'. itcTreeRemove h node = Some h' \<and> forest h' (K(t := remove1 node (K t))) \<and>
    parent h' node = None \<and> sibling h' node = None"
proof -
  have inK: "node \<in> set (K t)" using forest_parent [OF F] par by simp
  then obtain us zs where K: "K t = us @ node # zs" by (auto dest: split_list)
  have d: "distinct (us @ node # zs)" using forest_distinct [OF F, of t] K by simp
  then have rem: "remove1 node (K t) = us @ zs" by (simp add: K remove1_append)
  have S: "seg (sibling h) (child h t) (us @ node # zs) None" using forest_seg [OF F, of t] K by simp
  have kids: "c \<in> set us \<or> c = node \<or> c \<in> set zs \<longleftrightarrow> parent h c = Some t" for c
    using forest_parent [OF F, of c t] K by auto
  show ?thesis
  proof (cases us rule: rev_cases)
    case Nil
    with S have c: "child h t = Some node" and tail: "seg (sibling h) (sibling h node) zs None" by simp_all
    have "itcTreeRemove h node = Some (h\<lparr>child := (child h)(t := sibling h node),
        sibling := (sibling h)(node := None), parent := (parent h)(node := None)\<rparr>)" (is "_ = Some ?h")
      using par c by (simp add: itcTreeRemove_def)
    moreover have "forest ?h (K(t := zs))"
      using tail d Nil kids par by (intro forest_update [OF F]) auto
    ultimately show ?thesis using Nil by (simp add: rem)
  next
    case (snoc vs a)
    then obtain p where p: "child h t = Some p" using S by (cases vs) auto
    have ne: "p \<noteq> node" using S d snoc p by (cases vs) auto
    have fp: "find_prev h p node = Some a"
      by (rule find_prev_seg [of h p vs a node zs None]) (use S d snoc p in simp_all)
    have "itcTreeRemove h node = Some (h\<lparr>sibling := (sibling h)(a := sibling h node, node := None),
        parent := (parent h)(node := None)\<rparr>)" (is "_ = Some ?h")
      using par p ne fp by (simp add: itcTreeRemove_def)
    moreover have "forest ?h (K(t := us @ zs))"
    proof (rule forest_update [OF F])
      show "seg (sibling ?h) (child ?h t) (us @ zs) None"
        using S d snoc by (auto simp: seg_append)
      have "parent h a = Some t" using kids [of a] snoc by simp
      then show "sibling ?h c = sibling h c" if "t' \<noteq> t" "parent h c = Some t'" for c t'
        using that par by auto
      show "parent ?h c = (if c \<in> set (us @ zs) then Some t else if parent h c = Some t then None else parent h c)" for c
        using kids [of c] d by auto
    qed (use kids in auto)
    moreover have "a \<noteq> node" using d snoc by auto
    ultimately show ?thesis by (simp add: rem)
  qed
qed

lemma itcTreeRemove_orphan: "parent h node = None \<Longrightarrow> itcTreeRemove h node = Some h"
  by (simp add: itcTreeRemove_def)

lemma itcTreeGetChildAt_forest:
  "forest h K \<Longrightarrow> itcTreeGetChildAtImpl h tree (int i) =
     Some (if i < length (K tree) then Some (K tree ! i) else None)"
  using child_at_seg [of h "child h tree" "K tree" 0 "int i"] forest_seg [of h K tree]
  by (simp add: itcTreeGetChildAtImpl_def)

lemma itcTreeGetChildCount_forest:
  "forest h K \<Longrightarrow> itcTreeGetChildCountImpl h tree = Some (int (length (K tree)))"
  using count_siblings_seg [of h "child h tree" "K tree" 0] forest_seg [of h K tree]
  by (simp add: itcTreeGetChildCountImpl_def)

text \<open>Rotations; a node with at most one child is left as it is.\<close>

lemma short_list_cases:
  obtains "xs = []" | c where "xs = [c]" | us a b where "xs = us @ [a, b]"
proof (cases xs rule: rev_cases)
  case (snoc ys b)
  then show thesis using that by (cases ys rule: rev_cases) auto
qed (use that in blast)

lemma itcTreeRotateFront_forest:
  assumes F: "forest h K"
  shows "\<exists>h'. itcTreeRotateFront h t = Some h' \<and>
    forest h' (K(t := (if K t = [] then [] else last (K t) # butlast (K t))))"
proof (cases rule: short_list_cases [of "K t"])
  case 1
  then show ?thesis using F forest_empty [OF F, of t] by (simp add: itcTreeRotateFront_def fun_upd_idem)
next
  case (2 c)
  then show ?thesis using F forest_seg [OF F, of t] by (simp add: itcTreeRotateFront_def fun_upd_idem)
next
  case (3 us a b)
  have S: "seg (sibling h) (child h t) (us @ [a, b]) None" using forest_seg [OF F, of t] 3 by simp
  have d: "distinct (us @ [a, b])" using forest_distinct [OF F, of t] 3 by simp
  obtain c where c: "child h t = Some c" using S by (cases us) auto
  have sib: "\<exists>d. sibling h c = Some d" using S c by (cases us; cases "tl us") auto
  have kids: "x \<in> set us \<or> x = a \<or> x = b \<longleftrightarrow> parent h x = Some t" for x
    using forest_parent [OF F, of x t] 3 by auto
  have two: "last_two h c None = Some (b, Some a)" using last_two_seg [of h c us a b] S c by simp
  have "itcTreeRotateFront h t = Some (h\<lparr>sibling := (sibling h)(b := Some c, a := None),
      child := (child h)(t := Some b)\<rparr>)" (is "_ = Some ?h")
    using c sib two by (auto simp: itcTreeRotateFront_def Let_def)
  moreover have "forest ?h (K(t := b # us @ [a]))"
  proof (rule forest_update [OF F])
    show "seg (sibling ?h) (child ?h t) (b # us @ [a]) None" using S d c by (auto simp: seg_append)
    show "sibling ?h x = sibling h x" if "t' \<noteq> t" "parent h x = Some t'" for x t'
      using that kids [of a] kids [of b] by auto
    show "parent ?h x = (if x \<in> set (b # us @ [a]) then Some t else if parent h x = Some t then None else parent h x)" for x
      using kids [of x] by auto
  qed (use kids in auto)
  ultimately show ?thesis using 3 by (simp add: butlast_append)
qed

lemma itcTreeRotateBack_forest:
  assumes F: "forest h K"
  shows "\<exists>h'. itcTreeRotateBack h t = Some h' \<and>
    forest h' (K(t := (if K t = [] then [] else tl (K t) @ [hd (K t)])))"
proof (cases rule: short_list_cases [of "K t"])
  case 1
  then show ?thesis using F forest_empty [OF F, of t] by (simp add: itcTreeRotateBack_def fun_upd_idem)
next
  case (2 c)
  then show ?thesis using F forest_seg [OF F, of t] by (simp add: itcTreeRotateBack_def fun_upd_idem)
next
  case (3 us a b)
  obtain c ds where cd: "us @ [a, b] = c # ds @ [b]" by (cases us) auto
  have S: "seg (sibling h) (child h t) (c # ds @ [b]) None" using forest_seg [OF F, of t] 3 cd by simp
  have d: "distinct (c # ds @ [b])" using forest_distinct [OF F, of t] 3 cd by simp
  have c: "child h t = Some c" "\<exists>d. sibling h c = Some d" using S by (cases ds; auto)+
  have kids: "x = c \<or> x \<in> set ds \<or> x = b \<longleftrightarrow> parent h x = Some t" for x
    using forest_parent [OF F, of x t] 3 cd by auto
  have last: "last_sibling h c = Some b" using last_sibling_seg [of h c "c # ds @ [b]"] S c by simp
  have "itcTreeRotateBack h t = Some (h\<lparr>child := (child h)(t := sibling h c),
      sibling := (sibling h)(b := Some c, c := None)\<rparr>)" (is "_ = Some ?h")
    using c last by (auto simp: itcTreeRotateBack_def Let_def)
  moreover have "forest ?h (K(t := ds @ [b, c]))"
  proof (rule forest_update [OF F])
    show "seg (sibling ?h) (child ?h t) (ds @ [b, c]) None" using S d by (auto simp: seg_append)
    show "sibling ?h x = sibling h x" if "t' \<noteq> t" "parent h x = Some t'" for x t'
      using that kids [of c] kids [of b] by auto
    show "parent ?h x = (if x \<in> set (ds @ [b, c]) then Some t else if parent h x = Some t then None else parent h x)" for x
      using kids [of x] by auto
  qed (use kids in auto)
  ultimately show ?thesis using 3 cd by simp
qed

section \<open>Swapping\<close>

text \<open>
  \<open>exch a b\<close> exchanges two nodes; the swap maps it over all lists of children.
\<close>

definition exch :: "nat \<Rightarrow> nat \<Rightarrow> nat \<Rightarrow> nat" where
  "exch a b c = (if c = a then b else if c = b then a else c)"

lemma map_exch_other: "a \<notin> set xs \<Longrightarrow> b \<notin> set xs \<Longrightarrow> List.map (exch a b) xs = xs"
  by (rule map_idI) (auto simp: exch_def)

lemma exch_commute: "exch a b = exch b a"
  by (auto simp: exch_def fun_eq_iff)

lemma mem_exch: "c \<in> set (List.map (exch a b) xs) \<longleftrightarrow> exch a b c \<in> set xs"
proof -
  have inv: "exch a b (exch a b z) = z" for z by (simp add: exch_def)
  show ?thesis by (simp add: image_iff) (metis inv)
qed

text \<open>The heap after the pointer to the child that follows \<open>us\<close> has been redirected.\<close>

definition retarget :: "itc_heap \<Rightarrow> nat \<Rightarrow> nat list \<Rightarrow> nat \<Rightarrow> itc_heap" where
  "retarget h t us y =
     (if us = [] then h\<lparr>child := (child h)(t := Some y)\<rparr>
      else h\<lparr>sibling := (sibling h)(last us := Some y)\<rparr>)"

lemma retarget_parent [simp]: "parent (retarget h t us y) = parent h"
  by (simp add: retarget_def)

lemma retarget_child_other [simp]: "t' \<noteq> t \<Longrightarrow> child (retarget h t us y) t' = child h t'"
  by (simp add: retarget_def)

lemma retarget_sibling_other [simp]: "c \<notin> set us \<Longrightarrow> sibling (retarget h t us y) c = sibling h c"
  by (auto simp: retarget_def)

lemma retarget_seg_other:
  "set us \<inter> set xs = {} \<Longrightarrow> seg (sibling (retarget h t us y)) p xs q \<longleftrightarrow> seg (sibling h) p xs q"
  by (rule seg_cong) (auto intro!: retarget_sibling_other)

lemma retarget_seg:
  assumes "seg (sibling h) (child h t) us q" "distinct us"
  shows "seg (sibling (retarget h t us y)) (child (retarget h t us y) t) us (Some y)"
proof (cases us rule: rev_cases)
  case (snoc vs p)
  with assms show ?thesis by (auto simp: retarget_def seg_append)
qed (simp add: retarget_def)

lemma seg_first: "seg f p (us @ x # zs) q \<Longrightarrow> \<exists>c. p = Some c \<and> (us = [] \<longleftrightarrow> c = x) \<or> x \<in> set us"
  by (cases us) auto

lemma redirect_seg:
  assumes S: "seg (sibling h) (child h t) (us @ x # zs) None" and p: "parent h x = Some t"
  shows "redirect h t x y = Some (retarget h t us y)"
proof (cases us rule: rev_cases)
  case Nil
  then show ?thesis using S p by (simp add: redirect_def retarget_def)
next
  case (snoc vs q)
  have d: "distinct (us @ x # zs)" using S by (rule seg_distinct)
  obtain c where c: "child h t = Some c" "c \<noteq> x" using S d snoc by (cases vs) auto
  have "find_prev h c x = Some q"
    by (rule find_prev_seg [of h c vs q x zs None]) (use S d snoc c in simp_all)
  then show ?thesis using c snoc by (simp add: redirect_def retarget_def)
qed

text \<open>The part of the same-parent case that starts at the first of the two nodes.\<close>

lemma swap_siblings_seg:
  assumes S: "seg (sibling h) (Some x) (x # ys @ y # zs) None"
  shows "\<exists>f. swap_siblings h x y = Some (h\<lparr>sibling := f\<rparr>) \<and>
    seg f (Some y) (y # ys @ x # zs) None \<and> (\<forall>c. c \<noteq> x \<and> c \<noteq> y \<and> c \<notin> set ys \<longrightarrow> f c = sibling h c)"
proof (cases ys rule: rev_cases)
  case Nil
  have d: "distinct (x # y # zs)" using seg_distinct [OF S] Nil by simp
  have "swap_siblings h x y = Some (h\<lparr>sibling := (sibling h)(x := sibling h y, y := Some x)\<rparr>)"
    using S Nil by (simp add: swap_siblings_def Let_def)
  then show ?thesis using S d Nil by (intro exI conjI) auto
next
  case (snoc ws q)
  have d: "distinct (x # ws @ q # y # zs)" using seg_distinct [OF S] snoc by simp
  have S': "seg (sibling h) (sibling h x) (ws @ q # y # zs) None" using S snoc by simp
  obtain n where n: "sibling h x = Some n" "n \<noteq> y" using S' d by (cases ws) auto
  have "find_prev h n y = Some q"
    by (rule find_prev_seg [of h n ws q y zs None]) (use S' d n in simp_all)
  then have e: "swap_siblings h x y =
      Some (h\<lparr>sibling := (sibling h)(q := Some x, x := sibling h y, y := sibling h x)\<rparr>)"
    using n d by (simp add: swap_siblings_def Let_def)
  have "seg ((sibling h)(q := Some x, x := sibling h y, y := sibling h x)) (Some y) (y # ys @ x # zs) None"
    using S' d snoc by (auto simp: seg_append)
  with e show ?thesis using snoc by (intro exI conjI) auto
qed

lemma swap_same_parent:
  assumes F: "forest h K" and K: "K t = xs @ x # ys @ y # zs"
  shows "\<exists>h'. swap_siblings (retarget h t xs y) x y = Some h' \<and> forest h' (K(t := xs @ y # ys @ x # zs))"
proof -
  let ?h = "retarget h t xs y"
  have S: "seg (sibling h) (child h t) (xs @ x # ys @ y # zs) None"
    using forest_seg [OF F, of t] unfolding K .
  have d: "distinct (xs @ x # ys @ y # zs)" using seg_distinct [OF S] .
  obtain r where r: "seg (sibling h) (child h t) xs r" "seg (sibling h) r (x # ys @ y # zs) None"
    using S by (auto simp: seg_append)
  have tail: "seg (sibling ?h) (Some x) (x # ys @ y # zs) None"
    using r(2) d by (subst retarget_seg_other) auto
  obtain f where f: "swap_siblings ?h x y = Some (?h\<lparr>sibling := f\<rparr>)"
      "seg f (Some y) (y # ys @ x # zs) None"
      "\<And>c. c \<noteq> x \<Longrightarrow> c \<noteq> y \<Longrightarrow> c \<notin> set ys \<Longrightarrow> f c = sibling ?h c"
    using swap_siblings_seg [OF tail] by blast
  have kids: "c \<in> set xs \<or> c = x \<or> c \<in> set ys \<or> c = y \<or> c \<in> set zs \<longleftrightarrow> parent h c = Some t" for c
    using forest_parent [OF F, of c t] unfolding K by auto
  have head: "seg f (child ?h t) xs (Some y)"
  proof (subst seg_cong [of xs f "sibling ?h"])
    show "f c = sibling ?h c" if "c \<in> set xs" for c by (rule f(3)) (use that d in auto)
    show "seg (sibling ?h) (child ?h t) xs (Some y)" by (rule retarget_seg [OF r(1)]) (use d in simp)
  qed
  have "forest (?h\<lparr>sibling := f\<rparr>) (K(t := xs @ y # ys @ x # zs))"
  proof (rule forest_update [OF F])
    show "seg (sibling (?h\<lparr>sibling := f\<rparr>)) (child (?h\<lparr>sibling := f\<rparr>) t) (xs @ y # ys @ x # zs) None"
      using head f(2) by (auto simp: seg_append)
    show "sibling (?h\<lparr>sibling := f\<rparr>) c = sibling h c" if "t' \<noteq> t" "parent h c = Some t'" for c t'
    proof -
      have "c \<notin> set xs \<and> c \<noteq> x \<and> c \<noteq> y \<and> c \<notin> set ys" using that kids [of c] by auto
      then show ?thesis by (simp add: f(3))
    qed
    show "parent (?h\<lparr>sibling := f\<rparr>) c = (if c \<in> set (xs @ y # ys @ x # zs) then Some t
        else if parent h c = Some t then None else parent h c)" for c
      using kids [of c] by auto
    show "parent h c = Some t \<or> parent h c = None" if "c \<in> set (xs @ y # ys @ x # zs)" for c
      using kids [of c] that by auto
  qed simp
  with f(1) show ?thesis by blast
qed

lemma itcTreeSwap_same_parent:
  assumes F: "forest h K" and K: "K t = xs @ x # ys @ y # zs" and ab: "{a, b} = {x, y}"
  shows "\<exists>h'. itcTreeSwap h a b = Some h' \<and> forest h' (K(t := xs @ y # ys @ x # zs))"
proof -
  have S: "seg (sibling h) (child h t) (xs @ x # ys @ y # zs) None"
    using forest_seg [OF F, of t] unfolding K .
  have d: "distinct (xs @ x # ys @ y # zs)" using seg_distinct [OF S] .
  have ab': "a = x \<and> b = y \<or> a = y \<and> b = x" using ab by (metis doubleton_eq_iff)
  have p: "parent h x = Some t" "parent h y = Some t"
    using forest_parent [OF F, of x t] forest_parent [OF F, of y t] K by auto
  have "itcTreeSwap h a b = swap_siblings (retarget h t xs y) x y"
  proof (cases xs rule: rev_cases)
    case Nil
    then have "child h t = Some x" using S by simp
    then show ?thesis using ab' p d Nil by (auto simp: itcTreeSwap_def retarget_def)
  next
    case (snoc ws q)
    obtain c where c: "child h t = Some c" "c \<noteq> x" "c \<noteq> y" using S d snoc by (cases ws) auto
    have "find_prev2 h c a b = Some q"
      by (rule find_prev2_seg [of h c ws q x "ys @ y # zs" None])
        (use S d snoc c ab' in auto)
    moreover have "sibling h q = Some x" using S snoc by (auto simp: seg_append)
    ultimately show ?thesis using ab' p c d snoc by (auto simp: itcTreeSwap_def retarget_def)
  qed
  with swap_same_parent [OF F K] show ?thesis by simp
qed

lemma itcTreeSwap_two_parents:
  assumes F: "forest h K" and pa: "parent h a = Some pa" and pb: "parent h b = Some pb"
    and ne: "pa \<noteq> pb"
  shows "\<exists>h'. itcTreeSwap h a b = Some h' \<and> forest h' (\<lambda>t. List.map (exch a b) (K t))"
proof -
  obtain us us' where Ka: "K pa = us @ a # us'"
    using forest_parent [OF F, of a pa] pa by (auto dest: split_list)
  obtain vs vs' where Kb: "K pb = vs @ b # vs'"
    using forest_parent [OF F, of b pb] pb by (auto dest: split_list)
  have Sa: "seg (sibling h) (child h pa) (us @ a # us') None" using forest_seg [OF F, of pa] unfolding Ka .
  have Sb: "seg (sibling h) (child h pb) (vs @ b # vs') None" using forest_seg [OF F, of pb] unfolding Kb .
  have da: "distinct (us @ a # us')" and db: "distinct (vs @ b # vs')"
    using seg_distinct [OF Sa] seg_distinct [OF Sb] .
  have ka: "c \<in> set us \<union> {a} \<union> set us' \<longleftrightarrow> parent h c = Some pa" for c
    using forest_parent [OF F, of c pa] unfolding Ka by auto
  have kb: "c \<in> set vs \<union> {b} \<union> set vs' \<longleftrightarrow> parent h c = Some pb" for c
    using forest_parent [OF F, of c pb] unfolding Kb by auto
  have disj: "(set us \<union> {a} \<union> set us') \<inter> (set vs \<union> {b} \<union> set vs') = {}"
    using ka kb ne by (metis disjoint_iff option.inject)
  have ab: "a \<noteq> b" using disj by auto
  define h1 where "h1 = retarget h pa us b"
  define h2 where "h2 = retarget h1 pb vs a"
  define f where "f = (sibling h2)(a := sibling h b, b := sibling h a)"
  define h' where "h' = h2\<lparr>parent := (parent h)(a := Some pb, b := Some pa), sibling := f\<rparr>"
  have r1: "redirect h pa a b = Some h1" unfolding h1_def by (rule redirect_seg [OF Sa pa])
  have "seg (sibling h1) (child h1 pb) (vs @ b # vs') None"
    unfolding h1_def using Sb ne disj by (subst retarget_seg_other) auto
  then have r2: "redirect h1 pb b a = Some h2"
    unfolding h2_def by (rule redirect_seg) (simp add: h1_def pb)
  have keep: "sibling h2 c = sibling h c" if "c \<notin> set us" "c \<notin> set vs" for c
    using that by (simp add: h2_def h1_def)
  have notin: "a \<notin> set us" "a \<notin> set vs" "b \<notin> set us" "b \<notin> set vs"
    "a \<notin> set us'" "a \<notin> set vs'" "b \<notin> set us'" "b \<notin> set vs'"
    using disj da db by auto
  have par2: "parent h2 = parent h" by (simp add: h2_def h1_def)
  have eq: "itcTreeSwap h a b = Some h'"
    using ab pa pb ne r1 r2 keep [of a] keep [of b] notin
    by (simp add: itcTreeSwap_def Let_def h'_def f_def par2)
  have fo: "f c = sibling h c" if "c \<notin> set us" "c \<notin> set vs" "c \<noteq> a" "c \<noteq> b" for c
    using that by (simp add: f_def keep)
  have f_us: "f c = sibling h1 c" if "c \<in> set us" for c
  proof -
    have "c \<notin> set vs" "c \<noteq> a" "c \<noteq> b" using that notin disj by auto
    then show ?thesis by (simp add: f_def h2_def)
  qed
  have f_vs: "f c = sibling h2 c" if "c \<in> set vs" for c
    using that notin disj by (auto simp: f_def)
  have "forest h' (\<lambda>t. List.map (exch a b) (K t))"
  proof (rule forestI)
    fix t
    consider "t = pa" | "t = pb" | "t \<noteq> pa" "t \<noteq> pb" by blast
    then show "seg (sibling h') (child h' t) (List.map (exch a b) (K t)) None"
    proof cases
      case 1
      obtain r where r: "seg (sibling h) (child h pa) us r" "seg (sibling h) (sibling h a) us' None"
        using Sa by (auto simp: seg_append)
      have "seg f (child h2 pa) us (Some b)"
        using retarget_seg [OF r(1), of b] da f_us seg_cong [of us f "sibling h1"] ne
        by (auto simp: h1_def [symmetric]) (simp add: h2_def)
      moreover have "seg f (sibling h a) us' None"
        using r(2) fo da disj by (subst seg_cong [of us' f "sibling h"]) auto
      ultimately have "seg f (child h2 pa) (us @ b # us') None"
        using ab by (auto simp: seg_append f_def)
      moreover have "List.map (exch a b) (K pa) = us @ b # us'"
        using Ka notin by (simp add: map_exch_other exch_def [of a b a])
      ultimately show ?thesis using 1 by (simp add: h'_def)
    next
      case 2
      obtain r where r: "seg (sibling h) (child h pb) vs r" "seg (sibling h) (sibling h b) vs' None"
        using Sb by (auto simp: seg_append)
      have "seg (sibling h1) (child h1 pb) vs r"
        unfolding h1_def using r(1) ne disj by (subst retarget_seg_other) auto
      then have "seg (sibling h2) (child h2 pb) vs (Some a)"
        unfolding h2_def using db by (intro retarget_seg) auto
      then have "seg f (child h2 pb) vs (Some a)"
        using f_vs seg_cong [of vs f "sibling h2"] by auto
      moreover have "seg f (sibling h b) vs' None"
        using r(2) fo db disj by (subst seg_cong [of vs' f "sibling h"]) auto
      ultimately have "seg f (child h2 pb) (vs @ a # vs') None"
        using ab by (auto simp: seg_append f_def)
      moreover have "List.map (exch a b) (K pb) = vs @ a # vs'"
        using Kb notin ab by (simp add: map_exch_other exch_def [of a b b])
      ultimately show ?thesis using 2 by (simp add: h'_def)
    next
      case 3
      have out: "c \<notin> set us \<and> c \<noteq> a \<and> c \<notin> set vs \<and> c \<noteq> b" if "c \<in> set (K t)" for c
        using that 3 forest_parent [OF F, of c t] ka [of c] kb [of c] by auto
      have "seg f (child h t) (K t) None"
        by (rule forest_other [OF F]) (use out fo in blast)
      moreover have "List.map (exch a b) (K t) = K t" using out by (intro map_exch_other) auto
      ultimately show ?thesis using 3 by (simp add: h'_def h2_def h1_def)
    qed
  next
    fix t c
    show "c \<in> set (List.map (exch a b) (K t)) \<longleftrightarrow> parent h' c = Some t"
      unfolding mem_exch using forest_parent [OF F, of "exch a b c" t] pa pb ab
      by (auto simp: exch_def h'_def)
  qed
  with eq show ?thesis by blast
qed

lemma map_exch_same_parent:
  assumes F: "forest h K" and K: "K t = xs @ x # ys @ y # zs"
  shows "(\<lambda>t'. List.map (exch x y) (K t')) = K(t := xs @ y # ys @ x # zs)"
proof
  fix t'
  have d: "distinct (xs @ x # ys @ y # zs)" using forest_distinct [OF F, of t] unfolding K .
  have p: "parent h x = Some t" "parent h y = Some t"
    using forest_parent [OF F, of x t] forest_parent [OF F, of y t] K by auto
  show "List.map (exch x y) (K t') = (K(t := xs @ y # ys @ x # zs)) t'"
  proof (cases "t' = t")
    case True
    then show ?thesis using d by (simp add: K map_exch_other exch_def [of x y x] exch_def [of x y y])
  next
    case False
    then have "x \<notin> set (K t')" "y \<notin> set (K t')" using p forest_parent [OF F] by auto
    with False show ?thesis by (simp add: map_exch_other)
  qed
qed

lemma split_list_two:
  assumes "a \<in> set L" "b \<in> set L" "a \<noteq> b"
  obtains xs x ys y zs where "L = xs @ x # ys @ y # zs" "{a, b} = {x, y}"
proof -
  obtain us vs where L: "L = us @ a # vs" using assms(1) by (auto dest: split_list)
  with assms(2,3) consider "b \<in> set us" | "b \<in> set vs" by auto
  then show thesis
  proof cases
    case 1
    then obtain ps qs where "us = ps @ b # qs" by (auto dest: split_list)
    then show thesis using L by (intro that [of ps b qs a vs]) auto
  next
    case 2
    then obtain ps qs where "vs = ps @ b # qs" by (auto dest: split_list)
    then show thesis using L by (intro that [of us a ps b qs]) auto
  qed
qed

section \<open>Properties\<close>

text \<open>C26. Pushing a node that has no parent inserts it at the front, respectively at the back, of the
  list of children of the tree node, and leaves the children of all other nodes as they are; the
  loop of the push to the back ends.\<close>

theorem tree_push_refines_list_insert:
  assumes "forest h K" "parent h node = None"
  shows "forest (itcTreePushFront h tree node) (K(tree := node # K tree)) \<and>
    (\<exists>h'. itcTreePushBack h tree node = Some h' \<and> forest h' (K(tree := K tree @ [node])))"
  using itcTreePushFront_forest [OF assms] itcTreePushBack_forest [OF assms] by simp

text \<open>A family for the witnesses: the node 0 has the children 1, 2 and 3, and 2 has the child 4.\<close>

definition family :: itc_heap where
  "family = \<lparr>parent = (\<lambda>_. None)(1 := Some 0, 2 := Some 0, 3 := Some 0, 4 := Some 2),
     sibling = (\<lambda>_. None)(1 := Some 2, 2 := Some 3), child = (\<lambda>_. None)(0 := Some 1, 2 := Some 4)\<rparr>"

definition family_lists :: "nat \<Rightarrow> nat list" where
  "family_lists = (\<lambda>_. [])(0 := [1, 2, 3], 2 := [4])"

lemma family_forest: "forest family family_lists"
  by (rule forestI) (auto simp: family_def family_lists_def)

theorem tree_push_refines_list_insert_witness:
  "forest (itcTreePushFront family 0 5) (family_lists(0 := [5, 1, 2, 3])) \<and>
   (\<exists>h'. itcTreePushBack family 0 5 = Some h' \<and> forest h' (family_lists(0 := [1, 2, 3, 5])))"
  using tree_push_refines_list_insert [OF family_forest, of 5 0]
  by (simp add: family_def family_lists_def)

text \<open>C25. Removing a node takes it out of the list of children of its parent, keeps the order of the
  other children and all other lists, and leaves the node without parent and sibling. The search
  for the previous sibling ends at it.\<close>

theorem tree_remove_refines_list_remove:
  assumes "forest h K" "parent h node = Some t"
  shows "\<exists>h'. itcTreeRemove h node = Some h' \<and> forest h' (K(t := remove1 node (K t))) \<and>
    parent h' node = None \<and> sibling h' node = None"
  by (rule itcTreeRemove_forest [OF assms])

theorem tree_remove_refines_list_remove_witness:
  "\<exists>h'. itcTreeRemove family 2 = Some h' \<and> forest h' (family_lists(0 := [1, 3])) \<and>
    parent h' 2 = None \<and> sibling h' 2 = None"
  using tree_remove_refines_list_remove [OF family_forest, of 2 0]
  by (simp add: family_def family_lists_def)

text \<open>Rotating to the front moves the last child before the first one, rotating to the back the
  first child behind the last one; no other list changes. The number of children and the child at
  an index are those of the list.\<close>

theorem tree_rotate_refines_list_rotate:
  assumes "forest h K"
  shows "(\<exists>h'. itcTreeRotateFront h t = Some h' \<and>
       forest h' (K(t := (if K t = [] then [] else last (K t) # butlast (K t))))) \<and>
    (\<exists>h'. itcTreeRotateBack h t = Some h' \<and>
       forest h' (K(t := (if K t = [] then [] else tl (K t) @ [hd (K t)])))) \<and>
    itcTreeGetChildCountImpl h t = Some (int (length (K t))) \<and>
    itcTreeGetChildAtImpl h t (int i) = Some (if i < length (K t) then Some (K t ! i) else None)"
  using itcTreeRotateFront_forest [OF assms, of t] itcTreeRotateBack_forest [OF assms, of t]
    itcTreeGetChildCount_forest [OF assms, of t] itcTreeGetChildAt_forest [OF assms, of t i] by blast

theorem tree_rotate_refines_list_rotate_witness:
  "(\<exists>h'. itcTreeRotateFront family 0 = Some h' \<and> forest h' (family_lists(0 := [3, 1, 2]))) \<and>
   (\<exists>h'. itcTreeRotateBack family 0 = Some h' \<and> forest h' (family_lists(0 := [2, 3, 1]))) \<and>
   itcTreeGetChildCountImpl family 0 = Some 3 \<and>
   itcTreeGetChildAtImpl family 0 (int 2) = Some (Some 3)"
  using tree_rotate_refines_list_rotate [OF family_forest, of 0 2] by (simp add: family_lists_def)

text \<open>C24. Swapping two different nodes that both have a parent exchanges them in the lists of
  children, wherever they stand: adjacent, apart, in either order, or below different parents. All
  other nodes keep their places.\<close>

theorem tree_swap_exchanges_nodes:
  assumes "forest h K" "a \<noteq> b" "parent h a = Some pa" "parent h b = Some pb"
  shows "\<exists>h'. itcTreeSwap h a b = Some h' \<and> forest h' (\<lambda>t. List.map (exch a b) (K t))"
proof (cases "pa = pb")
  case False
  then show ?thesis by (rule itcTreeSwap_two_parents [OF assms(1,3,4)])
next
  case True
  have "a \<in> set (K pa)" "b \<in> set (K pa)"
    using assms(3,4) True forest_parent [OF assms(1)] by auto
  then obtain xs x ys y zs where K: "K pa = xs @ x # ys @ y # zs" and ab: "{a, b} = {x, y}"
    using assms(2) by (rule split_list_two)
  have "exch a b = exch x y" using ab exch_commute by (metis doubleton_eq_iff)
  with itcTreeSwap_same_parent [OF assms(1) K ab] map_exch_same_parent [OF assms(1) K]
  show ?thesis by simp
qed

theorem tree_swap_exchanges_nodes_witness:
  "(\<exists>h'. itcTreeSwap family 3 1 = Some h' \<and>
     forest h' (\<lambda>t. List.map (exch 3 1) (family_lists t))) \<and>
   List.map (exch 3 1) (family_lists 0) = [3, 2, 1]"
  using tree_swap_exchanges_nodes [OF family_forest, of 3 1 0 0]
  by (simp add: family_def) (simp add: family_lists_def exch_def)

end
