(* ===== verification/ITC_Url.thy ===== *)
theory ITC_Url
  imports Prelude
begin

text \<open>
  Percent-encoding of C strings (\<open>sdk/share/itc/itc_url.c\<close>). A string is a memory region
  with a zero byte; characters are bytes (\<open>char\<close> is unsigned on the targets) and the
  classification functions are those of the C locale. The output buffer is written through
  \<open>put\<close>, which is undefined outside the allocated region, so the lemmas that give a result
  show as well that the buffers are large enough. \<open>malloc\<close> gives the fresh region or
  \<open>None\<close>, which the code does not check.
\<close>

section \<open>Strings in memory\<close>

definition put :: "bytes \<Rightarrow> nat \<Rightarrow> u8 \<Rightarrow> bytes option" where
  "put buf j c = (if j < length buf then Some (buf[j := c]) else None)"

definition at :: "bytes \<Rightarrow> nat \<Rightarrow> u8 option" where
  "at mem i = (if i < length mem then Some (mem ! i) else None)"

fun strlen :: "bytes \<Rightarrow> nat option" where
  "strlen [] = None"
| "strlen (c # cs) = (if c = 0 then Some 0 else map_option Suc (strlen cs))"

text \<open>The string a region holds, without its terminator.\<close>

definition cstr :: "bytes \<Rightarrow> bytes" where
  "cstr mem = takeWhile (\<lambda>c. c \<noteq> 0) mem"

section \<open>Characters\<close>

definition isdigit :: "u8 \<Rightarrow> bool" where
  "isdigit c \<longleftrightarrow> 48 \<le> c \<and> c \<le> 57"

definition isalnum :: "u8 \<Rightarrow> bool" where
  "isalnum c \<longleftrightarrow> isdigit c \<or> 65 \<le> c \<and> c \<le> 90 \<or> 97 \<le> c \<and> c \<le> 122"

definition tolower :: "u8 \<Rightarrow> u8" where
  "tolower c = (if 65 \<le> c \<and> c \<le> 90 then c + 32 else c)"

definition from_hex :: "u8 \<Rightarrow> u8" where
  "from_hex ch = (if isdigit ch then ch - 48 else tolower ch - 97 + 10)"

definition hex_digits :: bytes where
  "hex_digits = [48, 49, 50, 51, 52, 53, 54, 55, 56, 57, 97, 98, 99, 100, 101, 102]"

definition to_hex :: "u8 \<Rightarrow> u8" where
  "to_hex code = hex_digits ! unat (code AND 15)"

section \<open>Encoding and decoding\<close>

text \<open>The characters that are copied as they are: letters, digits and \<open>- _ . ~\<close>.\<close>

definition url_plain :: "u8 \<Rightarrow> bool" where
  "url_plain c \<longleftrightarrow> isalnum c \<or> c = 45 \<or> c = 95 \<or> c = 46 \<or> c = 126"

text \<open>The loops; \<open>i\<close> is \<open>pstr\<close>, \<open>j\<close> is \<open>pbuf\<close>. The result is the buffer and \<open>pbuf\<close>.\<close>

partial_function (option) url_encode_loop :: "bytes \<Rightarrow> nat \<Rightarrow> bytes \<Rightarrow> nat \<Rightarrow> (bytes \<times> nat) option" where
  "url_encode_loop str i buf j = do {
     c \<leftarrow> at str i;
     if c = 0 then Some (buf, j)
     else if url_plain c then do {
       buf \<leftarrow> put buf j c;
       url_encode_loop str (i + 1) buf (j + 1)
     }
     else if c = 32 then do {
       buf \<leftarrow> put buf j 43;
       url_encode_loop str (i + 1) buf (j + 1)
     }
     else do {
       buf \<leftarrow> put buf j 37;
       buf \<leftarrow> put buf (j + 1) (to_hex (drop_bit 4 c));
       buf \<leftarrow> put buf (j + 2) (to_hex (c AND 15));
       url_encode_loop str (i + 1) buf (j + 3)
     }
   }"

definition itcUrlEncode :: "(nat \<Rightarrow> bytes option) \<Rightarrow> bytes \<Rightarrow> bytes option" where
  "itcUrlEncode malloc str = do {
     n \<leftarrow> strlen str;
     buf \<leftarrow> malloc (n * 3 + 1);
     (buf, j) \<leftarrow> url_encode_loop str 0 buf 0;
     put buf j 0
   }"

partial_function (option) url_decode_loop :: "bytes \<Rightarrow> nat \<Rightarrow> bytes \<Rightarrow> nat \<Rightarrow> (bytes \<times> nat) option" where
  "url_decode_loop str i buf j = do {
     c \<leftarrow> at str i;
     if c = 0 then Some (buf, j)
     else if c = 37 then do {
       c1 \<leftarrow> at str (i + 1);
       c2 \<leftarrow> (if c1 \<noteq> 0 then at str (i + 2) else Some 0);
       if c1 \<noteq> 0 \<and> c2 \<noteq> 0 then do {
         buf \<leftarrow> put buf j (push_bit 4 (from_hex c1) OR from_hex c2);
         url_decode_loop str (i + 3) buf (j + 1)
       }
       else url_decode_loop str (i + 1) buf j
     }
     else if c = 43 then do {
       buf \<leftarrow> put buf j 32;
       url_decode_loop str (i + 1) buf (j + 1)
     }
     else do {
       buf \<leftarrow> put buf j c;
       url_decode_loop str (i + 1) buf (j + 1)
     }
   }"

definition itcUrlDecode :: "(nat \<Rightarrow> bytes option) \<Rightarrow> bytes \<Rightarrow> bytes option" where
  "itcUrlDecode malloc str = do {
     n \<leftarrow> strlen str;
     buf \<leftarrow> malloc (n + 1);
     (buf, j) \<leftarrow> url_decode_loop str 0 buf 0;
     put buf j 0
   }"

section \<open>The functions on byte lists they implement\<close>

definition enc_char :: "u8 \<Rightarrow> bytes" where
  "enc_char c = (if url_plain c then [c] else if c = 32 then [43]
     else [37, to_hex (drop_bit 4 c), to_hex (c AND 15)])"

definition url_enc :: "bytes \<Rightarrow> bytes" where
  "url_enc s = concat (List.map enc_char s)"

definition dec_char :: "u8 \<Rightarrow> u8" where
  "dec_char c = (if c = 43 then 32 else c)"

fun url_dec :: "bytes \<Rightarrow> bytes" where
  "url_dec (c # c1 # c2 # s) =
     (if c = 37 then (push_bit 4 (from_hex c1) OR from_hex c2) # url_dec s
      else dec_char c # url_dec (c1 # c2 # s))"
| "url_dec [c, d] = (if c = 37 then url_dec [d] else dec_char c # url_dec [d])"
| "url_dec [c] = (if c = 37 then [] else [dec_char c])"
| "url_dec [] = []"

lemma length_url_dec: "length (url_dec s) \<le> length s"
  by (induction s rule: url_dec.induct) auto

lemma url_dec_plain: "c \<noteq> 37 \<Longrightarrow> url_dec (c # s) = dec_char c # url_dec s"
  by (cases s; cases "tl s") auto

lemma length_url_enc: "length (url_enc s) \<le> 3 * length s"
  by (induction s) (auto simp: url_enc_def enc_char_def)

subsection \<open>Memory\<close>

lemma strlen_cstr: "0 \<notin> set s \<Longrightarrow> strlen (s @ 0 # rest) = Some (length s)"
  by (induction s) auto

lemma cstr_append [simp]: "0 \<notin> set s \<Longrightarrow> cstr (s @ 0 # rest) = s"
  by (induction s) (auto simp: cstr_def)

lemma strlen_SomeD: "strlen mem = Some n \<Longrightarrow>
  \<exists>s rest. mem = s @ 0 # rest \<and> 0 \<notin> set s \<and> n = length s"
proof (induction mem arbitrary: n)
  case (Cons c cs)
  show ?case
  proof (cases "c = 0")
    case True
    with Cons.prems show ?thesis by (intro exI [of _ "[]"] exI [of _ cs]) simp
  next
    case False
    with Cons.prems obtain m where m: "strlen cs = Some m" "n = Suc m" by auto
    from Cons.IH [OF m(1)] obtain s rest where "cs = s @ 0 # rest" "0 \<notin> set s" "m = length s" by blast
    with m False show ?thesis by (intro exI [of _ "c # s"] exI [of _ rest]) simp
  qed
qed simp

lemma at_append [simp]: "at (xs @ ys) (length xs) = at ys 0"
  by (simp add: at_def nth_append)

lemma at_append_plus [simp]: "at (xs @ ys) (length xs + n) = at ys n"
  by (simp add: at_def nth_append)

lemma at_Suc_append [simp]: "at (xs @ c # ys) (Suc (length xs)) = at ys 0"
  using at_append_plus [of xs "c # ys" 1] by (simp add: at_def)

lemma at_add2_append [simp]: "at (xs @ c # d # ys) (Suc (Suc (length xs))) = at ys 0"
  using at_append_plus [of xs "c # d # ys" 2] by (simp add: at_def)

lemma at_Cons [simp]: "at (c # cs) 0 = Some c" "at (c # cs) (Suc n) = at cs n"
  by (simp_all add: at_def)

text \<open>A buffer that holds \<open>xs\<close>, followed by space that is still to be written.\<close>

lemma put_append [simp]: "put (xs @ y # ys) (length xs) c = Some (xs @ c # ys)"
  by (simp add: put_def)

lemma put_end: "length xs < length buf \<Longrightarrow> take (length xs) buf = xs \<Longrightarrow>
  put buf (length xs) c = Some (xs @ c # drop (Suc (length xs)) buf)"
  by (simp add: put_def upd_conv_take_nth_drop)

lemma put_here: "0 < length ys \<Longrightarrow> put (xs @ ys) (length xs) c = Some (xs @ c # tl ys)"
  by (cases ys) simp_all

subsection \<open>The loops\<close>

lemma url_encode_loop_result:
  assumes "0 \<notin> set s" "length (url_enc s) \<le> length ys"
  shows "url_encode_loop (pre @ s @ 0 # rest) (length pre) (xs @ ys) (length xs) =
    Some (xs @ url_enc s @ drop (length (url_enc s)) ys, length xs + length (url_enc s))"
  using assms
proof (induction s arbitrary: pre xs ys)
  case Nil
  then show ?case by (subst url_encode_loop.simps) (simp add: url_enc_def)
next
  case (Cons c s)
  have e: "url_enc (c # s) = enc_char c @ url_enc s" by (simp add: url_enc_def)
  define y1 where "y1 = drop (length (enc_char c)) ys"
  have len: "length (enc_char c) \<le> length ys" "length (url_enc s) \<le> length y1"
    using Cons.prems(2) by (simp_all add: e y1_def)
  have IH: "url_encode_loop (pre @ c # s @ 0 # rest) (Suc (length pre)) ((xs @ enc_char c) @ y1)
      (length (xs @ enc_char c)) =
    Some ((xs @ enc_char c) @ url_enc s @ drop (length (url_enc s)) y1,
      length (xs @ enc_char c) + length (url_enc s))"
    using Cons.IH [of y1 "pre @ [c]" "xs @ enc_char c"] Cons.prems(1) len(2) by simp
  have nz: "c \<noteq> 0" using Cons.prems(1) by simp
  consider (plain) "url_plain c" | (space) "\<not> url_plain c" "c = 32"
    | (hex) "\<not> url_plain c" "c \<noteq> 32" by blast
  then have "url_encode_loop (pre @ c # s @ 0 # rest) (length pre) (xs @ ys) (length xs) =
      url_encode_loop (pre @ c # s @ 0 # rest) (Suc (length pre)) ((xs @ enc_char c) @ y1)
        (length (xs @ enc_char c))"
  proof cases
    case plain
    then obtain y where "ys = y # y1" using len(1) by (cases ys) (auto simp: enc_char_def y1_def)
    then show ?thesis using plain nz by (subst url_encode_loop.simps) (simp add: enc_char_def)
  next
    case space
    then obtain y where "ys = y # y1" using len(1) by (cases ys) (auto simp: enc_char_def y1_def)
    then show ?thesis using space nz by (subst url_encode_loop.simps) (simp add: enc_char_def)
  next
    case hex
    then have "3 \<le> length ys" "y1 = tl (tl (tl ys))" using len(1)
      by (simp_all add: enc_char_def y1_def eval_nat_numeral drop_Suc)
    then obtain a b d where ys: "ys = a # b # d # y1"
      by (cases ys; cases "tl ys"; cases "tl (tl ys)") auto
    have p2: "put (xs @ 37 # b # z) (Suc (length xs)) v = Some (xs @ 37 # v # z)" for v z
      using put_append [of "xs @ [37]" b z v] by simp
    have p3: "put (xs @ 37 # v # d # z) (Suc (Suc (length xs))) w = Some (xs @ 37 # v # w # z)" for v w z
      using put_append [of "xs @ [37, v]" d z w] by simp
    show ?thesis using hex nz ys by (subst url_encode_loop.simps)
        (simp add: enc_char_def p2 p3 eval_nat_numeral)
  qed
  with IH show ?case by (simp add: e y1_def add.commute)
qed

lemma url_decode_step:
  assumes "c \<noteq> 0" "c \<noteq> 37"
  shows "url_decode_loop (pre @ c # s) (length pre) (xs @ y # ys) (length xs) =
    url_decode_loop (pre @ c # s) (Suc (length pre)) (xs @ dec_char c # ys) (Suc (length xs))"
  using assms by (subst url_decode_loop.simps) (simp add: dec_char_def)

lemma url_decode_step_escape:
  assumes "c1 \<noteq> 0" "c2 \<noteq> 0"
  shows "url_decode_loop (pre @ 37 # c1 # c2 # s) (length pre) (xs @ y # ys) (length xs) =
    url_decode_loop (pre @ 37 # c1 # c2 # s) (length pre + 3)
      (xs @ (push_bit 4 (from_hex c1) OR from_hex c2) # ys) (Suc (length xs))"
  using assms by (subst url_decode_loop.simps) simp

lemma url_decode_step_cut:
  assumes "s = 0 # rest \<or> s = d # 0 # rest"
  shows "url_decode_loop (pre @ 37 # s) (length pre) (xs @ ys) (length xs) =
    url_decode_loop (pre @ 37 # s) (Suc (length pre)) (xs @ ys) (length xs)"
  using assms by (subst url_decode_loop.simps) auto

lemma url_decode_loop_result:
  assumes "0 \<notin> set s" "length s \<le> length ys"
  shows "url_decode_loop (pre @ s @ 0 # rest) (length pre) (xs @ ys) (length xs) =
    Some (xs @ url_dec s @ drop (length (url_dec s)) ys, length xs + length (url_dec s))"
  using assms
proof (induction s arbitrary: pre xs ys rule: url_dec.induct)
  case (1 c c1 c2 s)
  obtain y ys' where ys: "ys = y # ys'" using "1.prems"(2) by (cases ys) auto
  show ?case
  proof (cases "c = 37")
    case True
    then show ?thesis
      using "1.IH"(1) [OF True, of ys' "pre @ [37, c1, c2]" "xs @ [push_bit 4 (from_hex c1) OR from_hex c2]"]
        "1.prems" url_decode_step_escape [of c1 c2 pre "s @ 0 # rest" xs y ys']
      by (simp add: ys numeral_3_eq_3)
  next
    case False
    then show ?thesis
      using "1.IH"(2) [OF False, of ys' "pre @ [c]" "xs @ [dec_char c]"] "1.prems"
        url_decode_step [of c pre "c1 # c2 # s @ 0 # rest" xs y ys'] by (simp add: ys)
  qed
next
  case (2 c d)
  obtain y ys' where ys: "ys = y # ys'" using "2.prems"(2) by (cases ys) auto
  show ?case
  proof (cases "c = 37")
    case True
    then show ?thesis
      using "2.IH"(1) [OF True, of ys "pre @ [37]" xs] "2.prems"
        url_decode_step_cut [of "d # 0 # rest" rest d pre xs ys] by simp
  next
    case False
    then show ?thesis
      using "2.IH"(2) [OF False, of ys' "pre @ [c]" "xs @ [dec_char c]"] "2.prems"
        url_decode_step [of c pre "d # 0 # rest" xs y ys'] by (simp add: ys)
  qed
next
  case (3 c)
  obtain y ys' where ys: "ys = y # ys'" using "3.prems"(2) by (cases ys) auto
  have stop: "url_decode_loop (p @ 0 # rest) (length p) b j = Some (b, j)" for p b j
    by (subst url_decode_loop.simps) simp
  show ?case
    using "3.prems" url_decode_step_cut [of "0 # rest" rest _ pre xs ys] stop [of "pre @ [c]"]
      url_decode_step [of c pre "0 # rest" xs y ys'] by (cases "c = 37") (simp_all add: ys)
next
  case 4
  then show ?case by (subst url_decode_loop.simps) simp
qed

section \<open>Round trip\<close>

lemma url_plain_not_special: "url_plain c \<Longrightarrow> c \<noteq> 37 \<and> c \<noteq> 43 \<and> c \<noteq> 0"
  by (auto simp: url_plain_def isalnum_def isdigit_def)

lemma hex_digit_cases: "w < 16 \<Longrightarrow> w \<in> set [0, 1, 2, 3, 4, 5, 6, 7, 8, 9, 10, 11, 12, 13, 14, 15]" for w :: u8
proof -
  assume "w < 16"
  then have "unat w < 16" by (simp add: word_less_nat_alt)
  then have "unat w \<in> set [0..<16]" by simp
  then have "word_of_nat (unat w) \<in> (word_of_nat ` set [0..<16] :: u8 set)" by (rule imageI)
  then show ?thesis by (simp add: upt_rec)
qed

lemma from_hex_to_hex: "w < 16 \<Longrightarrow> from_hex (to_hex w) = w \<and> to_hex w \<noteq> 0"
  using hex_digit_cases [of w]
  by (auto simp: to_hex_def from_hex_def isdigit_def tolower_def hex_digits_def)

lemma nibbles: "drop_bit 4 c < 16" "c AND 15 < 16" "push_bit 4 (drop_bit 4 c) OR (c AND 15) = c" for c :: u8
proof -
  have m: "(15 :: u8) = mask 4" by (simp add: mask_eq_exp_minus_1)
  have "unat c < 256" using unsigned_less [of c] by simp
  then have "unat (drop_bit 4 c) < 16"
    by (simp add: unat_drop_bit_eq drop_bit_eq_div [where 'a = nat] )
  then show "drop_bit 4 c < 16" by (simp add: word_less_nat_alt)
  have "unat (take_bit 4 c) < 2 ^ 4" by (simp only: unsigned_take_bit_eq take_bit_nat_less_exp)
  moreover have "c AND 15 = take_bit 4 c" by (simp add: m take_bit_eq_mask)
  ultimately show "c AND 15 < 16" by (simp add: word_less_nat_alt)
  show "push_bit 4 (drop_bit 4 c) OR (c AND 15) = c"
    unfolding m by (rule bit_word_eqI) (auto simp: bit_simps)
qed

lemma url_dec_enc_char: "0 < c \<Longrightarrow> url_dec (enc_char c @ s) = c # url_dec s"
  using url_plain_not_special [of c] from_hex_to_hex [OF nibbles(1) [of c]] from_hex_to_hex [OF nibbles(2) [of c]]
  by (auto simp: enc_char_def url_dec_plain dec_char_def nibbles(3))

lemma url_dec_enc: "0 \<notin> set s \<Longrightarrow> url_dec (url_enc s) = s"
  by (induction s) (auto simp: url_enc_def url_dec_enc_char word_gt_0)

lemma url_enc_no_zero: "0 \<notin> set s \<Longrightarrow> 0 \<notin> set (url_enc s)"
  using from_hex_to_hex [OF nibbles(1)] from_hex_to_hex [OF nibbles(2)]
  by (fastforce simp: url_enc_def enc_char_def split: if_splits)

lemma itcUrlEncode_result:
  assumes "0 \<notin> set s" "malloc (3 * length s + 1) = Some b" "length b = 3 * length s + 1"
  shows "itcUrlEncode malloc (s @ 0 # rest) =
    Some (url_enc s @ 0 # drop (Suc (length (url_enc s))) b)"
proof -
  let ?e = "url_enc s"
  have len: "length ?e < length b" using length_url_enc [of s] assms(3) by simp
  have "drop (length ?e) b = b ! length ?e # drop (Suc (length ?e)) b"
    using len by (simp add: Cons_nth_drop_Suc)
  then show ?thesis
    using assms url_encode_loop_result [of s b "[]" rest "[]"] len
    by (simp add: itcUrlEncode_def strlen_cstr mult.commute)
qed

lemma itcUrlDecode_result:
  assumes "0 \<notin> set s" "malloc (length s + 1) = Some b" "length b = length s + 1"
  shows "itcUrlDecode malloc (s @ 0 # rest) =
    Some (url_dec s @ 0 # drop (Suc (length (url_dec s))) b)"
proof -
  let ?e = "url_dec s"
  have len: "length ?e < length b" using length_url_dec [of s] assms(3) by simp
  have "drop (length ?e) b = b ! length ?e # drop (Suc (length ?e)) b"
    using len by (simp add: Cons_nth_drop_Suc)
  then show ?thesis
    using assms url_decode_loop_result [of s b "[]" rest "[]"] len
    by (simp add: itcUrlDecode_def strlen_cstr)
qed

text \<open>C33. For every C string, encoding and then decoding gives back the string; neither function
  writes outside the buffer it has allocated, and the encoded form consists only of letters,
  digits and the characters \<open>- _ . ~ + %\<close>. (Both allocations succeed.)\<close>

theorem url_round_trip:
  assumes "0 \<notin> set s" and malloc: "\<And>n. \<exists>b. malloc n = Some b \<and> length b = n"
  shows "\<exists>e d. itcUrlEncode malloc (s @ 0 # rest) = Some e \<and> itcUrlDecode malloc e = Some d \<and>
    cstr d = s \<and> (\<forall>c \<in> set (cstr e). url_plain c \<or> c = 43 \<or> c = 37)"
proof -
  obtain b where b: "malloc (3 * length s + 1) = Some b" "length b = 3 * length s + 1"
    using malloc by blast
  obtain b' where b': "malloc (length (url_enc s) + 1) = Some b'" "length b' = length (url_enc s) + 1"
    using malloc by blast
  have "to_hex w \<in> set hex_digits" if "w < 16" for w
    using hex_digit_cases [OF that] by (auto simp: to_hex_def hex_digits_def)
  then have hexd: "url_plain (to_hex w)" if "w < 16" for w
    using that by (fastforce simp: hex_digits_def url_plain_def isalnum_def isdigit_def)
  have "\<forall>c \<in> set (url_enc s). url_plain c \<or> c = 43 \<or> c = 37"
    using hexd [OF nibbles(1)] hexd [OF nibbles(2)] by (auto simp: url_enc_def enc_char_def split: if_splits)
  then show ?thesis
    using itcUrlEncode_result [of s malloc b rest] b itcUrlDecode_result [of "url_enc s" malloc b'] b'
      assms(1) by (simp add: url_enc_no_zero url_dec_enc)
qed

theorem url_round_trip_witness:
  "\<exists>e d. itcUrlEncode (\<lambda>n. Some (replicate n 7)) [97, 32, 0xC3, 37, 0] = Some e \<and>
    itcUrlDecode (\<lambda>n. Some (replicate n 7)) e = Some d \<and> cstr d = [97, 32, 0xC3, 37]"
  using url_round_trip [of "[97, 32, 0xC3, 37]" "\<lambda>n. Some (replicate n 7)" "[]"] by auto

text \<open>C34. Decoding is safe on every C string, also on one that was not produced by the encoder: a
  stray percent sign, one before the end of the string, or digits that are not hexadecimal never
  make it read behind the terminator or write outside its buffer, and it ends.\<close>

theorem url_decode_safe:
  assumes "strlen str = Some n" "malloc (n + 1) = Some b" "length b = n + 1"
  shows "\<exists>d. itcUrlDecode malloc str = Some d \<and> length d = n + 1 \<and> length (cstr d) \<le> n"
proof -
  obtain s rest where s: "str = s @ 0 # rest" "0 \<notin> set s" "n = length s"
    using strlen_SomeD [OF assms(1)] by blast
  have "length (cstr (x @ 0 # z)) \<le> length x" for x z :: bytes
    by (induction x) (auto simp: cstr_def)
  from le_trans [OF this length_url_dec] show ?thesis
    using itcUrlDecode_result [OF s(2), of malloc b rest] assms(2,3) s length_url_dec [of s]
    by auto
qed

theorem url_decode_safe_witness:
  "\<exists>d. itcUrlDecode (\<lambda>n. Some (replicate n 7)) [97, 37, 52, 0] = Some d \<and> length d = 4 \<and> length (cstr d) \<le> 3"
  using url_decode_safe [of "[97, 37, 52, 0]" 3 "\<lambda>n. Some (replicate n 7)" "replicate 4 7"]
  by simp

end
