(* ===== verification/ITC_Crc16.thy ===== *)
theory ITC_Crc16
  imports Prelude
begin

text \<open>
  The 16-bit checksum of the \<open>itc\<close> library (\<open>sdk/share/itc/itc_crc.c\<close>). The code
  shifts to the left, most significant bit first, but with the constant 0x8408, which is the
  CCITT polynomial in reflected form. The lemmas show what this computes: the low three bits of
  every state are zero, so the checksum has 13 significant bits; it still detects every change
  of a single byte.
\<close>

definition crc16_bit :: "u16 \<Rightarrow> u16" where
  "crc16_bit crc = (if 0 < crc AND 0x8000 then push_bit 1 crc XOR 0x8408 else push_bit 1 crc)"

definition crc16_byte :: "u8 \<Rightarrow> u16 \<Rightarrow> u16" where
  "crc16_byte d crc = (crc16_bit ^^ 8) (crc XOR push_bit 8 (ucast d))"

definition itcCrc16 :: "bytes \<Rightarrow> u16 \<Rightarrow> u16 option" where
  "itcCrc16 data sz =
     (if unat sz \<le> length data then Some (fold crc16_byte (take (unat sz) data) 0) else None)"

section \<open>The low bits\<close>

text \<open>The states with three low zero bits are those the loop reaches.\<close>

definition low3_zero :: "u16 \<Rightarrow> bool" where
  "low3_zero c \<longleftrightarrow> \<not> bit c 0 \<and> \<not> bit c 1 \<and> \<not> bit c 2"

text \<open>The shift, named to keep it apart from a product.\<close>

definition shl1 :: "u16 \<Rightarrow> u16" where
  "shl1 c = push_bit 1 c"

lemma bit_shl1: "bit (shl1 c) n \<longleftrightarrow> 0 < n \<and> n < 16 \<and> bit c (n - 1)"
  unfolding shl1_def bit_push_bit_iff possible_bit_word by auto

lemma bit_crc16_bit: "bit (crc16_bit c) n \<longleftrightarrow> bit (shl1 c) n \<noteq> (bit c 15 \<and> bit (0x8408 :: u16) n)"
proof -
  have "c AND 0x8000 = 0 \<longleftrightarrow> \<not> bit c 15"
    using and_exp_eq_0_iff_not_bit [of c 15] by simp
  then have "crc16_bit c = (if bit c 15 then shl1 c XOR 0x8408 else shl1 c)"
    unfolding crc16_bit_def shl1_def [symmetric] by (simp add: word_gt_0)
  then show ?thesis by (simp add: bit_xor_iff)
qed

lemma poly_low_bits: "\<not> bit (0x8408 :: u16) 0" "\<not> bit (0x8408 :: u16) 1"
  "\<not> bit (0x8408 :: u16) 2" "bit (0x8408 :: u16) 3"
  by simp_all

lemma crc16_bit_low3: "low3_zero c \<Longrightarrow> low3_zero (crc16_bit c)"
  unfolding low3_zero_def bit_crc16_bit bit_shl1 using poly_low_bits by simp

lemma crc16_bit_inj:
  assumes "low3_zero c" "low3_zero d" and eq: "crc16_bit c = crc16_bit d"
  shows "c = d"
proof -
  have "\<not> bit c 2" "\<not> bit d 2" using assms(1,2) by (simp_all add: low3_zero_def)
  moreover have "bit (crc16_bit c) 3 = bit (crc16_bit d) 3" using eq by simp
  ultimately have top: "bit c 15 = bit d 15"
    unfolding bit_crc16_bit bit_shl1 using poly_low_bits(4) by simp
  have sh: "bit (shl1 c) n = bit (shl1 d) n" for n
    using arg_cong [OF eq, of "\<lambda>w. bit w n"] unfolding bit_crc16_bit top by blast
  show ?thesis
  proof (rule bit_word_eqI)
    fix n assume "n < LENGTH(16)"
    then have "n < 15 \<or> n = 15" by auto
    then show "bit c n = bit d n"
      using top sh [of "Suc n"] unfolding bit_shl1 by auto
  qed
qed

lemma xor_cancel: "c XOR a = c XOR b \<Longrightarrow> a = b" for a :: "'a::len word"
proof -
  assume "c XOR a = c XOR b"
  then have "c XOR (c XOR a) = c XOR (c XOR b)" by simp
  then show "a = b" by (simp add: xor.assoc [symmetric])
qed

lemma crc16_bits_low3: "low3_zero c \<Longrightarrow> low3_zero ((crc16_bit ^^ k) c)"
  by (induction k) (simp_all add: crc16_bit_low3)

lemma crc16_bits_inj:
  "low3_zero c \<Longrightarrow> low3_zero d \<Longrightarrow> (crc16_bit ^^ k) c = (crc16_bit ^^ k) d \<Longrightarrow> c = d"
  by (induction k) (auto dest: crc16_bit_inj [OF crc16_bits_low3 crc16_bits_low3])

lemma low3_mix: "low3_zero c \<Longrightarrow> low3_zero (c XOR push_bit 8 (ucast (d :: u8)))"
  by (simp add: low3_zero_def bit_simps)

lemma crc16_byte_low3: "low3_zero c \<Longrightarrow> low3_zero (crc16_byte d c)"
  by (simp add: crc16_byte_def crc16_bits_low3 low3_mix)

lemma crc16_bytes_low3: "low3_zero c \<Longrightarrow> low3_zero (fold crc16_byte ds c)"
  by (induction ds arbitrary: c) (simp_all add: crc16_byte_low3)

section \<open>Different inputs\<close>

lemma crc16_byte_inj_state:
  assumes "low3_zero c" "low3_zero c'" "crc16_byte d c = crc16_byte d c'"
  shows "c = c'"
proof -
  have "c XOR push_bit 8 (ucast d) = c' XOR push_bit 8 (ucast d)"
    using assms(3) unfolding crc16_byte_def
    by (rule crc16_bits_inj [OF low3_mix [OF assms(1)] low3_mix [OF assms(2)]])
  then have "push_bit 8 (ucast d) XOR c = push_bit 8 (ucast d) XOR c'" by (simp only: xor.commute)
  then show ?thesis by (rule xor_cancel)
qed

lemma crc16_byte_inj_data:
  assumes "low3_zero c" "crc16_byte d c = crc16_byte e c"
  shows "d = e"
proof -
  have "c XOR push_bit 8 (ucast d) = c XOR push_bit 8 (ucast e)"
    using assms(2) unfolding crc16_byte_def
    by (rule crc16_bits_inj [OF low3_mix [OF assms(1)] low3_mix [OF assms(1)]])
  then have "(push_bit 8 (ucast d) :: u16) = push_bit 8 (ucast e)" by (rule xor_cancel)
  then have b: "bit (push_bit 8 (ucast d) :: u16) (n + 8) = bit (push_bit 8 (ucast e) :: u16) (n + 8)" for n
    by simp
  show ?thesis
  proof (rule bit_word_eqI)
    fix n assume "n < LENGTH(8)"
    then show "bit d n = bit e n"
      using b [of n] unfolding bit_push_bit_iff possible_bit_word bit_ucast_iff by simp
  qed
qed

lemma crc16_bytes_inj:
  "low3_zero c \<Longrightarrow> low3_zero c' \<Longrightarrow> fold crc16_byte ds c = fold crc16_byte ds c' \<Longrightarrow> c = c'"
proof (induction ds arbitrary: c c')
  case (Cons d ds)
  then show ?case using crc16_byte_inj_state crc16_byte_low3 by (metis fold_simps(2))
qed simp

text \<open>Changing one byte of the data always changes the 16-bit checksum.\<close>

theorem crc16_detects_byte:
  assumes "length (xs @ a # ys) < 2 ^ 16" "a \<noteq> b"
  shows "itcCrc16 (xs @ a # ys) (of_nat (length (xs @ a # ys))) \<noteq>
    itcCrc16 (xs @ b # ys) (of_nat (length (xs @ b # ys)))"
proof -
  have z: "low3_zero 0" by (simp add: low3_zero_def)
  let ?c = "fold crc16_byte xs 0"
  have "fold crc16_byte ys (crc16_byte a ?c) \<noteq> fold crc16_byte ys (crc16_byte b ?c)"
    using crc16_bytes_inj [OF crc16_byte_low3 crc16_byte_low3] crc16_byte_inj_data crc16_bytes_low3 [OF z] assms(2)
    by blast
  moreover have "unat (of_nat (length xs + Suc (length ys)) :: u16) = length xs + Suc (length ys)"
    using assms(1) by (simp only: unat_of_nat) (rule mod_less, simp)
  ultimately show ?thesis by (simp add: itcCrc16_def del: of_nat_add of_nat_Suc)
qed

theorem crc16_detects_byte_witness:
  "itcCrc16 [1, 2, 3] 3 \<noteq> itcCrc16 [1, 7, 3] 3"
  using crc16_detects_byte [of "[1]" 2 "[3]" 7] by simp

text \<open>The three low bits of the checksum are always zero: of the 16 bits only 13 carry
  information.\<close>

theorem crc16_low_bits_zero:
  assumes "itcCrc16 data n = Some c"
  shows "c AND 7 = 0"
proof -
  have "low3_zero c"
    using assms crc16_bytes_low3 [of 0 "take (unat n) data"]
    by (auto simp: itcCrc16_def low3_zero_def split: if_splits)
  then have low: "\<not> bit c n" if "n < 3" for n
    using that by (auto simp: low3_zero_def less_Suc_eq numeral_3_eq_3 numeral_2_eq_2)
  have m: "(7 :: u16) = mask 3" by (simp add: mask_eq_exp_minus_1)
  show ?thesis
    unfolding m by (rule bit_word_eqI) (use low in \<open>auto simp: bit_and_iff bit_mask_iff\<close>)
qed

theorem crc16_low_bits_zero_witness: "\<exists>c. itcCrc16 [49, 50] 2 = Some c \<and> c AND 7 = 0"
proof -
  have "itcCrc16 [49, 50] 2 = Some (fold crc16_byte [49, 50] 0)" by (simp add: itcCrc16_def)
  with crc16_low_bits_zero [OF this] show ?thesis by blast
qed

end
