(* ===== verification/Posix_Mutex.thy ===== *)
theory Posix_Mutex
  imports Prelude
begin

text \<open>
  The POSIX mutex layer over the kernel (\<open>sdk/driver/itp/itp_posix_openrtos.c\<close>) as one
  thread sees it: a \<open>pthread_mutex_t\<close> is \<open>NULL\<close>, the static initialiser, a pointer
  to a kernel mutex, or a pointer to memory that has been freed (\<open>pthread_mutex_destroy\<close>
  keeps the pointer). Without attributes the mutex is recursive; \<open>PM_Alive n\<close> is held \<open>n\<close>
  times by the thread. A lock waits without limit, so it has no time-out result; the thread that
  runs is the one that gets it. The first lock of a statically initialised mutex allocates the
  kernel object; whether that succeeds is the argument of \<open>PM_Static\<close>.
\<close>

datatype pthread_mutex = PM_Null | PM_Static bool | PM_Alive nat | PM_Freed

abbreviation (input) EINVAL :: int where "EINVAL \<equiv> 22"
abbreviation (input) ENOMEM :: int where "ENOMEM \<equiv> 12"

definition pthread_mutex_init :: "bool \<Rightarrow> pthread_mutex \<Rightarrow> int \<times> pthread_mutex" where
  "pthread_mutex_init alloc m = (if alloc then (0, PM_Alive 0) else (ENOMEM, m))"

fun pthread_mutex_destroy :: "pthread_mutex \<Rightarrow> (int \<times> pthread_mutex) option" where
  "pthread_mutex_destroy PM_Null = Some (EINVAL, PM_Null)"
| "pthread_mutex_destroy (PM_Static b) = Some (0, PM_Null)"
| "pthread_mutex_destroy (PM_Alive n) = Some (0, PM_Freed)"
| "pthread_mutex_destroy PM_Freed = None"

fun pthread_mutex_lock :: "pthread_mutex \<Rightarrow> (int \<times> pthread_mutex) option" where
  "pthread_mutex_lock PM_Null = Some (EINVAL, PM_Null)"
| "pthread_mutex_lock (PM_Static alloc) =
     (let (ret2, m) = pthread_mutex_init alloc (PM_Static alloc) in
      if ret2 \<noteq> 0 then Some (ret2, m) else Some (0, PM_Alive 1))"
| "pthread_mutex_lock (PM_Alive n) = Some (0, PM_Alive (Suc n))"
| "pthread_mutex_lock PM_Freed = None"

fun pthread_mutex_unlock :: "pthread_mutex \<Rightarrow> (int \<times> pthread_mutex) option" where
  "pthread_mutex_unlock PM_Null = Some (EINVAL, PM_Null)"
| "pthread_mutex_unlock (PM_Static b) = Some (0, PM_Static b)"
| "pthread_mutex_unlock (PM_Alive n) = Some (0, PM_Alive (n - 1))"
| "pthread_mutex_unlock PM_Freed = None"

text \<open>Each operation that locks and unlocks leaves the mutex as it was.\<close>

lemma lock_unlock:
  "pthread_mutex_lock (PM_Alive n) = Some (0, PM_Alive (Suc n))"
  "pthread_mutex_unlock (PM_Alive (Suc n)) = Some (0, PM_Alive n)"
  by simp_all

end
