(* ===== verification/ITC_Buffer_Stream.thy ===== *)
theory ITC_Buffer_Stream
  imports ITC_Stream Posix_Mutex
begin

text \<open>
  The ring-buffer stream (\<open>sdk/share/itc/itc_bufferstream.c\<close>). The fields are those of
  \<open>ITCBufferStream\<close>; \<open>bs_buf\<close> is \<open>None\<close> for \<open>NULL\<close>. Each operation takes the
  mutex, runs its body and gives the mutex back; the two pairs of lock functions keep it in
  between. The flag \<open>st_eof\<close> tells an empty ring from a full one when the two positions
  agree.

  \<open>ring\<close> is the abstract view: the bytes between the read and the write position. The
  lemmas show that writing within the free space appends to it, that reading takes from its front
  on all paths but one, and what that path does instead.
\<close>

record buffer_stream = itc_stream +
  bs_buf :: "bytes option"
  bs_size :: int
  bs_readpos :: int
  bs_writepos :: int
  bs_mutex :: pthread_mutex

abbreviation (input) ITC_LOCK_FAIL :: int where "ITC_LOCK_FAIL \<equiv> -1"

section \<open>The operations\<close>

definition BufferStreamClose :: "buffer_stream \<Rightarrow> (int \<times> buffer_stream) option" where
  "BufferStreamClose bs = do {
     (result, m) \<leftarrow> pthread_mutex_lock (bs_mutex bs);
     let bs = bs\<lparr>bs_mutex := m\<rparr>;
     if result \<noteq> 0 then Some (result, bs)
     else do {
       let bs = bs\<lparr>bs_buf := None\<rparr>;
       (_, m) \<leftarrow> pthread_mutex_destroy (bs_mutex bs);
       Some (0, bs\<lparr>bs_mutex := m\<rparr>)
     }
   }"

text \<open>The part of a read between lock and unlock.\<close>

definition buffer_read_body :: "buffer_stream \<Rightarrow> bytes \<Rightarrow> int \<Rightarrow> (int \<times> bytes \<times> buffer_stream) option" where
  "buffer_read_body bs buf n =
     (if st_eof bs then Some (0, buf, bs)
      else do {
        let bs = (if bs_readpos bs = bs_size bs then bs\<lparr>bs_readpos := 0\<rparr> else bs);
        mem \<leftarrow> bs_buf bs;
        (readsize, buf, bs) \<leftarrow>
          (if bs_readpos bs < bs_writepos bs then do {
             let readsize = min n (bs_writepos bs - bs_readpos bs);
             buf \<leftarrow> memcpy buf 0 mem (bs_readpos bs) readsize;
             Some (readsize, buf, bs\<lparr>bs_readpos := bs_readpos bs + readsize\<rparr>)
           }
           else if n > bs_size bs - bs_readpos bs then do {
             let size1 = bs_size bs - bs_readpos bs;
             buf \<leftarrow> memcpy buf 0 mem (bs_readpos bs) size1;
             let n = n - size1;
             let bs = bs\<lparr>bs_readpos := 0\<rparr>;
             let size2 = min n (bs_writepos bs - bs_readpos bs);
             buf \<leftarrow> memcpy buf size1 mem (bs_readpos bs) size2;
             Some (size1 + size2, buf, bs\<lparr>bs_readpos := bs_readpos bs + size2\<rparr>)
           }
           else do {
             let readsize = n;
             mem \<leftarrow> memcpy mem (bs_readpos bs) buf 0 readsize;
             Some (readsize, buf, bs\<lparr>bs_buf := Some mem, bs_readpos := bs_readpos bs + readsize\<rparr>)
           });
        Some (readsize, buf,
          (if readsize > 0 \<and> bs_readpos bs = bs_writepos bs then bs\<lparr>st_eof := True\<rparr> else bs))
      })"

definition BufferStreamRead :: "buffer_stream \<Rightarrow> bytes \<Rightarrow> int \<Rightarrow> (int \<times> bytes \<times> buffer_stream) option" where
  "BufferStreamRead bs buf n = do {
     (result, m) \<leftarrow> pthread_mutex_lock (bs_mutex bs);
     let bs = bs\<lparr>bs_mutex := m\<rparr>;
     if result \<noteq> 0 then Some (0, buf, bs)
     else do {
       (readsize, buf, bs) \<leftarrow> buffer_read_body bs buf n;
       (_, m) \<leftarrow> pthread_mutex_unlock (bs_mutex bs);
       Some (readsize, buf, bs\<lparr>bs_mutex := m\<rparr>)
     }
   }"

definition buffer_write_body :: "buffer_stream \<Rightarrow> bytes \<Rightarrow> int \<Rightarrow> (int \<times> buffer_stream) option" where
  "buffer_write_body bs buf n = do {
     mem \<leftarrow> bs_buf bs;
     (writesize, bs) \<leftarrow>
       (if bs_writepos bs < bs_readpos bs then do {
          let writesize = min n (bs_readpos bs - bs_writepos bs);
          mem \<leftarrow> memcpy mem (bs_writepos bs) buf 0 writesize;
          Some (writesize, bs\<lparr>bs_buf := Some mem, bs_writepos := bs_writepos bs + writesize\<rparr>)
        }
        else if n > bs_size bs - bs_writepos bs then do {
          let size1 = bs_size bs - bs_writepos bs;
          mem \<leftarrow> memcpy mem (bs_writepos bs) buf 0 size1;
          let n = n - size1;
          let bs = bs\<lparr>bs_writepos := 0\<rparr>;
          let size2 = min n (bs_readpos bs - bs_writepos bs);
          mem \<leftarrow> memcpy mem (bs_writepos bs) buf size1 size2;
          Some (size1 + size2, bs\<lparr>bs_buf := Some mem, bs_writepos := bs_writepos bs + size2\<rparr>)
        }
        else do {
          let writesize = n;
          mem \<leftarrow> memcpy mem (bs_writepos bs) buf 0 writesize;
          Some (writesize, bs\<lparr>bs_buf := Some mem, bs_writepos := bs_writepos bs + writesize\<rparr>)
        });
     Some (writesize, (if writesize > 0 then bs\<lparr>st_eof := False\<rparr> else bs))
   }"

definition BufferStreamWrite :: "buffer_stream \<Rightarrow> bytes \<Rightarrow> int \<Rightarrow> (int \<times> buffer_stream) option" where
  "BufferStreamWrite bs buf n = do {
     (result, m) \<leftarrow> pthread_mutex_lock (bs_mutex bs);
     let bs = bs\<lparr>bs_mutex := m\<rparr>;
     if result \<noteq> 0 then Some (0, bs)
     else do {
       (writesize, bs) \<leftarrow> buffer_write_body bs buf n;
       (_, m) \<leftarrow> pthread_mutex_unlock (bs_mutex bs);
       Some (writesize, bs\<lparr>bs_mutex := m\<rparr>)
     }
   }"

text \<open>The switch of a seek; its result is overwritten by the result of the unlock.\<close>

definition buffer_seek_body :: "buffer_stream \<Rightarrow> int \<Rightarrow> int \<Rightarrow> (int \<times> buffer_stream) option" where
  "buffer_seek_body bs offset origin =
     (let to = (\<lambda>p. bs\<lparr>bs_readpos := p, st_eof := (p = bs_writepos bs)\<rparr>) in
      if origin = SEEK_SET then
        (if bs_readpos bs < bs_writepos bs then
           (if offset \<le> bs_writepos bs then Some (0, to offset) else Some (-1, bs))
         else if offset < bs_size bs then Some (0, bs\<lparr>bs_readpos := offset\<rparr>) else Some (-1, bs))
      else if origin = SEEK_CUR then
        (let pos = bs_readpos bs + offset in
         if bs_readpos bs < bs_writepos bs then
           (if pos \<ge> 0 \<and> pos < bs_writepos bs then Some (0, to pos) else Some (-1, bs))
         else if pos \<ge> bs_writepos bs \<and> pos < bs_size bs then Some (0, bs\<lparr>bs_readpos := pos\<rparr>)
         else Some (-1, bs))
      else if origin = SEEK_END then
        (let pos = bs_size bs + offset in
         if bs_readpos bs < bs_writepos bs then
           (if pos \<ge> 0 \<and> pos < bs_writepos bs then Some (0, to pos) else Some (-1, bs))
         else if pos \<ge> bs_writepos bs \<and> pos < bs_size bs then Some (0, bs\<lparr>bs_readpos := pos\<rparr>)
         else Some (-1, bs))
      else None)"

definition BufferStreamSeek :: "buffer_stream \<Rightarrow> int \<Rightarrow> int \<Rightarrow> (int \<times> buffer_stream) option" where
  "BufferStreamSeek bs offset origin = do {
     (result, m) \<leftarrow> pthread_mutex_lock (bs_mutex bs);
     let bs = bs\<lparr>bs_mutex := m\<rparr>;
     if result \<noteq> 0 then Some (0, bs)
     else do {
       (result, bs) \<leftarrow> buffer_seek_body bs offset origin;
       (result, m) \<leftarrow> pthread_mutex_unlock (bs_mutex bs);
       Some (result, bs\<lparr>bs_mutex := m\<rparr>)
     }
   }"

definition BufferStreamTell :: "buffer_stream \<Rightarrow> (int \<times> buffer_stream) option" where
  "BufferStreamTell bs = Some (bs_readpos bs, bs)"

definition BufferStreamAvailable :: "buffer_stream \<Rightarrow> (int \<times> buffer_stream) option" where
  "BufferStreamAvailable bs = do {
     (result, m) \<leftarrow> pthread_mutex_lock (bs_mutex bs);
     let bs = bs\<lparr>bs_mutex := m\<rparr>;
     if result \<noteq> 0 then Some (0, bs)
     else do {
       let avail = (if st_eof bs then 0
         else if bs_readpos bs < bs_writepos bs then bs_writepos bs - bs_readpos bs
         else bs_size bs - bs_readpos bs);
       (_, m) \<leftarrow> pthread_mutex_unlock (bs_mutex bs);
       Some (avail, bs\<lparr>bs_mutex := m\<rparr>)
     }
   }"

text \<open>
  The locked pointer is an offset in the buffer. At the end of the stream \<open>*bufptr\<close> is not
  written; the model gives the read position, which the caller cannot rely on.
\<close>

definition BufferStreamReadLock :: "buffer_stream \<Rightarrow> int \<Rightarrow> (int \<times> int \<times> buffer_stream) option" where
  "BufferStreamReadLock bs n = do {
     (result, m) \<leftarrow> pthread_mutex_lock (bs_mutex bs);
     let bs = bs\<lparr>bs_mutex := m\<rparr>;
     if result \<noteq> 0 then Some (ITC_LOCK_FAIL, bs_readpos bs, bs)
     else if st_eof bs then Some (0, bs_readpos bs, bs)
     else do {
       let bs = (if bs_readpos bs = bs_size bs then bs\<lparr>bs_readpos := 0\<rparr> else bs);
       let readsize = (if bs_readpos bs < bs_writepos bs
         then min n (bs_writepos bs - bs_readpos bs)
         else min n (bs_size bs - bs_readpos bs));
       Some (readsize, bs_readpos bs, bs)
     }
   }"

definition BufferStreamReadUnlock :: "buffer_stream \<Rightarrow> int \<Rightarrow> buffer_stream option" where
  "BufferStreamReadUnlock bs n = do {
     let bs =
       (if st_eof bs then bs
        else
          let bs = (if bs_readpos bs = bs_size bs \<and> bs_writepos bs > 0 then bs\<lparr>bs_readpos := 0\<rparr> else bs);
              readsize = (if bs_readpos bs < bs_writepos bs
                then min n (bs_writepos bs - bs_readpos bs)
                else min n (bs_size bs - bs_readpos bs));
              bs = bs\<lparr>bs_readpos := bs_readpos bs + readsize\<rparr>;
              bs = (if bs_readpos bs = bs_size bs \<and> bs_writepos bs > 0 then bs\<lparr>bs_readpos := 0\<rparr> else bs)
          in if readsize > 0 \<and> bs_readpos bs = bs_writepos bs then bs\<lparr>st_eof := True\<rparr> else bs);
     (_, m) \<leftarrow> pthread_mutex_unlock (bs_mutex bs);
     Some (bs\<lparr>bs_mutex := m\<rparr>)
   }"

definition BufferStreamWriteLock :: "buffer_stream \<Rightarrow> int \<Rightarrow> (int \<times> int \<times> buffer_stream) option" where
  "BufferStreamWriteLock bs n = do {
     (result, m) \<leftarrow> pthread_mutex_lock (bs_mutex bs);
     let bs = bs\<lparr>bs_mutex := m\<rparr>;
     if result \<noteq> 0 then Some (ITC_LOCK_FAIL, bs_writepos bs, bs)
     else
       let writesize = (if bs_writepos bs < bs_readpos bs
         then min n (bs_readpos bs - bs_writepos bs)
         else if n > bs_size bs - bs_writepos bs then bs_size bs - bs_writepos bs
         else n)
       in Some (writesize, bs_writepos bs, bs)
   }"

definition BufferStreamWriteUnlock :: "buffer_stream \<Rightarrow> int \<Rightarrow> buffer_stream option" where
  "BufferStreamWriteUnlock bs n = do {
     let (writesize, bs) =
       (if bs_writepos bs < bs_readpos bs then
          (let writesize = min n (bs_readpos bs - bs_writepos bs)
           in (writesize, bs\<lparr>bs_writepos := bs_writepos bs + writesize\<rparr>))
        else if n > bs_size bs - bs_writepos bs then
          (bs_size bs - bs_writepos bs,
           (if bs_readpos bs > 0 then bs\<lparr>bs_writepos := 0\<rparr> else bs))
        else (n, bs\<lparr>bs_writepos := bs_writepos bs + n\<rparr>));
     let bs = (if bs_writepos bs = bs_size bs \<and> bs_readpos bs > 0 then bs\<lparr>bs_writepos := 0\<rparr> else bs);
     let bs = (if writesize > 0 then bs\<lparr>st_eof := False\<rparr> else bs);
     (_, m) \<leftarrow> pthread_mutex_unlock (bs_mutex bs);
     Some (bs\<lparr>bs_mutex := m\<rparr>)
   }"

definition buffer_stream_vt :: "buffer_stream itc_vt" where
  "buffer_stream_vt = itcStreamOpen_vt
     \<lparr>vt_Close := BufferStreamClose, vt_Read := BufferStreamRead, vt_Write := BufferStreamWrite,
      vt_Seek := BufferStreamSeek, vt_Tell := BufferStreamTell, vt_Available := BufferStreamAvailable,
      vt_ReadLock := Some BufferStreamReadLock, vt_ReadUnlock := Some BufferStreamReadUnlock,
      vt_WriteLock := Some BufferStreamWriteLock, vt_WriteUnlock := Some BufferStreamWriteUnlock\<rparr>"

definition itcBufferStreamOpen ::
    "(nat \<Rightarrow> bytes option) \<Rightarrow> bool \<Rightarrow> buffer_stream \<Rightarrow> int \<Rightarrow> (int \<times> buffer_stream) option" where
  "itcBufferStreamOpen malloc alloc bs n =
     (if n > 0 then
        (let bs = (itcStreamOpen bs)\<lparr>bs_buf := malloc (nat n)\<rparr> in
         if bs_buf bs = None then Some (466, bs)
         else
           let (result, m) = pthread_mutex_init alloc (bs_mutex bs);
               bs = bs\<lparr>bs_mutex := m\<rparr>
           in if result \<noteq> 0 then Some (result, bs)
              else Some (0, bs\<lparr>bs_size := n, bs_readpos := 0, bs_writepos := 0, st_eof := True\<rparr>))
      else None)"

section \<open>The ring\<close>

definition ring :: "'a list \<Rightarrow> nat \<Rightarrow> nat \<Rightarrow> bool \<Rightarrow> 'a list" where
  "ring mem r w eof =
     (if eof then [] else if r < w then drop r (take w mem) else drop r mem @ take w mem)"

lemma length_ring: "r \<le> length mem \<Longrightarrow> w \<le> length mem \<Longrightarrow>
  length (ring mem r w eof) =
    (if eof then 0 else if r < w then w - r else length mem - r + w)"
  by (simp add: ring_def)

text \<open>Writing behind the write position, round the end, and below the read position.\<close>

lemma ring_write_up:
  assumes "r \<le> w" "w + length d \<le> length mem" "0 < length d"
  shows "ring (take w mem @ d @ drop (w + length d) mem) r (w + length d) False =
    drop r (take w mem) @ d"
proof -
  have lt: "r < w + length d" using assms(1,3) by linarith
  have "ring X r (w + length d) False = drop r (take (w + length d) X)" for X :: "'a list"
    using lt by (simp only: ring_def if_False if_True)
  then show ?thesis using assms(1,2) by simp
qed

lemma drop_overwritten: "length d \<le> r \<Longrightarrow> drop r (d @ drop (length d) X) = drop r X"
  by simp

lemma ring_write_round:
  assumes "r \<le> w" "w \<le> length mem" "length d1 = length mem - w" "length d2 \<le> r"
  shows "ring (d2 @ drop (length d2) (take w mem @ d1)) r (length d2) False = drop r (take w mem) @ d1 @ d2"
proof -
  have "ring Y r (length d2) False = drop r Y @ take (length d2) Y" for Y :: "'a list"
    using assms(4) by (simp add: ring_def)
  then have "ring (d2 @ drop (length d2) (take w mem @ d1)) r (length d2) False =
      drop r (take w mem @ d1) @ take (length d2) (d2 @ drop (length d2) (take w mem @ d1))"
    by (simp only: drop_overwritten [OF assms(4)])
  then show ?thesis using assms(1,2) by simp
qed

lemma ring_write_low:
  assumes "w < r" "w + length d \<le> r" "r \<le> length mem"
  shows "ring (take w mem @ d @ drop (w + length d) mem) r (w + length d) False =
    drop r mem @ take w mem @ d"
  using assms by (simp add: ring_def)

text \<open>Reading: the positions move, the memory stays.\<close>

lemma ring_read_up:
  assumes "r < w" "w \<le> length mem" "k \<le> w - r"
  shows "take k (drop r mem) = take k (ring mem r w False)"
    and "ring mem (r + k) w (0 < k \<and> r + k = w) = drop k (ring mem r w False)"
  using assms by (auto simp: ring_def drop_take add.commute)

lemma ring_read_round_all:
  assumes "w \<le> r" "r \<le> length mem" "length mem - r + w \<le> n"
  shows "drop r mem @ take w mem = take n (ring mem r w False)" "drop n (ring mem r w False) = []"
  using assms by (auto simp: ring_def)

lemma ring_read_round_part:
  assumes "w \<le> r" "r \<le> length mem" "n < length mem - r + w" "length mem - r < n"
  shows "drop r mem @ take (n - (length mem - r)) mem = take n (ring mem r w False)"
    and "ring mem (n - (length mem - r)) w False = drop n (ring mem r w False)"
proof -
  have lt: "n - (length mem - r) < w" using assms(3,4) by linarith
  then show "drop r mem @ take (n - (length mem - r)) mem = take n (ring mem r w False)"
    using assms by (simp add: ring_def)
  show "ring mem (n - (length mem - r)) w False = drop n (ring mem r w False)"
    using assms lt by (simp add: ring_def)
qed

section \<open>Invariants\<close>

definition buffer_inv :: "buffer_stream \<Rightarrow> bool" where
  "buffer_inv bs \<longleftrightarrow>
     (\<exists>mem. bs_buf bs = Some mem \<and> bs_size bs = int (length mem) \<and> 0 < length mem) \<and>
     0 \<le> bs_readpos bs \<and> bs_readpos bs \<le> bs_size bs \<and>
     0 \<le> bs_writepos bs \<and> bs_writepos bs \<le> bs_size bs \<and> (\<exists>k. bs_mutex bs = PM_Alive k)"

text \<open>What the streaming operations keep in addition: the flag says which of the two meanings equal
  positions have, and an end position is not combined with an empty wrapped part.\<close>

definition buffer_fifo :: "buffer_stream \<Rightarrow> bool" where
  "buffer_fifo bs \<longleftrightarrow> buffer_inv bs \<and>
     (if st_eof bs then bs_readpos bs = bs_writepos bs
      else \<not> (bs_readpos bs = bs_size bs \<and> bs_writepos bs = 0))"

definition buffer_ring :: "buffer_stream \<Rightarrow> bytes" where
  "buffer_ring bs = (case bs_buf bs of None \<Rightarrow> []
     | Some mem \<Rightarrow> ring mem (nat (bs_readpos bs)) (nat (bs_writepos bs)) (st_eof bs))"

lemma buffer_invE:
  assumes "buffer_inv bs"
  obtains mem r w k where "bs_buf bs = Some mem" "bs_size bs = int (length mem)" "0 < length mem"
    "bs_readpos bs = int r" "r \<le> length mem" "bs_writepos bs = int w" "w \<le> length mem"
    "bs_mutex bs = PM_Alive k"
proof -
  obtain mem k where "bs_buf bs = Some mem" "bs_size bs = int (length mem)" "0 < length mem"
      "bs_mutex bs = PM_Alive k"
    using assms by (auto simp: buffer_inv_def)
  moreover have "bs_readpos bs = int (nat (bs_readpos bs))" "bs_writepos bs = int (nat (bs_writepos bs))"
    using assms by (auto simp: buffer_inv_def)
  moreover have "nat (bs_readpos bs) \<le> length mem" "nat (bs_writepos bs) \<le> length mem"
    using assms calculation(2) by (auto simp: buffer_inv_def)
  ultimately show thesis by (rule_tac that) assumption+
qed

lemma buffer_mutex_irrelevant [simp]:
  "buffer_ring (bs\<lparr>bs_mutex := m\<rparr>) = buffer_ring bs"
  "buffer_fifo bs \<Longrightarrow> buffer_fifo (bs\<lparr>bs_mutex := PM_Alive k\<rparr>)"
  by (cases "bs_buf bs"; simp add: buffer_ring_def) (auto simp: buffer_fifo_def buffer_inv_def)

lemma memcpy_up: "memcpy dst (int d) src 0 (int n) =
    Some (take d dst @ take n src @ drop (d + n) dst)"
  if "d + n \<le> length dst" "n \<le> length src"
  using memcpy_int [of d n dst 0 src] that by simp

lemma memcpy_from: "memcpy dst 0 src (int s) (int n) =
    Some (take n (drop s src) @ drop n dst)"
  if "n \<le> length dst" "s + n \<le> length src"
  using memcpy_int [of 0 n dst s src] that by simp

section \<open>Writing\<close>

lemma buffer_write_round_eq:
  assumes v: "bs_buf bs = Some mem" "bs_size bs = int (length mem)"
    "bs_readpos bs = int r" "bs_writepos bs = int w"
    and lm: "length mem = w + m" and r: "r \<le> w" "j \<le> r" and n: "m + j \<le> length buf" "0 < j"
  shows "buffer_write_body bs buf (int (m + j)) = Some (int (m + j),
    bs\<lparr>bs_buf := Some (take j (drop m buf) @ drop j (take w mem @ take m buf)),
      bs_writepos := int j, st_eof := False\<rparr>)"
proof -
  let ?X = "take w mem @ take m buf"
  have c1: "memcpy mem (int w) buf 0 (int m) = Some ?X"
    using memcpy_up [of w m mem buf] lm n by simp
  have c2: "memcpy ?X 0 buf (int m) (int j) = Some (take j (drop m buf) @ drop j ?X)"
    using memcpy_from [of j ?X m buf] lm r n by simp
  have m3: "min (int j) (int r) = int j" using r(2) by simp
  show ?thesis
    using r n c1 c2 by (simp add: buffer_write_body_def v lm Let_def m3)
qed

lemma buffer_write_body_fifo:
  assumes inv: "buffer_fifo bs" and n: "n \<le> length buf"
    and room: "int (length (buffer_ring bs) + n) \<le> bs_size bs"
  shows "\<exists>bs'. buffer_write_body bs buf (int n) = Some (int n, bs') \<and> buffer_fifo bs' \<and>
    buffer_ring bs' = buffer_ring bs @ take n buf \<and> bs_size bs' = bs_size bs \<and> bs_mutex bs' = bs_mutex bs"
proof -
  have "buffer_inv bs" using inv by (simp add: buffer_fifo_def)
  then obtain mem r w k where v: "bs_buf bs = Some mem" "bs_size bs = int (length mem)" "0 < length mem"
    "bs_readpos bs = int r" "r \<le> length mem" "bs_writepos bs = int w" "w \<le> length mem"
    "bs_mutex bs = PM_Alive k" by (rule buffer_invE)
  have R: "buffer_ring bs = ring mem r w (st_eof bs)" using v by (simp add: buffer_ring_def)
  have eof: "st_eof bs \<Longrightarrow> r = w" and ne: "\<not> st_eof bs \<Longrightarrow> \<not> (r = length mem \<and> w = 0)"
    using inv v by (auto simp: buffer_fifo_def)
  have len: "length (ring mem r w (st_eof bs)) + n \<le> length mem" using room R v by simp
  note L = length_ring [OF v(5,7), of "st_eof bs"]
  consider (low) "w < r" | (up) "r \<le> w" "w + n \<le> length mem" | (round) "r \<le> w" "length mem < w + n"
    by linarith
  then show ?thesis
  proof cases
    case low
    then have e: "\<not> st_eof bs" using eof by auto
    with low len L have n_le: "w + n \<le> r" by auto
    let ?bs = "bs\<lparr>bs_buf := Some (take w mem @ take n buf @ drop (w + n) mem), bs_writepos := int (w + n)\<rparr>"
    have mn: "min (int n) (int r - int w) = int n" using n_le by simp
    have "buffer_write_body bs buf (int n) = Some (int n, (if 0 < n then ?bs\<lparr>st_eof := False\<rparr> else ?bs))"
      using low n n_le v by (simp add: buffer_write_body_def mn memcpy_up Let_def)
    moreover have "buffer_ring ?bs = buffer_ring bs @ take n buf"
      using ring_write_low [OF low, of "take n buf" mem] n_le v n e R
      by (simp add: buffer_ring_def nat_int_add ring_def)
    ultimately show ?thesis using e v n_le n low inv
      by (auto simp: buffer_fifo_def buffer_inv_def buffer_ring_def)
  next
    case up
    let ?bs = "bs\<lparr>bs_buf := Some (take w mem @ take n buf @ drop (w + n) mem), bs_writepos := int (w + n)\<rparr>"
    have "buffer_write_body bs buf (int n) = Some (int n, (if 0 < n then ?bs\<lparr>st_eof := False\<rparr> else ?bs))"
      using up n v by (simp add: buffer_write_body_def memcpy_up Let_def)
    moreover have "buffer_ring (?bs\<lparr>st_eof := False\<rparr>) = buffer_ring bs @ take n buf" if "0 < n"
    proof -
      have "ring mem r w (st_eof bs) = drop r (take w mem)"
        using up(1) eof len L that by (auto simp: ring_def split: if_splits)
      then show ?thesis
        using ring_write_up [OF up(1), of "take n buf" mem] up n that R
        by (simp add: v(4) buffer_ring_def [of "bs\<lparr>bs_buf := b, bs_writepos := x, st_eof := e\<rparr>" for b x e]
            nat_int_add min_absorb2)
    qed
    moreover have "buffer_ring ?bs = buffer_ring bs" if "n = 0" using that v by (simp add: buffer_ring_def)
    ultimately show ?thesis using v n up inv ne
      by (cases "n = 0") (auto simp: buffer_fifo_def buffer_inv_def)
  next
    case round
    obtain m where lm: "length mem = w + m" using v(7) le_Suc_ex by blast
    then obtain j where nj: "n = m + j" "0 < j" using round(2) by (metis add_less_cancel_left less_imp_add_positive)
    define d1 d2 where "d1 = take m buf" and "d2 = take j (drop m buf)"
    have rw: "st_eof bs \<or> r < w" using len L round by (auto split: if_splits)
    then have k: "j \<le> r" using len L round eof lm nj by (auto split: if_splits)
    have d3: "take n buf = d1 @ d2" by (simp add: nj d1_def d2_def take_add)
    have d: "length d1 = m" "length d2 = j" using n nj by (simp_all add: d1_def d2_def)
    define mem' where "mem' = d2 @ drop (length d2) (take w mem @ d1)"
    let ?bs = "bs\<lparr>bs_buf := Some mem', bs_writepos := int (length d2), st_eof := False\<rparr>"
    have body: "buffer_write_body bs buf (int n) = Some (int n, ?bs)"
      unfolding mem'_def d(2) unfolding d1_def d2_def nj(1)
      by (rule buffer_write_round_eq [OF v(1,2,4,6) lm round(1) k]) (use n nj in simp_all)
    have "ring mem r w (st_eof bs) = drop r (take w mem)"
      using rw eof by (auto simp: ring_def)
    moreover have "ring mem' r (length d2) False = drop r (take w mem) @ d1 @ d2"
      unfolding mem'_def by (rule ring_write_round [OF round(1) v(7)]) (simp_all add: d k lm)
    ultimately have "buffer_ring ?bs = buffer_ring bs @ take n buf"
      by (simp add: R d3 v(4) buffer_ring_def [of "bs\<lparr>bs_buf := a, bs_writepos := x, st_eof := e\<rparr>" for a x e])
    moreover have "buffer_fifo ?bs"
    proof -
      have "length mem' = length mem" using d k round(1) lm by (simp add: mem'_def)
      moreover have "j \<le> length mem" using k v(5) by simp
      ultimately show ?thesis using v d nj(2) inv by (auto simp: buffer_fifo_def buffer_inv_def)
    qed
    ultimately show ?thesis using body by auto
  qed
qed


lemma BufferStreamWrite_fifo:
  assumes inv: "buffer_fifo bs" and n: "n \<le> length buf"
    and room: "int (length (buffer_ring bs) + n) \<le> bs_size bs"
  shows "\<exists>bs'. BufferStreamWrite bs buf (int n) = Some (int n, bs') \<and> buffer_fifo bs' \<and>
    buffer_ring bs' = buffer_ring bs @ take n buf \<and> bs_size bs' = bs_size bs"
proof -
  obtain k where k: "bs_mutex bs = PM_Alive k" using inv by (auto simp: buffer_fifo_def buffer_inv_def)
  let ?bs = "bs\<lparr>bs_mutex := PM_Alive (Suc k)\<rparr>"
  obtain bs' where b: "buffer_write_body ?bs buf (int n) = Some (int n, bs')" "buffer_fifo bs'"
      "buffer_ring bs' = buffer_ring bs @ take n buf" "bs_size bs' = bs_size bs" "bs_mutex bs' = PM_Alive (Suc k)"
    using buffer_write_body_fifo [of ?bs n buf] inv n room by auto
  have "BufferStreamWrite bs buf (int n) = Some (int n, bs'\<lparr>bs_mutex := PM_Alive k\<rparr>)"
    using k b by (simp add: BufferStreamWrite_def Let_def)
  then show ?thesis
    using b by auto
qed

section \<open>Reading\<close>

text \<open>
  The paths that copy from the ring: the unread bytes do not wrap, or the read reaches round the
  end of the buffer.
\<close>

definition buffer_reads_ring :: "buffer_stream \<Rightarrow> int \<Rightarrow> bool" where
  "buffer_reads_ring bs n \<longleftrightarrow> st_eof bs \<or>
     (let r = (if bs_readpos bs = bs_size bs then 0 else bs_readpos bs)
      in r < bs_writepos bs \<or> n > bs_size bs - r)"

lemma ring_at_end: "0 < w \<Longrightarrow> w \<le> length mem \<Longrightarrow> ring mem (length mem) w False = ring mem 0 w False"
  by (simp add: ring_def)

lemma buffer_read_body_fifo:
  assumes inv: "buffer_fifo bs" and n: "n \<le> length buf" and path: "buffer_reads_ring bs (int n)"
  defines "k \<equiv> min n (length (buffer_ring bs))"
  shows "\<exists>bs'. buffer_read_body bs buf (int n) = Some (int k, take k (buffer_ring bs) @ drop k buf, bs') \<and>
    buffer_fifo bs' \<and> buffer_ring bs' = drop k (buffer_ring bs) \<and> bs_mutex bs' = bs_mutex bs"
proof (cases "st_eof bs")
  case True
  have "buffer_ring bs = []" using True by (simp add: buffer_ring_def ring_def split: option.split)
  then show ?thesis using True inv by (simp add: buffer_read_body_def k_def)
next
  case False
  have "buffer_inv bs" using inv by (simp add: buffer_fifo_def)
  then obtain mem r0 w m where v: "bs_buf bs = Some mem" "bs_size bs = int (length mem)" "0 < length mem"
    "bs_readpos bs = int r0" "r0 \<le> length mem" "bs_writepos bs = int w" "w \<le> length mem"
    "bs_mutex bs = PM_Alive m" by (rule buffer_invE)
  define r where "r = (if r0 = length mem then 0 else r0)"
  have ne: "\<not> (r0 = length mem \<and> w = 0)" using inv v False by (auto simp: buffer_fifo_def)
  have R: "buffer_ring bs = ring mem r w False"
    using v False ne ring_at_end [of w mem] by (auto simp: buffer_ring_def r_def)
  have r: "r < length mem" using v(3,5) by (auto simp: r_def)
  define b where "b = (if bs_readpos bs = bs_size bs then bs\<lparr>bs_readpos := 0\<rparr> else bs)"
  have b: "bs_buf b = Some mem" "bs_size b = int (length mem)" "bs_readpos b = int r"
    "bs_writepos b = int w" "bs_mutex b = PM_Alive m" "\<not> st_eof b"
    using v False by (auto simp: b_def r_def)
  have cond: "int n > int (length mem) - int r" if "\<not> r < w"
    using path False that v by (auto simp: buffer_reads_ring_def r_def Let_def split: if_splits)
  have unf: "buffer_read_body bs buf (int n) = do {
     (readsize, buf, bs) \<leftarrow>
       (if int r < int w then do {
          let readsize = min (int n) (int w - int r);
          buf \<leftarrow> memcpy buf 0 mem (int r) readsize;
          Some (readsize, buf, b\<lparr>bs_readpos := int r + readsize\<rparr>)
        }
        else do {
          let size1 = int (length mem) - int r;
          buf \<leftarrow> memcpy buf 0 mem (int r) size1;
          let size2 = min (int n - size1) (int w);
          buf \<leftarrow> memcpy buf size1 mem 0 size2;
          Some (size1 + size2, buf, b\<lparr>bs_readpos := size2\<rparr>)
        });
     Some (readsize, buf,
       (if readsize > 0 \<and> bs_readpos bs = bs_writepos bs then bs\<lparr>st_eof := True\<rparr> else bs))
   }"
    using cond by (simp add: buffer_read_body_def b_def [symmetric] False b Let_def)
  have L: "length (ring mem r w False) = (if r < w then w - r else length mem - r + w)"
    using length_ring [of r mem w False] r v by simp
  show ?thesis
  proof (cases "r < w")
    case True
    then have wr: "int w - int r = int (w - r)" and "k = min n (w - r)"
      using L R by (simp_all add: k_def of_nat_diff)
    then have kn: "min (int n) (int w - int r) = int k" "k \<le> w - r" "k \<le> n"
      unfolding wr by simp_all
    have c: "memcpy buf 0 mem (int r) (int k) = Some (take k (drop r mem) @ drop k buf)"
      using memcpy_from [of k buf r mem] kn n v(7) True by simp
    let ?bs = "(if 0 < k \<and> r + k = w then b\<lparr>bs_readpos := int (r + k), st_eof := True\<rparr>
      else b\<lparr>bs_readpos := int (r + k)\<rparr>)"
    have "buffer_read_body bs buf (int n) = Some (int k, take k (drop r mem) @ drop k buf, ?bs)"
      using True by (auto simp: unf kn c Let_def b)
    moreover have "buffer_ring ?bs = drop k (buffer_ring bs)"
      using ring_read_up(2) [OF True v(7) kn(2)] R b by (auto simp: buffer_ring_def nat_int_add)
    moreover have "buffer_fifo ?bs"
      using b v r True kn(2) by (auto simp: buffer_fifo_def buffer_inv_def)
    ultimately show ?thesis
      using ring_read_up(1) [OF True v(7) kn(2)] R b v by auto
  next
    case False
    then have wr: "w \<le> r" by simp
    obtain m where lm: "length mem = r + m" using r less_imp_le le_Suc_ex by blast
    have "m < n" using cond [OF False] lm by simp
    then obtain q where nq: "n = m + q" "0 < q" using less_imp_add_positive by blast
    define j where "j = min q w"
    have m: "0 < m" using r lm by simp
    have kj: "k = m + j" using L R False nq lm by (auto simp: k_def j_def min_def)
    have c1: "memcpy buf 0 mem (int r) (int m) = Some (drop r mem @ drop m buf)"
      using memcpy_from [of m buf r mem] nq n lm by simp
    have c2: "memcpy (drop r mem @ drop m buf) (int m) mem 0 (int j) =
        Some (drop r mem @ take j mem @ drop k buf)"
      using memcpy_up [of m j "drop r mem @ drop m buf" mem] nq n lm v(7) kj
      by (simp add: j_def add.commute)
    have mj: "min (int q) (int w) = int j" by (simp add: j_def)
    let ?bs = "(if j = w then b\<lparr>bs_readpos := int j, st_eof := True\<rparr> else b\<lparr>bs_readpos := int j\<rparr>)"
    have body: "buffer_read_body bs buf (int n) = Some (int k, drop r mem @ take j mem @ drop k buf, ?bs)"
      unfolding unf using False m c2 kj by (simp add: nq lm c1 mj Let_def b)
    have ring: "drop r mem @ take j mem = take k (ring mem r w False) \<and>
        buffer_ring ?bs = drop k (ring mem r w False)"
    proof (cases "j = w")
      case True
      then show ?thesis
        using ring_read_round_all [OF wr, of mem k] b lm kj by (simp add: buffer_ring_def ring_def)
    next
      case part: False
      then have jq: "j = q" "q < w" by (auto simp: j_def)
      then show ?thesis
        using ring_read_round_part [OF wr, of mem n] lm b part nq kj by (auto simp: buffer_ring_def)
    qed
    have "j \<le> w" "j = w \<or> j < length mem" using v(7) by (auto simp: j_def)
    then have "buffer_fifo ?bs"
      using b v by (auto simp: buffer_fifo_def buffer_inv_def)
    moreover have "bs_mutex ?bs = bs_mutex bs" using b v by simp
    ultimately show ?thesis using body ring unfolding R by (intro exI [of _ ?bs]) simp
  qed
qed

lemma BufferStreamRead_fifo:
  assumes inv: "buffer_fifo bs" and n: "n \<le> length buf" and path: "buffer_reads_ring bs (int n)"
  defines "k \<equiv> min n (length (buffer_ring bs))"
  shows "\<exists>bs'. BufferStreamRead bs buf (int n) = Some (int k, take k (buffer_ring bs) @ drop k buf, bs') \<and>
    buffer_fifo bs' \<and> buffer_ring bs' = drop k (buffer_ring bs)"
proof -
  obtain m where m: "bs_mutex bs = PM_Alive m" using inv by (auto simp: buffer_fifo_def buffer_inv_def)
  let ?bs = "bs\<lparr>bs_mutex := PM_Alive (Suc m)\<rparr>"
  have "buffer_reads_ring ?bs (int n)" using path by (auto simp: buffer_reads_ring_def Let_def split: if_splits)
  then obtain bs' where b: "buffer_read_body ?bs buf (int n) =
        Some (int k, take k (buffer_ring bs) @ drop k buf, bs')" "buffer_fifo bs'"
      "buffer_ring bs' = drop k (buffer_ring bs)" "bs_mutex bs' = PM_Alive (Suc m)"
    using buffer_read_body_fifo [of ?bs n buf] inv n k_def by auto
  have "BufferStreamRead bs buf (int n) =
      Some (int k, take k (buffer_ring bs) @ drop k buf, bs'\<lparr>bs_mutex := PM_Alive m\<rparr>)"
    using m b by (simp add: BufferStreamRead_def Let_def)
  then show ?thesis using b by auto
qed

section \<open>Memory safety\<close>

lemma memcpy_exists:
  assumes "0 \<le> n" "0 \<le> d" "0 \<le> s" "d + n \<le> int (length dst)" "s + n \<le> int (length src)"
  obtains r where "memcpy dst d src s n = Some r" "length r = length dst"
  using memcpy_ok [OF assms] memcpy_length by blast

lemma buffer_write_body_safe:
  assumes inv: "buffer_inv bs" and n: "0 \<le> n" "n \<le> int (length buf)"
  shows "\<exists>k bs'. buffer_write_body bs buf n = Some (k, bs') \<and> 0 \<le> k \<and> k \<le> n \<and> buffer_inv bs' \<and>
    bs_mutex bs' = bs_mutex bs"
proof -
  obtain mem r w m where v: "bs_buf bs = Some mem" "bs_size bs = int (length mem)" "0 < length mem"
    "bs_readpos bs = int r" "r \<le> length mem" "bs_writepos bs = int w" "w \<le> length mem"
    "bs_mutex bs = PM_Alive m" using inv by (rule buffer_invE)
  consider (low) "w < r" | (round) "r \<le> w" "n > int (length mem) - int w"
    | (up) "r \<le> w" "n \<le> int (length mem) - int w" by linarith
  then show ?thesis
  proof cases
    case low
    let ?k = "min n (int r - int w)"
    obtain mem' where m: "memcpy mem (int w) buf 0 ?k = Some mem'" "length mem' = length mem"
      by (rule memcpy_exists [of ?k "int w" 0 mem buf]) (use n low v(5) in auto)
    have "0 \<le> ?k" "?k \<le> n" "int w + ?k \<le> int r" using n low by auto
    then show ?thesis using low v m by (auto simp: buffer_write_body_def Let_def buffer_inv_def)
  next
    case round
    let ?a = "int (length mem) - int w"
    let ?k = "min (n - ?a) (int r)"
    obtain mem' where m: "memcpy mem (int w) buf 0 ?a = Some mem'" "length mem' = length mem"
      by (rule memcpy_exists [of ?a "int w" 0 mem buf]) (use n round v(7) in auto)
    obtain mem'' where m': "memcpy mem' 0 buf ?a ?k = Some mem''" "length mem'' = length mem"
      by (rule memcpy_exists [of ?k 0 ?a mem' buf]) (use n round v(5,7) m(2) in auto)
    have "0 \<le> ?k" "?a + ?k \<le> n" "?k \<le> int (length mem)" "0 \<le> ?a" using n round v(5,7) by auto
    then show ?thesis using round v m m' by (auto simp: buffer_write_body_def Let_def buffer_inv_def)
  next
    case up
    obtain mem' where m: "memcpy mem (int w) buf 0 n = Some mem'" "length mem' = length mem"
      by (rule memcpy_exists [of n "int w" 0 mem buf]) (use n up in auto)
    then show ?thesis using up v n by (auto simp: buffer_write_body_def Let_def buffer_inv_def)
  qed
qed

lemma buffer_read_body_safe:
  assumes inv: "buffer_inv bs" and n: "0 \<le> n" "n \<le> int (length buf)"
  shows "\<exists>k buf' bs'. buffer_read_body bs buf n = Some (k, buf', bs') \<and> 0 \<le> k \<and> k \<le> n \<and>
    length buf' = length buf \<and> buffer_inv bs' \<and> bs_mutex bs' = bs_mutex bs"
proof (cases "st_eof bs")
  case True
  then show ?thesis using inv n by (simp add: buffer_read_body_def)
next
  case False
  obtain mem r0 w m where v: "bs_buf bs = Some mem" "bs_size bs = int (length mem)" "0 < length mem"
    "bs_readpos bs = int r0" "r0 \<le> length mem" "bs_writepos bs = int w" "w \<le> length mem"
    "bs_mutex bs = PM_Alive m" using inv by (rule buffer_invE)
  define b where "b = (if bs_readpos bs = bs_size bs then bs\<lparr>bs_readpos := 0\<rparr> else bs)"
  define r where "r = (if r0 = length mem then 0 else r0)"
  have b: "bs_buf b = Some mem" "bs_size b = int (length mem)" "bs_readpos b = int r"
    "bs_writepos b = int w" "bs_mutex b = PM_Alive m" "\<not> st_eof b" and r: "r < length mem"
    using v False by (auto simp: b_def r_def)
  consider (up) "r < w" | (round) "w \<le> r" "n > int (length mem) - int r"
    | (wrong) "w \<le> r" "n \<le> int (length mem) - int r" by linarith
  then show ?thesis
  proof cases
    case up
    define k where "k = min n (int w - int r)"
    have k: "0 \<le> k" "k \<le> n" "int r + k \<le> int w" using n up by (auto simp: k_def)
    obtain buf' where m: "memcpy buf 0 mem (int r) k = Some buf'" "length buf' = length buf"
      by (rule memcpy_exists [of k 0 "int r" buf mem]) (use n k v(7) in linarith)+
    let ?b = "b\<lparr>bs_readpos := int r + k\<rparr>"
    let ?b' = "if 0 < k \<and> int r + k = int w then ?b\<lparr>st_eof := True\<rparr> else ?b"
    have "buffer_read_body bs buf n = Some (k, buf', ?b')"
      using up b m(1) by (simp add: buffer_read_body_def b_def [symmetric] False Let_def k_def [symmetric])
    moreover have "buffer_inv ?b'" "bs_mutex ?b' = bs_mutex bs"
      using k v b by (auto simp: buffer_inv_def)
    ultimately show ?thesis using k m(2) by blast
  next
    case round
    define a where "a = int (length mem) - int r"
    define k where "k = min (n - a) (int w)"
    have ak: "0 \<le> k" "a + k \<le> n" "k \<le> int w" "0 < a" "a < n" "int r + a = int (length mem)"
      using n round r by (auto simp: k_def a_def)
    obtain buf' where m: "memcpy buf 0 mem (int r) a = Some buf'" "length buf' = length buf"
      by (rule memcpy_exists [of a 0 "int r" buf mem]) (use n ak in linarith)+
    obtain buf'' where m': "memcpy buf' a mem 0 k = Some buf''" "length buf'' = length buf'"
      by (rule memcpy_exists [of k a 0 buf' mem]) (use n ak v(7) m(2) in linarith)+
    let ?b = "b\<lparr>bs_readpos := k\<rparr>"
    let ?b' = "if 0 < a + k \<and> k = int w then ?b\<lparr>st_eof := True\<rparr> else ?b"
    have "buffer_read_body bs buf n = Some (a + k, buf'', ?b')"
      using round b m(1) m'(1) ak
      by (simp add: buffer_read_body_def b_def [symmetric] False Let_def a_def [symmetric] k_def [symmetric])
    moreover have "buffer_inv ?b'" "bs_mutex ?b' = bs_mutex bs"
      using ak v b by (auto simp: buffer_inv_def)
    moreover have "0 \<le> a + k" using ak by simp
    ultimately show ?thesis using ak(2) m(2) m'(2) by metis
  next
    case wrong
    obtain mem' where m: "memcpy mem (int r) buf 0 n = Some mem'" "length mem' = length mem"
      by (rule memcpy_exists [of n "int r" 0 mem buf]) (use n wrong in auto)
    let ?b = "b\<lparr>bs_buf := Some mem', bs_readpos := int r + n\<rparr>"
    let ?b' = "if 0 < n \<and> int r + n = int w then ?b\<lparr>st_eof := True\<rparr> else ?b"
    have "buffer_read_body bs buf n = Some (n, buf, ?b')"
      using wrong b m(1) by (simp add: buffer_read_body_def b_def [symmetric] False Let_def)
    moreover have "buffer_inv ?b'" "bs_mutex ?b' = bs_mutex bs"
      using wrong n v b m(2) by (auto simp: buffer_inv_def)
    ultimately show ?thesis using n(1) by blast
  qed
qed

lemma buffer_inv_mutex: "buffer_inv bs \<Longrightarrow> buffer_inv (bs\<lparr>bs_mutex := PM_Alive k\<rparr>)"
  by (simp add: buffer_inv_def)

section \<open>Properties\<close>

text \<open>C30. Writing into a ring buffer that has room for the data appends them to the unread bytes,
  whether or not the write goes round the end of the buffer, and reports them all as written.\<close>

theorem buffer_write_appends:
  assumes "buffer_fifo bs" "n \<le> length buf" "int (length (buffer_ring bs) + n) \<le> bs_size bs"
  shows "\<exists>bs'. BufferStreamWrite bs buf (int n) = Some (int n, bs') \<and> buffer_fifo bs' \<and>
    buffer_ring bs' = buffer_ring bs @ take n buf \<and> bs_size bs' = bs_size bs"
  by (rule BufferStreamWrite_fifo [OF assms])

text \<open>A ring of four bytes that holds the bytes 3 and 4 across its end.\<close>

definition wrapped_ring :: buffer_stream where
  "wrapped_ring = \<lparr>st_eof = False, st_size = 0, bs_buf = Some [4, 0, 0, 3], bs_size = 4,
     bs_readpos = 3, bs_writepos = 1, bs_mutex = PM_Alive 0\<rparr>"

lemma wrapped_ring_fifo: "buffer_fifo wrapped_ring" "buffer_ring wrapped_ring = [3, 4]"
  by (simp_all add: wrapped_ring_def buffer_fifo_def buffer_inv_def buffer_ring_def ring_def)

theorem buffer_write_appends_witness:
  "\<exists>bs'. BufferStreamWrite wrapped_ring [5, 6] 2 = Some (2, bs') \<and> buffer_ring bs' = [3, 4, 5, 6]"
  using buffer_write_appends [OF wrapped_ring_fifo(1), of 2 "[5, 6]"]
  by (auto simp: wrapped_ring_fifo(2)) (auto simp: wrapped_ring_def)

text \<open>C31. A read on the paths that copy from the ring gives the oldest unread bytes, up to the count
  asked for, in order, leaves the rest of the caller's buffer alone and consumes what it returned;
  the end-of-stream flag is set exactly when nothing is left.\<close>

theorem buffer_read_takes_oldest:
  assumes "buffer_fifo bs" "n \<le> length buf" "buffer_reads_ring bs (int n)"
  shows "\<exists>bs'. BufferStreamRead bs buf (int n) =
      Some (int (min n (length (buffer_ring bs))),
        take n (buffer_ring bs) @ drop (min n (length (buffer_ring bs))) buf, bs') \<and>
    buffer_fifo bs' \<and> buffer_ring bs' = drop n (buffer_ring bs)"
proof -
  have "take (min n (length xs)) xs = take n xs" "drop (min n (length xs)) xs = drop n xs" for xs :: bytes
    by (simp_all add: min_def)
  with BufferStreamRead_fifo [OF assms] show ?thesis by simp
qed

theorem buffer_read_takes_oldest_witness:
  "\<exists>bs'. BufferStreamRead wrapped_ring [9, 9, 9] 3 = Some (2, [3, 4, 9], bs') \<and> buffer_ring bs' = []"
  using buffer_read_takes_oldest [OF wrapped_ring_fifo(1), of 3 "[9, 9, 9]"]
  by (auto simp: wrapped_ring_fifo(2)) (auto simp: wrapped_ring_def buffer_reads_ring_def)

text \<open>C32. On the remaining path, unread bytes that wrap and a read that does not reach the end of the
  buffer, the copy goes the wrong way: the read reports success, the caller's buffer keeps its old
  contents, and the unread bytes of the ring are overwritten with them.\<close>

theorem buffer_read_wrapped_overwrites_ring:
  assumes "\<not> st_eof bs" "bs_buf bs = Some mem" "bs_size bs = int (length mem)"
    "bs_readpos bs = int r" "bs_writepos bs \<le> int r" "r + n < length mem" "n \<le> length buf"
    "bs_mutex bs = PM_Alive k" "0 \<le> bs_writepos bs"
  shows "\<exists>bs'. BufferStreamRead bs buf (int n) = Some (int n, buf, bs') \<and>
    bs_buf bs' = Some (take r mem @ take n buf @ drop (r + n) mem) \<and> bs_readpos bs' = int (r + n)"
proof -
  have "memcpy mem (int r) buf 0 (int n) = Some (take r mem @ take n buf @ drop (r + n) mem)"
    using memcpy_up [of r n mem buf] assms by simp
  then show ?thesis
    using assms by (auto simp: BufferStreamRead_def buffer_read_body_def Let_def)
qed

theorem buffer_read_wrapped_overwrites_ring_witness:
  "\<exists>bs'. BufferStreamRead (wrapped_ring\<lparr>bs_readpos := 2\<rparr>) [9] 1 = Some (1, [9], bs') \<and>
    bs_buf bs' = Some [4, 0, 9, 3]"
  using buffer_read_wrapped_overwrites_ring [of "wrapped_ring\<lparr>bs_readpos := 2\<rparr>" "[4, 0, 0, 3]" 2 1 "[9]" 0]
  by (auto simp: wrapped_ring_def)

text \<open>For every count that fits the caller's buffer, reads and writes stay inside the ring and the
  caller's buffer, report at most the count, keep the positions inside the ring and give the mutex
  back; also when the ring is full or the copy goes the wrong way.\<close>

theorem buffer_operations_safe:
  assumes "buffer_inv bs" "0 \<le> n" "n \<le> int (length buf)"
  shows "(\<exists>k bs'. BufferStreamWrite bs buf n = Some (k, bs') \<and> 0 \<le> k \<and> k \<le> n \<and>
      buffer_inv bs' \<and> bs_mutex bs' = bs_mutex bs) \<and>
    (\<exists>k buf' bs'. BufferStreamRead bs buf n = Some (k, buf', bs') \<and> 0 \<le> k \<and> k \<le> n \<and>
      length buf' = length buf \<and> buffer_inv bs' \<and> bs_mutex bs' = bs_mutex bs)"
proof -
  obtain m where m: "bs_mutex bs = PM_Alive m" using assms(1) by (auto simp: buffer_inv_def)
  let ?bs = "bs\<lparr>bs_mutex := PM_Alive (Suc m)\<rparr>"
  have i: "buffer_inv ?bs" using assms(1) by (rule buffer_inv_mutex)
  obtain k1 b1 where w: "buffer_write_body ?bs buf n = Some (k1, b1)" "0 \<le> k1" "k1 \<le> n"
      "buffer_inv b1" "bs_mutex b1 = PM_Alive (Suc m)"
    using buffer_write_body_safe [OF i assms(2,3)] by auto
  obtain k2 buf2 b2 where r: "buffer_read_body ?bs buf n = Some (k2, buf2, b2)" "0 \<le> k2" "k2 \<le> n"
      "length buf2 = length buf" "buffer_inv b2" "bs_mutex b2 = PM_Alive (Suc m)"
    using buffer_read_body_safe [OF i assms(2,3)] by auto
  show ?thesis
    using m w r buffer_inv_mutex [of b1 m] buffer_inv_mutex [of b2 m]
    by (simp add: BufferStreamWrite_def BufferStreamRead_def Let_def)
qed

theorem buffer_operations_safe_witness:
  "(\<exists>k bs'. BufferStreamWrite wrapped_ring [1, 2, 3, 4, 5] 5 = Some (k, bs') \<and> k \<le> 5 \<and> buffer_inv bs') \<and>
   (\<exists>k buf' bs'. BufferStreamRead wrapped_ring [1, 2, 3, 4, 5] 5 = Some (k, buf', bs') \<and>
     length buf' = 5 \<and> buffer_inv bs')"
  using buffer_operations_safe [of wrapped_ring 5 "[1, 2, 3, 4, 5]"] wrapped_ring_fifo(1)
  by (auto simp: buffer_fifo_def)

text \<open>The pair of lock functions can hand out bytes that were already read: on a ring of four
  bytes, four bytes written, two consumed, an empty write completed, two consumed; all four bytes
  have been read, and the next read lock still offers four bytes.\<close>

theorem buffer_lock_offers_stale_bytes:
  "do {
     (_, bs) \<leftarrow> itcBufferStreamOpen (\<lambda>n. Some (replicate n 0)) True wrapped_ring 4;
     (_, bs) \<leftarrow> BufferStreamWrite bs [1, 2, 3, 4] 4;
     (a, _, bs) \<leftarrow> BufferStreamReadLock bs 2;
     bs \<leftarrow> BufferStreamReadUnlock bs 2;
     (b, _, bs) \<leftarrow> BufferStreamWriteLock bs 1;
     bs \<leftarrow> BufferStreamWriteUnlock bs b;
     (c, _, bs) \<leftarrow> BufferStreamReadLock bs 2;
     bs \<leftarrow> BufferStreamReadUnlock bs 2;
     (d, _, bs) \<leftarrow> BufferStreamReadLock bs 4;
     Some (a, b, c, d)
   } = Some (2, 0, 2, 4)"
  by (simp add: itcBufferStreamOpen_def itcStreamOpen_def wrapped_ring_def pthread_mutex_init_def
      BufferStreamWrite_def buffer_write_body_def BufferStreamReadLock_def BufferStreamReadUnlock_def
      BufferStreamWriteLock_def BufferStreamWriteUnlock_def memcpy_def Let_def)

end
