(* ===== verification/ITC_List_Stream.thy ===== *)
theory ITC_List_Stream
  imports ITC_Stream
begin

text \<open>
  The list stream (\<open>sdk/share/itc/itc_liststream.c\<close>): an unbounded queue in a doubly
  linked list of blocks of \<open>datasize\<close> bytes. Nodes are only ever added behind the last one and
  released together, so the chain that starts at \<open>rootnode\<close> is the list \<open>ls_nodes\<close> of
  the blocks (empty for a \<open>NULL\<close> root), and a node pointer is a position in it: \<open>next\<close> and
  \<open>prev\<close> lead to the neighbours, and two pointers agree exactly when the positions do.

  Any allocation can fail: \<open>node_ok k\<close> and \<open>data_alloc k\<close> say what the two allocations
  for node number \<open>k\<close> give.

  The lemmas relate a stream to the byte string written to it (\<open>ls_contents\<close>) and a
  position in it (\<open>ls_cursor\<close>): writes append, reads and seeks are those of a random-access
  file, as long as the end-of-stream flag has not been set; no seek clears that flag.
\<close>

record list_stream = itc_stream +
  ls_nodes :: "bytes list"
  ls_datasize :: int
  ls_readnode :: "nat option"
  ls_readindex :: int
  ls_readpos :: int
  ls_writenode :: "nat option"
  ls_writeindex :: int
  ls_writepos :: int

definition ls_data :: "list_stream \<Rightarrow> nat \<Rightarrow> bytes option" where
  "ls_data s i = (if i < length (ls_nodes s) then Some (ls_nodes s ! i) else None)"

definition ls_next :: "list_stream \<Rightarrow> nat \<Rightarrow> nat option" where
  "ls_next s i = (if i + 1 < length (ls_nodes s) then Some (i + 1) else None)"

definition ls_prev :: "nat \<Rightarrow> nat option" where
  "ls_prev i = (if i = 0 then None else Some (i - 1))"

section \<open>The operations\<close>

definition ListStreamClose :: "list_stream \<Rightarrow> (int \<times> list_stream) option" where
  "ListStreamClose s = Some (0, s\<lparr>ls_nodes := [], ls_readnode := None, ls_writenode := None\<rparr>)"

text \<open>
  The step a read and a forward seek make within a node: after \<open>k\<close> bytes, on to the next
  node at the end of this one.
\<close>

definition list_advance :: "list_stream \<Rightarrow> int \<Rightarrow> list_stream option" where
  "list_advance s k = do {
     let s = s\<lparr>ls_readpos := ls_readpos s + k\<rparr>;
     if ls_readnode s \<noteq> ls_writenode s \<and> ls_readpos s = ls_datasize s then do {
       i \<leftarrow> ls_readnode s;
       n \<leftarrow> ls_next s i;
       Some (s\<lparr>ls_readnode := Some n, ls_readindex := ls_readindex s + 1, ls_readpos := 0\<rparr>)
     }
     else Some s
   }"

text \<open>What is left to read in the current node; \<open>None\<close> is the failed assertion.\<close>

definition list_avail :: "list_stream \<Rightarrow> int option" where
  "list_avail s =
     (if ls_readnode s = ls_writenode s then
        (if ls_readpos s \<le> ls_writepos s then Some (ls_writepos s - ls_readpos s) else None)
      else Some (ls_datasize s - ls_readpos s))"

partial_function (option) list_read_loop ::
    "list_stream \<Rightarrow> bytes \<Rightarrow> int \<Rightarrow> int \<Rightarrow> (bytes \<times> int \<times> list_stream) option" where
  "list_read_loop s outbuf readsize remainsize =
     (if remainsize > 0 then do {
        availsize \<leftarrow> list_avail s;
        if ls_readnode s = ls_writenode s \<and> ls_readpos s = ls_writepos s
        then Some (outbuf, readsize, s\<lparr>st_eof := True\<rparr>)
        else do {
          let readsize2 = (if remainsize < availsize then remainsize else availsize);
          i \<leftarrow> ls_readnode s;
          data \<leftarrow> ls_data s i;
          outbuf \<leftarrow> memcpy outbuf readsize data (ls_readpos s) readsize2;
          s \<leftarrow> list_advance s readsize2;
          list_read_loop s outbuf (readsize + readsize2) (remainsize - readsize2)
        }
      }
      else Some (outbuf, readsize, s))"

definition ListStreamRead :: "list_stream \<Rightarrow> bytes \<Rightarrow> int \<Rightarrow> (int \<times> bytes \<times> list_stream) option" where
  "ListStreamRead s buf n =
     (if st_eof s then Some (0, buf, s)
      else do { (buf, readsize, s) \<leftarrow> list_read_loop s buf 0 n; Some (readsize, buf, s) })"

text \<open>The writing loop; the flag of the result is \<open>False\<close> when an allocation has failed.\<close>

partial_function (option) list_write_loop ::
    "(nat \<Rightarrow> bool) \<Rightarrow> (nat \<Rightarrow> bytes option) \<Rightarrow> list_stream \<Rightarrow> bytes \<Rightarrow> int \<Rightarrow> int \<Rightarrow>
     (bool \<times> int \<times> list_stream) option" where
  "list_write_loop node_ok data_alloc s buf writtensize remainsize =
     (if remainsize > 0 then do {
        w \<leftarrow> ls_writenode s;
        s' \<leftarrow>
          (if ls_writepos s = ls_datasize s then
             (if ls_next s w \<noteq> None then None
              else if \<not> node_ok (length (ls_nodes s)) then Some None
              else (case data_alloc (length (ls_nodes s)) of
                  None \<Rightarrow> Some None
                | Some data \<Rightarrow> Some (Some
                    (s\<lparr>ls_nodes := ls_nodes s @ [data], ls_writenode := Some (w + 1),
                       ls_writeindex := ls_writeindex s + 1, ls_writepos := 0\<rparr>))))
           else Some (Some s));
        (case s' of
           None \<Rightarrow> Some (False, writtensize, s)
         | Some s \<Rightarrow> do {
             let availsize = ls_datasize s - ls_writepos s;
             let writesize = (if remainsize < availsize then remainsize else availsize);
             w \<leftarrow> ls_writenode s;
             data \<leftarrow> ls_data s w;
             data \<leftarrow> memcpy data (ls_writepos s) buf writtensize writesize;
             let s = s\<lparr>ls_nodes := (ls_nodes s)[w := data], ls_writepos := ls_writepos s + writesize\<rparr>;
             list_write_loop node_ok data_alloc s buf (writtensize + writesize) (remainsize - writesize)
           })
      }
      else Some (True, writtensize, s))"

definition ListStreamWrite ::
    "(nat \<Rightarrow> bool) \<Rightarrow> (nat \<Rightarrow> bytes option) \<Rightarrow> list_stream \<Rightarrow> bytes \<Rightarrow> int \<Rightarrow> (int \<times> list_stream) option" where
  "ListStreamWrite node_ok data_alloc s buf n = do {
     _ \<leftarrow> ls_writenode s;
     (complete, writtensize, s) \<leftarrow> list_write_loop node_ok data_alloc s buf 0 n;
     if complete \<and> writtensize > 0
     then Some (writtensize, s\<lparr>st_eof := False, st_size := st_size s + writtensize\<rparr>)
     else Some (writtensize, s)
   }"

text \<open>Following \<open>next\<close> from the root for an absolute seek.\<close>

fun list_walk :: "list_stream \<Rightarrow> nat \<Rightarrow> nat \<Rightarrow> nat option" where
  "list_walk s node 0 = Some node"
| "list_walk s node (Suc k) = do { n \<leftarrow> ls_next s node; list_walk s n k }"

partial_function (option) list_seek_forward :: "list_stream \<Rightarrow> int \<Rightarrow> list_stream option" where
  "list_seek_forward s remainsize =
     (if remainsize > 0 then do {
        availsize \<leftarrow> list_avail s;
        if ls_readnode s = ls_writenode s \<and> ls_readpos s = ls_writepos s
        then Some (s\<lparr>st_eof := True\<rparr>)
        else do {
          let offsetsize = (if remainsize < availsize then remainsize else availsize);
          s \<leftarrow> list_advance s offsetsize;
          list_seek_forward s (remainsize - offsetsize)
        }
      }
      else Some s)"

partial_function (option) list_seek_back :: "list_stream \<Rightarrow> int \<Rightarrow> list_stream option" where
  "list_seek_back s remainsize =
     (if remainsize > 0 then do {
        i \<leftarrow> ls_readnode s;
        if ls_prev i = None \<and> ls_readindex s \<noteq> 0 then None
        else if ls_prev i = None \<and> ls_readpos s = 0 then Some s
        else do {
          s \<leftarrow> (if ls_prev i \<noteq> None \<and> ls_readpos s = 0 then
                 (if ls_readindex s > 0
                  then Some (s\<lparr>ls_readnode := ls_prev i, ls_readindex := ls_readindex s - 1,
                               ls_readpos := ls_datasize s\<rparr>)
                  else None)
               else Some s);
          let availsize = ls_readpos s;
          let offsetsize = (if remainsize < availsize then remainsize else availsize);
          list_seek_back (s\<lparr>ls_readpos := ls_readpos s - offsetsize\<rparr>) (remainsize - offsetsize)
        }
      }
      else Some s)"

definition ListStreamSeek :: "list_stream \<Rightarrow> int \<Rightarrow> int \<Rightarrow> (int \<times> list_stream) option" where
  "ListStreamSeek s offset origin =
     (if origin = SEEK_SET then
        (if offset \<ge> 0 \<and> offset < st_size s then do {
           let s = s\<lparr>ls_readindex := offset div ls_datasize s, ls_readpos := offset mod ls_datasize s\<rparr>;
           if ls_readindex s \<le> ls_writeindex s then do {
             node \<leftarrow> list_walk s 0 (nat (ls_readindex s));
             let s = s\<lparr>ls_readnode := Some node\<rparr>;
             if ls_readnode s = ls_writenode s then
               (if ls_readpos s \<le> ls_writepos s
                then Some (0, (if ls_readpos s = ls_writepos s then s\<lparr>st_eof := True\<rparr> else s))
                else None)
             else Some (0, s)
           }
           else None
         }
         else Some (-1, s))
      else if origin = SEEK_CUR then
        (if offset \<ge> 0 then
           (if ls_readindex s * ls_datasize s + ls_readpos s + offset < st_size s
            then do { s \<leftarrow> list_seek_forward s offset; Some (0, s) }
            else Some (-1, s))
         else
           (if ls_readindex s * ls_datasize s + ls_readpos s + offset \<ge> 0
            then do { s \<leftarrow> list_seek_back s (- offset); Some (0, s) }
            else Some (-1, s)))
      else if origin = SEEK_END then
        (if offset \<le> 0 \<and> st_size s + offset \<ge> 0 then do {
           let s = s\<lparr>ls_readnode := ls_writenode s, ls_readindex := ls_writeindex s,
                     ls_readpos := ls_writepos s\<rparr>;
           s \<leftarrow> list_seek_back s (- offset);
           Some (0, s)
         }
         else Some (-1, s))
      else None)"

definition ListStreamTell :: "list_stream \<Rightarrow> (int \<times> list_stream) option" where
  "ListStreamTell s = Some (ls_datasize s * ls_readindex s + ls_readpos s, s)"

definition ListStreamAvailable :: "list_stream \<Rightarrow> (int \<times> list_stream) option" where
  "ListStreamAvailable s = Some (ls_datasize s * ls_writeindex s + ls_writepos s -
     (ls_datasize s * ls_readindex s + ls_readpos s), s)"

definition list_stream_vt :: "(nat \<Rightarrow> bool) \<Rightarrow> (nat \<Rightarrow> bytes option) \<Rightarrow> list_stream itc_vt" where
  "list_stream_vt node_ok data_alloc = itcStreamOpen_vt
     \<lparr>vt_Close := ListStreamClose, vt_Read := ListStreamRead,
      vt_Write := ListStreamWrite node_ok data_alloc, vt_Seek := ListStreamSeek,
      vt_Tell := ListStreamTell, vt_Available := ListStreamAvailable\<rparr>"

definition itcListStreamOpen ::
    "(nat \<Rightarrow> bool) \<Rightarrow> (nat \<Rightarrow> bytes option) \<Rightarrow> list_stream \<Rightarrow> int \<Rightarrow> (int \<times> list_stream) option" where
  "itcListStreamOpen node_ok data_alloc s datasize =
     (if datasize > 0 then
        (let s = itcStreamOpen s in
         if \<not> node_ok 0 then Some (367, s\<lparr>ls_nodes := []\<rparr>)
         else
           (case data_alloc 0 of
              None \<Rightarrow> Some (375, s\<lparr>ls_nodes := []\<rparr>)
            | Some data \<Rightarrow> Some (0, s\<lparr>ls_nodes := [data], st_eof := True, ls_datasize := datasize,
                ls_readnode := Some 0, ls_readindex := 0, ls_readpos := 0,
                ls_writenode := Some 0, ls_writeindex := 0, ls_writepos := 0\<rparr>)))
      else None)"

section \<open>The byte string\<close>

definition ls_contents :: "list_stream \<Rightarrow> bytes" where
  "ls_contents s = take (nat (ls_datasize s * ls_writeindex s + ls_writepos s)) (concat (ls_nodes s))"

definition ls_cursor :: "list_stream \<Rightarrow> nat" where
  "ls_cursor s = nat (ls_datasize s * ls_readindex s + ls_readpos s)"

text \<open>
  The invariant, with the block size \<open>d\<close>, the read node \<open>i\<close> and the write node \<open>w\<close>.
\<close>

definition ls_at :: "list_stream \<Rightarrow> nat \<Rightarrow> nat \<Rightarrow> nat \<Rightarrow> nat \<Rightarrow> nat \<Rightarrow> bool" where
  "ls_at s d i p w q \<longleftrightarrow> ls_datasize s = int d \<and> 0 < d \<and>
     length (ls_nodes s) = Suc w \<and> (\<forall>b \<in> set (ls_nodes s). length b = d) \<and>
     ls_writenode s = Some w \<and> ls_writeindex s = int w \<and> ls_writepos s = int q \<and> q \<le> d \<and>
     ls_readnode s = Some i \<and> ls_readindex s = int i \<and> ls_readpos s = int p \<and> p \<le> d \<and>
     d * i + p \<le> d * w + q \<and> i \<le> w"

definition ls_inv :: "list_stream \<Rightarrow> bool" where
  "ls_inv s \<longleftrightarrow> (\<exists>d i p w q. ls_at s d i p w q)"

lemma length_blocks: "\<forall>b \<in> set bs. length b = d \<Longrightarrow> length (concat bs) = d * length bs"
  by (induction bs) auto

lemma block_slice:
  "\<forall>b \<in> set bs. length b = d \<Longrightarrow> i < length bs \<Longrightarrow> p + k \<le> d \<Longrightarrow>
   slice (concat bs) (d * i + p) k = slice (bs ! i) p k"
proof (induction bs arbitrary: i)
  case (Cons b bs)
  have b: "length b = d" using Cons.prems(1) by simp
  show ?case
  proof (cases i)
    case 0
    then show ?thesis using b Cons.prems(3) by (simp add: slice_def)
  next
    case (Suc j)
    have "slice (concat (b # bs)) (d * i + p) k = slice (concat bs) (d * j + p) k"
      using b Suc by (simp add: slice_def)
    then show ?thesis using Cons.IH [of j] Cons.prems Suc by simp
  qed
qed simp

lemma ls_at_contents:
  "ls_at s d i p w q \<Longrightarrow> ls_contents s = take (d * w + q) (concat (ls_nodes s)) \<and>
   length (ls_contents s) = d * w + q \<and> ls_cursor s = d * i + p"
  using length_blocks [of "ls_nodes s" d]
  by (auto simp: ls_at_def ls_contents_def ls_cursor_def nat_int_add
      nat_mult_distrib nat_add_distrib of_nat_mult [symmetric] of_nat_add [symmetric] simp del: of_nat_mult of_nat_add)


lemma ls_at_bounds: "ls_at s d i p w q \<Longrightarrow> i < w \<Longrightarrow> d * i + d \<le> d * w"
  using mult_le_mono2 [of "Suc i" w d] by (simp add: add.commute)

lemma ls_at_last: "ls_at s d w p w q \<Longrightarrow> p \<le> q"
  by (simp add: ls_at_def)

text \<open>The fields that no read and no seek changes.\<close>

definition ls_frame :: "list_stream \<Rightarrow> list_stream \<Rightarrow> bool" where
  "ls_frame s s' \<longleftrightarrow> ls_nodes s' = ls_nodes s \<and> st_size s' = st_size s"

lemma ls_frame_refl [simp]: "ls_frame s s"
  by (simp add: ls_frame_def)

lemma ls_frame_trans: "ls_frame s s' \<Longrightarrow> ls_frame s' s'' \<Longrightarrow> ls_frame s s''"
  by (simp add: ls_frame_def)

lemma ls_frame_contents: "ls_at s d i p w q \<Longrightarrow> ls_at s' d i' p' w q \<Longrightarrow> ls_frame s s' \<Longrightarrow>
  ls_contents s' = ls_contents s"
  using ls_at_contents [of s d i p w q] ls_at_contents [of s' d i' p' w q] by (simp add: ls_frame_def)

lemma list_advance_at:
  assumes at: "ls_at s d i p w q" and k: "p + k \<le> d" "i = w \<longrightarrow> p + k \<le> q"
  shows "\<exists>s' i' p'. list_advance s (int k) = Some s' \<and> ls_at s' d i' p' w q \<and>
    d * i' + p' = d * i + p + k \<and> i \<le> i' \<and> (i < w \<and> p + k = d \<longrightarrow> i' = Suc i) \<and>
    ls_frame s s' \<and> st_eof s' = st_eof s"
proof (cases "i < w \<and> p + k = d")
  case True
  let ?s = "s\<lparr>ls_readpos := 0, ls_readnode := Some (Suc i), ls_readindex := int i + 1\<rparr>"
  have "ls_datasize s = int p + int k" using at True by (simp add: ls_at_def)
  then have "list_advance s (int k) = Some ?s"
    using at True by (simp add: list_advance_def ls_at_def ls_next_def Let_def)
  moreover have "ls_at ?s d (Suc i) 0 w q"
    using at True ls_at_bounds [OF at] by (simp add: ls_at_def)
  ultimately show ?thesis using True by (intro exI [of _ ?s] exI [of _ "Suc i"] exI [of _ 0]) (simp add: ls_frame_def)
next
  case False
  let ?s = "s\<lparr>ls_readpos := int (p + k)\<rparr>"
  have c: "\<not> (i \<noteq> w \<and> int p + int k = int d)" using False at by (auto simp: ls_at_def)
  have "list_advance s (int k) = Some ?s"
    using at c by (auto simp: list_advance_def ls_at_def Let_def)
  moreover have "ls_at ?s d i (p + k) w q"
  proof -
    have "d * i + (p + k) \<le> d * w + q"
    proof (cases "i = w")
      case True
      then show ?thesis using k by simp
    next
      case False
      then have "i < w" using at by (simp add: ls_at_def)
      from ls_at_bounds [OF at this] show ?thesis using k by simp
    qed
    then show ?thesis using at k by (simp add: ls_at_def)
  qed
  ultimately show ?thesis using False by (intro exI [of _ ?s] exI [of _ i] exI [of _ "p + k"]) (simp add: ls_frame_def)
qed

text \<open>What a node offers: a piece of what is unread.\<close>

lemma list_avail_at:
  assumes at: "ls_at s d i p w q"
  shows "list_avail s = Some (int (if i = w then q - p else d - p))"
    and "ls_readnode s = ls_writenode s \<and> ls_readpos s = ls_writepos s \<longleftrightarrow> i = w \<and> p = q"
    and "(if i = w then q - p else d - p) \<le> d * w + q - (d * i + p)"
    and "i = w \<Longrightarrow> q - p = d * w + q - (d * i + p)"
proof -
  show "list_avail s = Some (int (if i = w then q - p else d - p))"
    using at by (auto simp: list_avail_def ls_at_def of_nat_diff)
  show "ls_readnode s = ls_writenode s \<and> ls_readpos s = ls_writepos s \<longleftrightarrow> i = w \<and> p = q"
    using at by (auto simp: ls_at_def)
  show "(if i = w then q - p else d - p) \<le> d * w + q - (d * i + p)"
    using at ls_at_bounds [OF at] by (cases "i = w") (auto simp: ls_at_def)
  show "i = w \<Longrightarrow> q - p = d * w + q - (d * i + p)" by simp
qed

lemma list_read_loop_result:
  assumes "ls_at s d i p w q" "r + n \<le> length out" "k = min n (d * w + q - (d * i + p))"
  shows "\<exists>s' i' p'. list_read_loop s out (int r) (int n) =
      Some (take r out @ slice (ls_contents s) (d * i + p) k @ drop (r + k) out, int (r + k), s') \<and>
    ls_at s' d i' p' w q \<and> d * i' + p' = d * i + p + k \<and> ls_frame s s' \<and>
    st_eof s' = (st_eof s \<or> k < n)"
  using assms
proof (induction "n + (w - i)" arbitrary: s i p r n out k rule: less_induct)
  case less
  note at = less.prems(1)
  show ?case
  proof (cases "n = 0")
    case True
    then show ?thesis using less.prems by (subst list_read_loop.simps) auto
  next
    case n: False
    show ?thesis
    proof (cases "i = w \<and> p = q")
      case True
      let ?s = "s\<lparr>st_eof := True\<rparr>"
      have k0: "k = 0" using True less.prems(3) by simp
      have "list_read_loop s out (int r) (int n) = Some (out, int r, ?s)"
        using n list_avail_at(1,2) [OF at] True by (subst list_read_loop.simps) simp
      moreover have "ls_at ?s d i p w q" using at by (simp add: ls_at_def)
      ultimately show ?thesis using k0 n by (intro exI [of _ ?s] exI [of _ i] exI [of _ p]) (simp add: ls_frame_def)
    next
      case False
      define a where "a = (if i = w then q - p else d - p)"
      define m where "m = min n a"
      have a: "list_avail s = Some (int a)" "a \<le> d * w + q - (d * i + p)"
        using list_avail_at(1,3) [OF at] by (simp_all add: a_def)
      have m: "p + m \<le> d" "i = w \<longrightarrow> p + m \<le> q" "m \<le> n" "m \<le> k"
        using at a(2) less.prems(3) by (auto simp: m_def a_def ls_at_def)
      have mint: "(if int n < int a then int n else int a) = int m" by (simp add: m_def min_def)
      obtain s1 i1 p1 where s1: "list_advance s (int m) = Some s1" "ls_at s1 d i1 p1 w q"
          "d * i1 + p1 = d * i + p + m" "i \<le> i1" "i < w \<and> p + m = d \<longrightarrow> i1 = Suc i"
          "ls_frame s s1" "st_eof s1 = st_eof s"
        using list_advance_at [OF at m(1,2)] by blast
      have dec: "n - m + (w - i1) < n + (w - i)"
      proof (cases "m = 0")
        case True
        then have "a = 0" using n by (simp add: m_def)
        then have "i < w" "p = d" using False at by (auto simp: a_def ls_at_def split: if_splits)
        then show ?thesis using s1(5) True by simp
      qed (use m(3) s1(4) in linarith)
      let ?data = "ls_nodes s ! i"
      let ?out = "take r out @ take m (drop p ?data) @ drop (r + m) out"
      have D: "ls_data s i = Some ?data" "length ?data = d" "ls_readnode s = Some i" "ls_readpos s = int p"
        using at by (simp_all add: ls_data_def ls_at_def)
      have piece: "take m (drop p ?data) = slice (ls_contents s) (d * i + p) m"
      proof -
        have "slice (concat (ls_nodes s)) (d * i + p) m = slice ?data p m"
          using at m(1) by (intro block_slice) (simp_all add: ls_at_def)
        moreover have "slice (take N xs) j m = slice xs j m" if "j + m \<le> N" for xs :: bytes and N j
          using that by (simp add: slice_def drop_take min_absorb2)
        moreover have "d * i + p + m \<le> d * w + q"
        proof -
          have "m \<le> d * w + q - (d * i + p)" using m(4) less.prems(3) by simp
          moreover have "d * i + p \<le> d * w + q" using at by (simp add: ls_at_def)
          ultimately show ?thesis by linarith
        qed
        ultimately show ?thesis using ls_at_contents [OF at] by (simp add: slice_def)
      qed
      have cpy: "memcpy out (int r) ?data (int p) (int m) = Some ?out"
        using memcpy_int [of r m out p ?data] less.prems(2) m D by simp
      have step: "list_read_loop s out (int r) (int n) = list_read_loop s1 ?out (int (r + m)) (int (n - m))"
        using n False list_avail_at(2) [OF at] a(1) mint D cpy s1(1) m(3)
        by (subst list_read_loop.simps) (auto simp: Let_def of_nat_diff)
      have lo: "length ?out = length out" using less.prems(2) m D by simp
      have kk: "k - m = min (n - m) (d * w + q - (d * i1 + p1))"
        unfolding s1(3) less.prems(3) by (simp only: min_diff diff_diff_left)
      have "\<exists>s' i' p'. list_read_loop s1 ?out (int (r + m)) (int (n - m)) =
          Some (take (r + m) ?out @ slice (ls_contents s1) (d * i1 + p1) (k - m) @ drop (r + m + (k - m)) ?out,
            int (r + m + (k - m)), s') \<and>
        ls_at s' d i' p' w q \<and> d * i' + p' = d * i1 + p1 + (k - m) \<and> ls_frame s1 s' \<and>
        st_eof s' = (st_eof s1 \<or> k - m < n - m)"
        by (rule less.hyps [OF dec s1(2)]) (use lo less.prems(2) m(3) kk in simp_all)
      then obtain s' i' p' where R: "list_read_loop s1 ?out (int (r + m)) (int (n - m)) =
          Some (take (r + m) ?out @ slice (ls_contents s1) (d * i1 + p1) (k - m) @ drop (r + m + (k - m)) ?out,
            int (r + m + (k - m)), s')"
        "ls_at s' d i' p' w q" "d * i' + p' = d * i1 + p1 + (k - m)" "ls_frame s1 s'"
        "st_eof s' = (st_eof s1 \<or> k - m < n - m)" by blast
      have C: "ls_contents s1 = ls_contents s" by (rule ls_frame_contents [OF at s1(2,6)])
      have km: "m + (k - m) = k" "r + m + (k - m) = r + k" using m(4) by simp_all
      have T: "take (r + m) ?out = take r out @ slice (ls_contents s) (d * i + p) m"
        using less.prems(2) m(1,3) D by (simp add: piece [symmetric])
      have E: "drop (r + k) ?out = drop (r + k) out"
        using less.prems(2) m(1,3,4) D by (simp add: add.commute)
      have S: "slice (ls_contents s) (d * i + p) m @ slice (ls_contents s) (d * i + p + m) (k - m) @ z =
          slice (ls_contents s) (d * i + p) k @ z" for z
        by (simp only: append_assoc [symmetric] slice_append km)
      have "list_read_loop s out (int r) (int n) =
          Some (take r out @ slice (ls_contents s) (d * i + p) k @ drop (r + k) out, int (r + k), s')"
        using R(1) unfolding step C s1(3) km(2) T E by (simp only: append_assoc S)
      moreover have "d * i' + p' = d * i + p + k" using R(3) s1(3) m(4) by linarith
      moreover have "ls_frame s s'" by (rule ls_frame_trans [OF s1(6) R(4)])
      moreover have "st_eof s' = (st_eof s \<or> k < n)" using R(5) s1(7) m(3,4) by auto
      ultimately show ?thesis using R(2) by blast
    qed
  qed
qed

section \<open>Writing\<close>

lemma list_new_node:
  assumes at: "ls_at s d i p w d" and b: "length b = d"
  defines "s' \<equiv> s\<lparr>ls_nodes := ls_nodes s @ [b], ls_writenode := Some (w + 1),
      ls_writeindex := ls_writeindex s + 1, ls_writepos := 0\<rparr>"
  shows "ls_at s' d i p (Suc w) 0 \<and> ls_contents s' = ls_contents s"
proof
  show at': "ls_at s' d i p (Suc w) 0"
    using at b by (auto simp: ls_at_def s'_def add.commute)
  have "length (concat (ls_nodes s)) = d * w + d"
    using at length_blocks [of "ls_nodes s" d] by (simp add: ls_at_def)
  then show "ls_contents s' = ls_contents s"
    using ls_at_contents [OF at] ls_at_contents [OF at'] by (simp add: s'_def add.commute)
qed

lemma list_write_chunk:
  assumes at: "ls_at s d i p w q" and m: "q + length x \<le> d"
  defines "s' \<equiv> s\<lparr>ls_nodes := (ls_nodes s)[w := take q (ls_nodes s ! w) @ x @ drop (q + length x) (ls_nodes s ! w)],
      ls_writepos := int (q + length x)\<rparr>"
  shows "ls_at s' d i p w (q + length x) \<and> ls_contents s' = ls_contents s @ x"
proof -
  have "length (ls_nodes s) = Suc w" using at by (simp add: ls_at_def)
  then obtain us b where n: "ls_nodes s = us @ [b]" "length us = w"
    by (cases "ls_nodes s" rule: rev_cases) auto
  have len: "\<forall>u \<in> set us. length u = d" "length b = d" using at n by (auto simp: ls_at_def)
  then have lu: "length (concat us) = d * w" using length_blocks [of us d] n(2) by simp
  have nodes: "ls_nodes s' = us @ [take q b @ x @ drop (q + length x) b]"
    using n by (simp add: s'_def list_update_append nth_append)
  have at': "ls_at s' d i p w (q + length x)"
    using at m len n nodes unfolding ls_at_def by (auto simp: s'_def)
  have "take (d * w + (q + length x)) (concat (ls_nodes s')) = concat us @ take q b @ x"
    using lu len(2) m by (simp add: nodes)
  moreover have "take (d * w + q) (concat (ls_nodes s)) = concat us @ take q b"
    using lu by (simp add: n)
  ultimately show ?thesis using at' ls_at_contents [OF at] ls_at_contents [OF at'] by simp
qed

lemma list_write_loop_result:
  assumes "ls_at s d i p w q" "r + n \<le> length buf"
    and alloc: "\<And>k. node_ok k" "\<And>k. \<exists>b. data_alloc k = Some b \<and> length b = d"
  shows "\<exists>s' w' q'. list_write_loop node_ok data_alloc s buf (int r) (int n) = Some (True, int (r + n), s') \<and>
    ls_at s' d i p w' q' \<and> ls_contents s' = ls_contents s @ slice buf r n \<and>
    st_size s' = st_size s \<and> st_eof s' = st_eof s"
  using assms(1,2)
proof (induction n arbitrary: s w q r rule: less_induct)
  case (less n)
  note at = less.prems(1)
  show ?case
  proof (cases "n = 0")
    case True
    then show ?thesis using at by (subst list_write_loop.simps) auto
  next
    case n: False
    obtain b where b: "data_alloc (Suc w) = Some b" "length b = d" using alloc(2) by blast
    define s1 where "s1 = (if q = d then s\<lparr>ls_nodes := ls_nodes s @ [b], ls_writenode := Some (w + 1),
        ls_writeindex := ls_writeindex s + 1, ls_writepos := 0\<rparr> else s)"
    obtain w1 q1 where s1: "ls_at s1 d i p w1 q1" "q1 < d" "ls_contents s1 = ls_contents s"
        "st_size s1 = st_size s" "st_eof s1 = st_eof s"
    proof (cases "q = d")
      case True
      then show thesis using list_new_node [OF _ b(2)] at that [of "Suc w" 0] by (auto simp: s1_def ls_at_def)
    next
      case False
      then have "q < d" using at by (simp add: ls_at_def)
      then show thesis using that at False by (simp add: s1_def)
    qed
    define m where "m = min n (d - q1)"
    have m: "0 < m" "m \<le> n" "q1 + m \<le> d" using n s1(2) by (auto simp: m_def)
    let ?x = "take m (drop r buf)"
    let ?data = "ls_nodes s1 ! w1"
    have lx: "length ?x = m" using less.prems(2) m by simp
    have D: "ls_data s1 w1 = Some ?data" "length ?data = d" "ls_writenode s1 = Some w1"
        "ls_writepos s1 = int q1" "ls_datasize s1 = int d"
      using s1(1) by (simp_all add: ls_data_def ls_at_def)
    let ?s2 = "s1\<lparr>ls_nodes := (ls_nodes s1)[w1 := take q1 ?data @ ?x @ drop (q1 + m) ?data],
        ls_writepos := int (q1 + m)\<rparr>"
    have s2: "ls_at ?s2 d i p w1 (q1 + m)" "ls_contents ?s2 = ls_contents s @ ?x"
      using list_write_chunk [OF s1(1), of ?x, unfolded lx] m(3) s1(3) by auto
    have cpy: "memcpy ?data (int q1) buf (int r) (int m) = Some (take q1 ?data @ ?x @ drop (q1 + m) ?data)"
      using memcpy_int [of q1 m ?data r buf] less.prems(2) m D by simp
    have dq: "int d - int q1 = int (d - q1)" using s1(2) by simp
    have mint: "(if int n < int d - int q1 then int n else int d - int q1) = int m"
      unfolding dq by (simp add: m_def min_def)
    have "list_write_loop node_ok data_alloc s buf (int r) (int n) =
        list_write_loop node_ok data_alloc s1 buf (int r) (int n)"
    proof (cases "q = d")
      case True
      then have "ls_next s w = None" "ls_writenode s = Some w" "ls_writepos s = ls_datasize s"
          "length (ls_nodes s) = Suc w" "ls_writepos s1 \<noteq> ls_datasize s1" "ls_writenode s1 = Some w1"
        using at D s1(2) by (simp_all add: ls_at_def ls_next_def)
      then show ?thesis
        using n b(1) alloc(1) True list_write_loop.simps [of node_ok data_alloc s buf "int r" "int n"]
          list_write_loop.simps [of node_ok data_alloc s1 buf "int r" "int n"]
        by (simp add: s1_def)
    qed (simp add: s1_def)
    also have "\<dots> = list_write_loop node_ok data_alloc ?s2 buf (int (r + m)) (int (n - m))"
      using n D cpy mint m(2) s1(2)
      by (subst list_write_loop.simps) (simp add: Let_def of_nat_diff cong: if_cong split del: if_split)
    finally have "list_write_loop node_ok data_alloc s buf (int r) (int n) =
        list_write_loop node_ok data_alloc ?s2 buf (int (r + m)) (int (n - m))" .
    moreover have "\<exists>s' w' q'. list_write_loop node_ok data_alloc ?s2 buf (int (r + m)) (int (n - m)) =
          Some (True, int (r + m + (n - m)), s') \<and>
        ls_at s' d i p w' q' \<and> ls_contents s' = ls_contents ?s2 @ slice buf (r + m) (n - m) \<and>
        st_size s' = st_size ?s2 \<and> st_eof s' = st_eof ?s2"
      by (rule less.IH) (use m s2(1) less.prems(2) in auto)
    moreover have "?x @ slice buf (r + m) (n - m) = slice buf r n"
      using m(2) slice_append [of buf r m "n - m"] by (simp add: slice_def)
    ultimately show ?thesis using s2(2) s1(4,5) m(2) by auto
  qed
qed

section \<open>Seeking\<close>

lemma list_seek_forward_result:
  assumes "ls_at s d i p w q" "d * i + p + n \<le> d * w + q"
  shows "\<exists>s' i' p'. list_seek_forward s (int n) = Some s' \<and> ls_at s' d i' p' w q \<and>
    d * i' + p' = d * i + p + n \<and> ls_frame s s' \<and> st_eof s' = st_eof s"
  using assms
proof (induction "n + (w - i)" arbitrary: s i p n rule: less_induct)
  case less
  note at = less.prems(1)
  show ?case
  proof (cases "n = 0")
    case True
    then show ?thesis using at by (subst list_seek_forward.simps) auto
  next
    case n: False
    have ne: "\<not> (i = w \<and> p = q)" using less.prems(2) n by auto
    define a where "a = (if i = w then q - p else d - p)"
    define m where "m = min n a"
    have a: "list_avail s = Some (int a)" using list_avail_at(1) [OF at] by (simp add: a_def)
    have m: "p + m \<le> d" "i = w \<longrightarrow> p + m \<le> q" "m \<le> n"
      using at by (auto simp: m_def a_def ls_at_def)
    have mint: "(if int n < int a then int n else int a) = int m" by (simp add: m_def min_def)
    obtain s1 i1 p1 where s1: "list_advance s (int m) = Some s1" "ls_at s1 d i1 p1 w q"
        "d * i1 + p1 = d * i + p + m" "i \<le> i1" "i < w \<and> p + m = d \<longrightarrow> i1 = Suc i"
        "ls_frame s s1" "st_eof s1 = st_eof s"
      using list_advance_at [OF at m(1,2)] by blast
    have dec: "n - m + (w - i1) < n + (w - i)"
    proof (cases "m = 0")
      case True
      then have "a = 0" using n by (simp add: m_def)
      then have "i < w" "p = d" using ne at by (auto simp: a_def ls_at_def split: if_splits)
      then show ?thesis using s1(5) True by simp
    qed (use m(3) s1(4) in linarith)
    have "list_seek_forward s (int n) = list_seek_forward s1 (int (n - m))"
      using n ne list_avail_at(2) [OF at] a mint s1(1) m(3)
      by (subst list_seek_forward.simps) (auto simp: Let_def of_nat_diff)
    moreover have "\<exists>s' i' p'. list_seek_forward s1 (int (n - m)) = Some s' \<and> ls_at s' d i' p' w q \<and>
        d * i' + p' = d * i1 + p1 + (n - m) \<and> ls_frame s1 s' \<and> st_eof s' = st_eof s1"
      by (rule less.hyps [OF dec s1(2)]) (use less.prems(2) s1(3) m(3) in auto)
    ultimately obtain s' i' p' where "list_seek_forward s (int n) = Some s'" "ls_at s' d i' p' w q"
        "d * i' + p' = d * i1 + p1 + (n - m)" "ls_frame s1 s'" "st_eof s' = st_eof s1" by auto
    moreover from this(3) have "d * i' + p' = d * i + p + n" using s1(3) m(3) by linarith
    ultimately show ?thesis using s1(7) ls_frame_trans [OF s1(6)] by metis
  qed
qed

lemma list_seek_back_result:
  assumes "ls_at s d i p w q" "n \<le> d * i + p"
  shows "\<exists>s' i' p'. list_seek_back s (int n) = Some s' \<and> ls_at s' d i' p' w q \<and>
    d * i' + p' = d * i + p - n \<and> ls_frame s s' \<and> st_eof s' = st_eof s"
  using assms
proof (induction n arbitrary: s i p rule: less_induct)
  case (less n)
  note at = less.prems(1)
  show ?case
  proof (cases "n = 0")
    case True
    then show ?thesis using at by (subst list_seek_back.simps) auto
  next
    case n: False
    have d: "0 < d" using at by (simp add: ls_at_def)
    define i1 p1 where "i1 = (if p = 0 then i - 1 else i)" and "p1 = (if p = 0 then d else p)"
    have i: "p = 0 \<Longrightarrow> 0 < i" using less.prems(2) n by (cases i) auto
    have pos: "d * i1 + p1 = d * i + p" "0 < p1" "p1 \<le> d" "i1 \<le> i"
    proof -
      show "d * i1 + p1 = d * i + p" using i by (cases i) (auto simp: i1_def p1_def)
      show "0 < p1" "p1 \<le> d" "i1 \<le> i" using d at by (simp_all add: i1_def p1_def ls_at_def)
    qed
    define m where "m = min n p1"
    have m: "0 < m" "m \<le> n" "m \<le> p1" using n pos(2) by (auto simp: m_def)
    have mint: "(if int n < int p1 then int n else int p1) = int m" by (simp add: m_def min_def)
    let ?s = "s\<lparr>ls_readnode := Some i1, ls_readindex := int i1, ls_readpos := int (p1 - m)\<rparr>"
    have at1: "ls_at ?s d i1 (p1 - m) w q"
    proof -
      have "d * i + p \<le> d * w + q" "i \<le> w" using at by (simp_all add: ls_at_def)
      then have "d * i1 + (p1 - m) \<le> d * w + q" "p1 - m \<le> d" "i1 \<le> w" using pos by linarith+
      then show ?thesis using at by (simp add: ls_at_def)
    qed
    have "list_seek_back s (int n) = list_seek_back ?s (int (n - m))"
    proof (cases "p = 0")
      case True
      then have c: "p1 = d" "i1 = i - 1" "0 < i" using i by (simp_all add: i1_def p1_def)
      show ?thesis
      proof (cases "n < d")
        case less: True
        then have "m = n" by (simp add: m_def c)
        then show ?thesis
          using n at True c less by (subst list_seek_back.simps) (simp add: ls_at_def ls_prev_def Let_def of_nat_diff)
      next
        case ge: False
        then have "m = d" by (simp add: m_def c)
        then show ?thesis
          using n at True c ge by (subst list_seek_back.simps) (simp add: ls_at_def ls_prev_def Let_def of_nat_diff)
      qed
    next
      case False
      then have c: "p1 = p" "i1 = i" by (simp_all add: i1_def p1_def)
      have prev: "ls_readnode s = Some i" "ls_readpos s = int p" "ls_readindex s = int i"
          "\<not> (ls_prev i = None \<and> int i \<noteq> 0)" using at by (auto simp: ls_at_def ls_prev_def)
      have e: "?s = s\<lparr>ls_readpos := int p - int m\<rparr>" using prev c m(3) by (simp add: of_nat_diff)
      have mp: "m = (if n < p then n else p)" by (simp add: m_def c min_def)
      have "list_seek_back s (int n) = list_seek_back (s\<lparr>ls_readpos := int p - int m\<rparr>) (int n - int m)"
        using n prev False by (subst list_seek_back.simps) (auto simp: mp Let_def)
      then show ?thesis using m(2) unfolding e by (simp add: of_nat_diff)
    qed
    moreover have "\<exists>s' i' p'. list_seek_back ?s (int (n - m)) = Some s' \<and> ls_at s' d i' p' w q \<and>
        d * i' + p' = d * i1 + (p1 - m) - (n - m) \<and> ls_frame ?s s' \<and> st_eof s' = st_eof ?s"
    proof (rule less.IH [OF _ at1])
      show "n - m < n" using m n by linarith
      show "n - m \<le> d * i1 + (p1 - m)" using m pos(1) less.prems(2) by linarith
    qed
    moreover have "d * i1 + (p1 - m) - (n - m) = d * i + p - n" using m pos(1) less.prems(2) by linarith
    ultimately show ?thesis by (auto simp: ls_frame_def)
  qed
qed


lemma list_walk_at:
  "i + k < length (ls_nodes s) \<Longrightarrow> list_walk s i k = Some (i + k)"
  by (induction k arbitrary: i) (simp_all add: ls_next_def)

text \<open>Absolute seeks, and those from the end and the current position, to a place inside.\<close>

lemma list_seek_set_result:
  assumes at: "ls_at s d i p w q" and sz: "st_size s = int T" "T = d * w + q" and t: "t < T"
  shows "\<exists>s' i' p'. ListStreamSeek s (int t) SEEK_SET = Some (0, s') \<and> ls_at s' d i' p' w q \<and>
    d * i' + p' = t \<and> ls_frame s s' \<and> st_eof s' = st_eof s"
proof -
  have d: "0 < d" "q \<le> d" using at by (simp_all add: ls_at_def)
  have split: "d * (t div d) + t mod d = t" by simp
  have le: "t div d \<le> w"
  proof (rule ccontr)
    assume "\<not> t div d \<le> w"
    then have "d * Suc w \<le> d * (t div d)" by (intro mult_le_mono2) simp
    then show False using t sz(2) d(2) split by simp
  qed
  define I P where "I = t div d" and "P = t mod d"
  have IP: "int t div int d = int I" "int t mod int d = int P" by (simp_all add: I_def P_def zdiv_int zmod_int)
  let ?s = "s\<lparr>ls_readindex := int I, ls_readpos := int P, ls_readnode := Some I\<rparr>"
  have at': "ls_at ?s d I P w q"
    using at le t sz(2) split mod_less_divisor [OF d(1), of t] by (simp add: ls_at_def I_def P_def)
  have walk: "list_walk (s\<lparr>ls_readindex := int I, ls_readpos := int P\<rparr>) 0 I = Some I"
    using list_walk_at [of 0 I "s\<lparr>ls_readindex := int I, ls_readpos := int P\<rparr>"] at le
    by (simp add: ls_at_def I_def)
  have last: "P < q" if "I = w"
  proof -
    have "d * w + P < d * w + q" using that t sz(2) split by (simp add: I_def P_def)
    then show ?thesis by simp
  qed
  have v: "ls_datasize s = int d" "ls_writeindex s = int w" "ls_writenode s = Some w" "ls_writepos s = int q"
    using at by (simp_all add: ls_at_def)
  have "ListStreamSeek s (int t) SEEK_SET = Some (0, ?s)"
    using sz(1) t le last walk by (auto simp: ListStreamSeek_def v IP I_def [symmetric] Let_def)
  moreover have "d * I + P = t" using split by (simp add: I_def P_def)
  ultimately show ?thesis using at' by (intro exI [of _ ?s] exI [of _ I] exI [of _ P]) (simp add: ls_frame_def)
qed

lemma list_seek_cur_result:
  assumes at: "ls_at s d i p w q" and sz: "st_size s = int T" "T = d * w + q"
    and t: "int N + offset = int t" "N = d * i + p" "t < T"
  shows "\<exists>s' i' p'. ListStreamSeek s offset SEEK_CUR = Some (0, s') \<and> ls_at s' d i' p' w q \<and>
    d * i' + p' = t \<and> ls_frame s s' \<and> st_eof s' = st_eof s"
proof -
  have pos: "ls_readindex s * ls_datasize s + ls_readpos s = int N"
    using at t(2) by (simp add: ls_at_def mult.commute)
  show ?thesis
  proof (cases "0 \<le> offset")
    case True
    then obtain n where n: "offset = int n" using nonneg_int_cases by blast
    then have nt: "N + n = t" using t(1) by linarith
    obtain s' i' p' where r: "list_seek_forward s (int n) = Some s'" "ls_at s' d i' p' w q"
        "d * i' + p' = N + n" "ls_frame s s'" "st_eof s' = st_eof s"
      using list_seek_forward_result [OF at, of n] nt t(2,3) sz(2) by auto
    have "ListStreamSeek s offset SEEK_CUR = Some (0, s')"
      using r(1) nt t(3) by (simp add: ListStreamSeek_def pos n sz(1))
    then show ?thesis using r nt by blast
  next
    case False
    then obtain n where n: "offset = - int n" using neg_int_cases by (metis linorder_not_le)
    then have nt: "n \<le> N" "N - n = t" "offset < 0" using t(1) False by linarith+
    obtain s' i' p' where r: "list_seek_back s (int n) = Some s'" "ls_at s' d i' p' w q"
        "d * i' + p' = N - n" "ls_frame s s'" "st_eof s' = st_eof s"
      using list_seek_back_result [OF at, of n] nt t(2) by auto
    have "ListStreamSeek s offset SEEK_CUR = Some (0, s')"
      using r(1) nt unfolding n by (simp add: ListStreamSeek_def pos)
    then show ?thesis using r nt by blast
  qed
qed

lemma list_seek_end_result:
  assumes at: "ls_at s d i p w q" and sz: "st_size s = int T" "T = d * w + q" and n: "n \<le> T"
  shows "\<exists>s' i' p'. ListStreamSeek s (- int n) SEEK_END = Some (0, s') \<and> ls_at s' d i' p' w q \<and>
    d * i' + p' = T - n \<and> ls_frame s s' \<and> st_eof s' = st_eof s"
proof -
  let ?s = "s\<lparr>ls_readnode := ls_writenode s, ls_readindex := ls_writeindex s, ls_readpos := ls_writepos s\<rparr>"
  have "ls_at ?s d w q w q" using at by (simp add: ls_at_def)
  then obtain s' i' p' where r: "list_seek_back ?s (int n) = Some s'" "ls_at s' d i' p' w q"
      "d * i' + p' = T - n" "ls_frame ?s s'" "st_eof s' = st_eof ?s"
    using list_seek_back_result [of ?s d w q w q n] n sz(2) by blast
  have "ListStreamSeek s (- int n) SEEK_END = Some (0, s')"
    using r(1) n by (simp add: ListStreamSeek_def sz(1))
  then show ?thesis using r by (auto simp: ls_frame_def intro!: exI [of _ s'])
qed

section \<open>Properties\<close>

text \<open>
  A stream in order: the invariant, the size field is the number of bytes written, and the
  end-of-stream flag is set only at the end.
\<close>

definition ls_good :: "list_stream \<Rightarrow> bool" where
  "ls_good s \<longleftrightarrow> ls_inv s \<and> st_size s = int (length (ls_contents s)) \<and>
     (st_eof s \<longrightarrow> ls_cursor s = length (ls_contents s))"

lemma ls_goodE:
  assumes "ls_good s"
  obtains d i p w q where "ls_at s d i p w q" "st_size s = int (d * w + q)"
    "length (ls_contents s) = d * w + q" "ls_cursor s = d * i + p" "ls_datasize s = int d"
    "st_eof s \<Longrightarrow> d * i + p = d * w + q"
proof -
  obtain d i p w q where at: "ls_at s d i p w q" using assms by (auto simp: ls_good_def ls_inv_def)
  from ls_at_contents [OF at] show thesis
    using at assms by (intro that [OF at]) (auto simp: ls_good_def ls_at_def)
qed

lemma ls_goodI: "ls_at s d i p w q \<Longrightarrow> st_size s = int (d * w + q) \<Longrightarrow>
  (st_eof s \<Longrightarrow> d * i + p = d * w + q) \<Longrightarrow> ls_good s"
  using ls_at_contents [of s d i p w q] unfolding ls_good_def ls_inv_def by metis

text \<open>C28. While memory lasts, a write appends all its bytes to the stream, however they fall on the
  blocks, and does not move the read position; the loop ends.\<close>

theorem list_stream_write_appends:
  assumes "ls_good s" "n \<le> length buf" "\<And>k. node_ok k"
    "\<And>k. \<exists>b. data_alloc k = Some b \<and> int (length b) = ls_datasize s"
  shows "\<exists>s'. ListStreamWrite node_ok data_alloc s buf (int n) = Some (int n, s') \<and> ls_good s' \<and>
    ls_contents s' = ls_contents s @ take n buf \<and> ls_cursor s' = ls_cursor s"
proof -
  obtain d i p w q where at: "ls_at s d i p w q" "st_size s = int (d * w + q)"
    "length (ls_contents s) = d * w + q" "ls_cursor s = d * i + p" "ls_datasize s = int d"
    "st_eof s \<Longrightarrow> d * i + p = d * w + q" using ls_goodE [OF assms(1)] by metis
  have alloc: "\<exists>b. data_alloc k = Some b \<and> length b = d" for k using assms(4) [of k] at(5) by simp
  obtain s' w' q' where l: "list_write_loop node_ok data_alloc s buf 0 (int n) = Some (True, int n, s')"
      "ls_at s' d i p w' q'" "ls_contents s' = ls_contents s @ slice buf 0 n"
      "st_size s' = st_size s" "st_eof s' = st_eof s"
    using list_write_loop_result [OF at(1), of 0 n buf node_ok data_alloc] assms(2,3) alloc by auto
  let ?s = "if 0 < n then s'\<lparr>st_eof := False, st_size := st_size s' + int n\<rparr> else s'"
  have len: "d * w' + q' = d * w + q + n"
    using ls_at_contents [OF l(2)] at(3) l(3) assms(2) by simp
  have at': "ls_at ?s d i p w' q'" using l(2) by (simp add: ls_at_def)
  have same: "ls_contents ?s = ls_contents s'" "ls_cursor ?s = ls_cursor s'"
    by (simp_all add: ls_contents_def ls_cursor_def)
  have good: "ls_good ?s"
  proof (rule ls_goodI [OF at'])
    show "st_size ?s = int (d * w' + q')" using at(2) l(4) len by simp
    show "d * i + p = d * w' + q'" if "st_eof ?s" using that at(6) l(5) len by (simp split: if_splits)
  qed
  have "ls_writenode s = Some w" using at(1) by (simp add: ls_at_def)
  then have "ListStreamWrite node_ok data_alloc s buf (int n) = Some (int n, ?s)"
    using l(1) by (simp add: ListStreamWrite_def)
  moreover have "ls_cursor ?s = ls_cursor s"
    unfolding same using ls_at_contents [OF l(2)] at(4) by simp
  moreover have "ls_contents ?s = ls_contents s @ take n buf"
    unfolding same l(3) by (simp add: slice_def)
  ultimately show ?thesis using good by blast
qed

text \<open>A stream with blocks of two bytes that holds five bytes, read up to the second.\<close>

definition five_bytes :: list_stream where
  "five_bytes = \<lparr>st_eof = False, st_size = 5, ls_nodes = [[1, 2], [3, 4], [5, 0]], ls_datasize = 2,
     ls_readnode = Some 0, ls_readindex = 0, ls_readpos = 2,
     ls_writenode = Some 2, ls_writeindex = 2, ls_writepos = 1\<rparr>"

lemma five_bytes_good: "ls_good five_bytes" "ls_contents five_bytes = [1, 2, 3, 4, 5]"
  "ls_cursor five_bytes = 2"
proof -
  have "ls_at five_bytes 2 0 2 2 1" by (auto simp: ls_at_def five_bytes_def)
  then show "ls_good five_bytes" by (rule ls_goodI) (simp_all add: five_bytes_def)
  show "ls_contents five_bytes = [1, 2, 3, 4, 5]" "ls_cursor five_bytes = 2"
    by (simp_all add: ls_contents_def ls_cursor_def five_bytes_def)
qed

theorem list_stream_write_appends_witness:
  "\<exists>s'. ListStreamWrite (\<lambda>_. True) (\<lambda>_. Some [0, 0]) five_bytes [6, 7, 8] 3 = Some (3, s') \<and>
    ls_contents s' = [1, 2, 3, 4, 5, 6, 7, 8]"
  using list_stream_write_appends [OF five_bytes_good(1), of 3 "[6, 7, 8]" "\<lambda>_. True" "\<lambda>_. Some [0, 0]"]
  by (auto simp: five_bytes_good(2)) (auto simp: five_bytes_def)

text \<open>C27. A read gives the bytes that follow the read position, across as many blocks as needed, up to
  the count asked for or the end, and moves the position behind them; no assertion of the code
  fails and the loop ends.\<close>

theorem list_stream_read_follows_cursor:
  assumes "ls_good s" "n \<le> length buf"
    and "k = min n (length (ls_contents s) - ls_cursor s)"
  shows "\<exists>s'. ListStreamRead s buf (int n) =
      Some (int k, slice (ls_contents s) (ls_cursor s) k @ drop k buf, s') \<and>
    ls_good s' \<and> ls_contents s' = ls_contents s \<and> ls_cursor s' = ls_cursor s + k"
proof -
  obtain d i p w q where at: "ls_at s d i p w q" "st_size s = int (d * w + q)"
    "length (ls_contents s) = d * w + q" "ls_cursor s = d * i + p" "ls_datasize s = int d"
    "st_eof s \<Longrightarrow> d * i + p = d * w + q" using ls_goodE [OF assms(1)] by metis
  show ?thesis
  proof (cases "st_eof s")
    case True
    then have "k = 0" using at(3,4,6) assms(3) by simp
    then show ?thesis using True assms(1) by (simp add: ListStreamRead_def)
  next
    case False
    have k: "k = min n (d * w + q - (d * i + p))" using assms(3) at(3,4) by simp
    obtain s' i' p' where r: "list_read_loop s buf 0 (int n) =
          Some (slice (ls_contents s) (d * i + p) k @ drop k buf, int k, s')"
        "ls_at s' d i' p' w q" "d * i' + p' = d * i + p + k" "ls_frame s s'" "st_eof s' = (k < n)"
      using list_read_loop_result [OF at(1), of 0 n buf k] assms(2) k False by auto
    have "ls_good s'"
    proof (rule ls_goodI [OF r(2)])
      show "st_size s' = int (d * w + q)" using r(4) at(2) by (simp add: ls_frame_def)
      show "d * i' + p' = d * w + q" if "st_eof s'"
      proof -
        have "k = d * w + q - (d * i + p)" using that r(5) k by linarith
        moreover have "d * i + p \<le> d * w + q" using at(1) by (simp add: ls_at_def)
        ultimately show ?thesis using r(3) by linarith
      qed
    qed
    moreover have "ls_contents s' = ls_contents s" by (rule ls_frame_contents [OF at(1) r(2,4)])
    moreover have "ls_cursor s' = ls_cursor s + k" using ls_at_contents [OF r(2)] r(3) at(4) by simp
    ultimately show ?thesis using False r(1) at(4) by (simp add: ListStreamRead_def)
  qed
qed

theorem list_stream_read_follows_cursor_witness:
  "\<exists>s'. ListStreamRead five_bytes [9, 9, 9, 9] 4 = Some (3, [3, 4, 5, 9], s') \<and> ls_cursor s' = 5"
proof -
  have "\<exists>s'. ListStreamRead five_bytes [9, 9, 9, 9] (int 4) =
      Some (int 3, slice (ls_contents five_bytes) (ls_cursor five_bytes) 3 @ drop 3 [9, 9, 9, 9], s') \<and>
    ls_good s' \<and> ls_contents s' = ls_contents five_bytes \<and> ls_cursor s' = ls_cursor five_bytes + 3"
    by (rule list_stream_read_follows_cursor [OF five_bytes_good(1)]) (simp_all add: five_bytes_good)
  then obtain s' where "ListStreamRead five_bytes [9, 9, 9, 9] 4 = Some (3, [3, 4, 5, 9], s')" "ls_cursor s' = 5"
    by (auto simp: five_bytes_good(2,3) slice_def)
  then show ?thesis by blast
qed



text \<open>After a read that met the end, no seek makes the bytes readable again: on a stream of three
  bytes that has been read to the end and rewound, the position is 0 and three bytes are
  reported as available, but a read returns nothing.\<close>

theorem list_stream_rewound_reads_nothing:
  "do {
     (_, s) \<leftarrow> itcListStreamOpen (\<lambda>_. True) (\<lambda>_. Some [0, 0]) five_bytes 2;
     (a, s) \<leftarrow> ListStreamWrite (\<lambda>_. True) (\<lambda>_. Some [0, 0]) s [1, 2, 3] 3;
     (b, _, s) \<leftarrow> ListStreamRead s [0, 0, 0, 0] 4;
     (c, s) \<leftarrow> ListStreamSeek s 0 SEEK_SET;
     (d, s) \<leftarrow> ListStreamTell s;
     (e, s) \<leftarrow> ListStreamAvailable s;
     (f, _, s) \<leftarrow> ListStreamRead s [0, 0, 0, 0] 4;
     Some (a, b, c, d, e, f)
   } = Some (3, 3, 0, 0, 3, 0)"
  by (simp add: itcListStreamOpen_def itcStreamOpen_def ListStreamWrite_def list_write_loop.simps
      ListStreamRead_def list_read_loop.simps list_avail_def list_advance_def ListStreamSeek_def
      ListStreamTell_def ListStreamAvailable_def ls_data_def ls_next_def memcpy_def five_bytes_def Let_def)

text \<open>A write that runs out of memory leaves the bytes it has stored out of the stream's size: two
  of three bytes are stored and reported, the size stays 0, and even a seek to the start fails.\<close>

theorem list_stream_failed_write_loses_size:
  "do {
     (_, s) \<leftarrow> itcListStreamOpen (\<lambda>k. k = 0) (\<lambda>_. Some [0, 0]) five_bytes 2;
     (a, s) \<leftarrow> ListStreamWrite (\<lambda>k. k = 0) (\<lambda>_. Some [0, 0]) s [1, 2, 3] 3;
     (b, s) \<leftarrow> ListStreamAvailable s;
     (c, s) \<leftarrow> ListStreamSeek s 0 SEEK_SET;
     Some (a, b, st_size s, c, ls_contents s)
   } = Some (2, 2, 0, -1, [1, 2])"
  by (simp add: itcListStreamOpen_def itcStreamOpen_def ListStreamWrite_def list_write_loop.simps
      ListStreamSeek_def ListStreamAvailable_def ls_contents_def ls_data_def ls_next_def memcpy_def
      five_bytes_def Let_def)

end
