(* ===== verification/ITH_List.thy ===== *)
theory ITH_List
  imports Prelude
begin

text \<open>
  The doubly linked lists of the hardware library (\<open>sdk/driver/ith/ith_utility.c\<close>). A list is
  a node of the same type as its members: its \<open>next\<close> is the first member, its \<open>prev\<close> the
  last one. The first member points back to the list, the last one has no successor.

  The links are two maps over nodes of any type. Following a null pointer is undefined. The abstract
  view is the list of the members; every operation refines the list operation of its name.
\<close>

record 'a links =
  next_of :: "'a \<Rightarrow> 'a option"
  prev_of :: "'a \<Rightarrow> 'a option"

definition set_next :: "'a \<Rightarrow> 'a option \<Rightarrow> 'a links \<Rightarrow> 'a links" where
  "set_next x p h = h\<lparr>next_of := (next_of h)(x := p)\<rparr>"

definition set_prev :: "'a \<Rightarrow> 'a option \<Rightarrow> 'a links \<Rightarrow> 'a links" where
  "set_prev x p h = h\<lparr>prev_of := (prev_of h)(x := p)\<rparr>"

section \<open>The operations\<close>

definition ithListPushFront :: "'a \<Rightarrow> 'a \<Rightarrow> 'a links \<Rightarrow> 'a links" where
  "ithListPushFront l n h =
     (let h = (case next_of h l of
                 None \<Rightarrow> set_next n None (set_prev l (Some n) h)
               | Some first \<Rightarrow> set_prev first (Some n) (set_next n (Some first) h))
      in set_prev n (Some l) (set_next l (Some n) h))"

definition ithListPushBack :: "'a \<Rightarrow> 'a \<Rightarrow> 'a links \<Rightarrow> 'a links" where
  "ithListPushBack l n h =
     (let h = (case prev_of h l of
                 None \<Rightarrow> set_prev n (Some l) (set_next l (Some n) h)
               | Some tail \<Rightarrow> set_next tail (Some n) (set_prev n (Some tail) h))
      in set_next n None (set_prev l (Some n) h))"

definition ithListInsertBefore :: "'a \<Rightarrow> 'a \<Rightarrow> 'a \<Rightarrow> 'a links \<Rightarrow> 'a links option" where
  "ithListInsertBefore l m n h = do {
     let h = set_next n (Some m) (set_prev n (prev_of h m) h);
     before \<leftarrow> prev_of h m;
     let h = set_next before (Some n) h;
     Some (set_prev m (Some n) h)
   }"

definition ithListInsertAfter :: "'a \<Rightarrow> 'a \<Rightarrow> 'a \<Rightarrow> 'a links \<Rightarrow> 'a links" where
  "ithListInsertAfter l m n h =
     (let h = set_prev n (Some m) (set_next n (next_of h m) h);
          h = (case next_of h m of Some after \<Rightarrow> set_prev after (Some n) h | None \<Rightarrow> set_prev l (Some n) h)
      in set_next m (Some n) h)"

definition ithListRemove :: "'a \<Rightarrow> 'a \<Rightarrow> 'a links \<Rightarrow> 'a links option" where
  "ithListRemove l n h = do {
     let h = (if prev_of h l = Some n
              then set_prev l (if prev_of h n = Some l then None else prev_of h n) h else h);
     let h = (case next_of h n of Some after \<Rightarrow> set_prev after (prev_of h n) h | None \<Rightarrow> h);
     before \<leftarrow> prev_of h n;
     Some (set_next before (next_of h n) h)
   }"

text \<open>The destructor works on links and a state of its own.\<close>

partial_function (option) clear_loop ::
    "('a \<Rightarrow> 'a links \<times> 's \<Rightarrow> ('a links \<times> 's) option) \<Rightarrow> 'a option \<Rightarrow> 'a links \<times> 's \<Rightarrow> ('a links \<times> 's) option" where
  "clear_loop dtor q hs =
     (case q of
        None \<Rightarrow> Some hs
      | Some p \<Rightarrow> do {
          let q = next_of (fst hs) p;
          hs \<leftarrow> dtor p hs;
          clear_loop dtor q hs
        })"

definition ithListClear ::
    "'a \<Rightarrow> ('a \<Rightarrow> 'a links \<times> 's \<Rightarrow> ('a links \<times> 's) option) option \<Rightarrow> 'a links \<times> 's \<Rightarrow> ('a links \<times> 's) option" where
  "ithListClear l dtor hs = do {
     (h, s) \<leftarrow> (case dtor of Some dtor \<Rightarrow> clear_loop dtor (next_of (fst hs) l) hs | None \<Rightarrow> Some hs);
     Some (set_prev l None (set_next l None h), s)
   }"

section \<open>The members of a list\<close>

text \<open>
  From \<open>p\<close> on, the chain of successors is \<open>xs\<close>, and every member points back to the one
  before.
\<close>

fun chain :: "'a links \<Rightarrow> 'a \<Rightarrow> 'a list \<Rightarrow> bool" where
  "chain h p [] \<longleftrightarrow> next_of h p = None"
| "chain h p (x # xs) \<longleftrightarrow> next_of h p = Some x \<and> prev_of h x = Some p \<and> chain h x xs"

definition dlist :: "'a links \<Rightarrow> 'a \<Rightarrow> 'a list \<Rightarrow> bool" where
  "dlist h l xs \<longleftrightarrow> chain h l xs \<and> prev_of h l = (if xs = [] then None else Some (last xs)) \<and> distinct (l # xs)"

lemma set_links [simp]:
  "next_of (set_next x p h) = (next_of h)(x := p)" "prev_of (set_next x p h) = prev_of h"
  "prev_of (set_prev x p h) = (prev_of h)(x := p)" "next_of (set_prev x p h) = next_of h"
  by (simp_all add: set_next_def set_prev_def)

text \<open>A chain is one piece up to a member and the chain from there.\<close>

fun piece :: "'a links \<Rightarrow> 'a \<Rightarrow> 'a list \<Rightarrow> 'a \<Rightarrow> bool" where
  "piece h p [] q \<longleftrightarrow> next_of h p = Some q \<and> prev_of h q = Some p"
| "piece h p (x # xs) q \<longleftrightarrow> next_of h p = Some x \<and> prev_of h x = Some p \<and> piece h x xs q"

lemma chain_append: "chain h p (xs @ q # ys) \<longleftrightarrow> piece h p xs q \<and> chain h q ys"
  by (induction xs arbitrary: p) auto

lemma chain_cong:
  "(\<And>x. x \<in> set (p # xs) \<Longrightarrow> next_of h' x = next_of h x) \<Longrightarrow> (\<And>x. x \<in> set xs \<Longrightarrow> prev_of h' x = prev_of h x) \<Longrightarrow>
   chain h' p xs = chain h p xs"
  by (induction xs arbitrary: p) auto

lemma piece_cong:
  "(\<And>x. x \<in> set (p # xs) \<Longrightarrow> next_of h' x = next_of h x) \<Longrightarrow>
   (\<And>x. x \<in> set (xs @ [q]) \<Longrightarrow> prev_of h' x = prev_of h x) \<Longrightarrow> piece h' p xs q = piece h p xs q"
  by (induction xs arbitrary: p) auto

text \<open>The predecessor of a member.\<close>

lemma piece_last: "piece h p xs q \<Longrightarrow> prev_of h q = Some (last (p # xs)) \<and> next_of h (last (p # xs)) = Some q"
  by (induction xs arbitrary: p) auto

text \<open>Changing the last pointer of a piece and the back pointer it meets.\<close>

lemma piece_end:
  "piece h p xs q \<Longrightarrow> distinct (p # xs) \<Longrightarrow> q' \<notin> set xs \<Longrightarrow>
   (\<And>x. x \<in> set (p # xs) \<Longrightarrow> next_of h' x = ((next_of h)(last (p # xs) := Some q')) x) \<Longrightarrow>
   (\<And>x. x \<in> set xs \<Longrightarrow> prev_of h' x = prev_of h x) \<Longrightarrow> prev_of h' q' = Some (last (p # xs)) \<Longrightarrow>
   piece h' p xs q'"
  by (induction xs arbitrary: p) (auto split: if_splits)

lemma piece_chain:
  "piece h p xs q \<Longrightarrow> distinct (p # xs) \<Longrightarrow> next_of h' = (next_of h)(last (p # xs) := None) \<Longrightarrow>
   (\<And>x. x \<in> set xs \<Longrightarrow> prev_of h' x = prev_of h x) \<Longrightarrow> chain h' p xs"
  by (induction xs arbitrary: p) (auto split: if_splits)

section \<open>The operations refine those of lists\<close>

text \<open>What an operation on a list leaves alone.\<close>

definition links_same :: "'a set \<Rightarrow> 'a links \<Rightarrow> 'a links \<Rightarrow> bool" where
  "links_same A h h' \<longleftrightarrow> (\<forall>x. x \<notin> A \<longrightarrow> next_of h' x = next_of h x \<and> prev_of h' x = prev_of h x)"

lemma push_front:
  assumes "dlist h l xs" "n \<notin> set (l # xs)"
  shows "dlist (ithListPushFront l n h) l (n # xs) \<and> links_same (set (l # n # xs)) h (ithListPushFront l n h)"
proof (cases xs)
  case Nil
  then show ?thesis using assms by (auto simp: dlist_def ithListPushFront_def links_same_def)
next
  case (Cons x ys)
  have "chain (ithListPushFront l n h) x ys = chain h x ys"
    by (rule chain_cong) (use assms Cons in \<open>auto simp: dlist_def ithListPushFront_def\<close>)
  then show ?thesis using assms Cons by (auto simp: dlist_def ithListPushFront_def links_same_def)
qed

lemma push_back:
  assumes "dlist h l xs" "n \<notin> set (l # xs)"
  shows "dlist (ithListPushBack l n h) l (xs @ [n]) \<and> links_same (set (l # n # xs)) h (ithListPushBack l n h)"
proof (cases xs rule: rev_cases)
  case Nil
  then show ?thesis using assms by (auto simp: dlist_def ithListPushBack_def links_same_def)
next
  case (snoc ys y)
  let ?h = "ithListPushBack l n h"
  have at: "piece h l ys y" "prev_of h l = Some y" using assms(1) snoc by (auto simp: dlist_def chain_append)
  have "piece ?h l ys y = piece h l ys y"
    by (rule piece_cong) (use assms snoc in \<open>auto simp: dlist_def ithListPushBack_def Let_def\<close>)
  then have "chain ?h l (ys @ y # [n])"
    using at assms snoc by (auto simp: dlist_def chain_append ithListPushBack_def Let_def)
  then show ?thesis
    using assms snoc at by (auto simp: dlist_def ithListPushBack_def Let_def links_same_def)
qed

lemma insert_before:
  assumes "dlist h l (as @ m # bs)" "n \<notin> set (l # as @ m # bs)"
  shows "\<exists>h'. ithListInsertBefore l m n h = Some h' \<and> dlist h' l (as @ n # m # bs) \<and>
    links_same (set (l # n # as @ m # bs)) h h'"
proof -
  let ?p = "last (l # as)"
  have at: "piece h l as m" "chain h m bs" "prev_of h m = Some ?p"
    using assms(1) by (auto simp: dlist_def chain_append dest: piece_last)
  let ?h = "set_prev m (Some n) (set_next ?p (Some n) (set_next n (Some m) (set_prev n (Some ?p) h)))"
  have p: "?p \<in> set (l # as)" by (rule last_in_set) simp
  have ne: "?p \<noteq> n" "?p \<noteq> m" "?p \<notin> set bs" using p assms by (auto simp: dlist_def)
  have "ithListInsertBefore l m n h = Some ?h"
    using at(3) assms(2) by (simp add: ithListInsertBefore_def)
  moreover have "chain ?h m bs = chain h m bs"
    by (rule chain_cong) (use assms ne in \<open>auto simp: dlist_def\<close>)
  moreover have "piece ?h l as n"
    by (rule piece_end [OF at(1)]) (use assms ne in \<open>auto simp: dlist_def\<close>)
  ultimately show ?thesis
    using at assms p ne by (auto simp: dlist_def chain_append links_same_def split: if_splits)
qed

lemma insert_after:
  assumes "dlist h l (as @ m # bs)" "n \<notin> set (l # as @ m # bs)"
  shows "dlist (ithListInsertAfter l m n h) l (as @ m # n # bs) \<and>
    links_same (set (l # n # as @ m # bs)) h (ithListInsertAfter l m n h)"
proof -
  let ?h = "ithListInsertAfter l m n h"
  have at: "piece h l as m" "chain h m bs" using assms(1) by (auto simp: dlist_def chain_append)
  have "piece ?h l as m = piece h l as m"
  proof (rule piece_cong)
    show "next_of ?h x = next_of h x" if "x \<in> set (l # as)" for x
      using assms that by (auto simp: dlist_def ithListInsertAfter_def Let_def split: option.splits)
    have "next_of h m \<noteq> Some x" if "x \<in> set (as @ [m])" for x
      using at(2) assms(1) that by (cases bs) (auto simp: dlist_def)
    then show "prev_of ?h x = prev_of h x" if "x \<in> set (as @ [m])" for x
      using assms that by (auto simp: dlist_def ithListInsertAfter_def Let_def split: option.splits)
  qed
  moreover have "chain ?h m (n # bs)"
  proof (cases bs)
    case Nil
    then show ?thesis using at assms by (auto simp: dlist_def ithListInsertAfter_def Let_def)
  next
    case (Cons b cs)
    have "chain ?h b cs = chain h b cs"
      by (rule chain_cong) (use assms at Cons in \<open>auto simp: dlist_def ithListInsertAfter_def Let_def\<close>)
    then show ?thesis using at assms Cons by (auto simp: dlist_def ithListInsertAfter_def Let_def)
  qed
  ultimately show ?thesis
    using at assms by (cases bs) (auto simp: dlist_def chain_append links_same_def ithListInsertAfter_def Let_def)
qed

lemma remove_node:
  assumes "dlist h l (as @ n # bs)"
  shows "\<exists>h'. ithListRemove l n h = Some h' \<and> dlist h' l (as @ bs) \<and> links_same (set (l # as @ bs)) h h'"
proof -
  let ?p = "last (l # as)"
  have at: "piece h l as n" "chain h n bs" "prev_of h n = Some ?p"
    using assms by (auto simp: dlist_def chain_append dest: piece_last)
  have p: "?p \<in> set (l # as)" by (rule last_in_set) simp
  have ne: "?p \<noteq> n" "?p \<notin> set bs" using p assms by (auto simp: dlist_def)
  show ?thesis
  proof (cases bs)
    case Nil
    let ?h = "set_next ?p None (set_prev l (if as = [] then None else Some ?p) h)"
    have "prev_of h l = Some n" using assms Nil by (simp add: dlist_def)
    then have run: "ithListRemove l n h = Some ?h"
      using at assms Nil by (auto simp: ithListRemove_def dlist_def)
    have "chain ?h l as"
      by (rule piece_chain [OF at(1)]) (use assms in \<open>auto simp: dlist_def\<close>)
    then show ?thesis
      using run assms Nil p by (auto simp: dlist_def links_same_def)
  next
    case (Cons b cs)
    let ?h = "set_next ?p (Some b) (set_prev b (Some ?p) h)"
    have "prev_of h l \<noteq> Some n" using assms Cons by (auto simp: dlist_def)
    then have run: "ithListRemove l n h = Some ?h"
      using at Cons by (simp add: ithListRemove_def)
    have "chain ?h b cs = chain h b cs"
      by (rule chain_cong) (use assms ne Cons in \<open>auto simp: dlist_def\<close>)
    moreover have "piece ?h l as b"
      by (rule piece_end [OF at(1)]) (use assms ne Cons in \<open>auto simp: dlist_def\<close>)
    ultimately show ?thesis
      using run assms Cons at p ne by (auto simp: dlist_def chain_append links_same_def)
  qed
qed

text \<open>Clearing: the destructor sees every member, in order, though it may overwrite the links of its own.\<close>

lemma clear_loop_fold:
  assumes "chain h l xs" "distinct xs"
    and "next_of h l = p" "\<And>x. x \<in> set xs \<Longrightarrow> next_of (fst hs) x = next_of h x"
    and dtor: "\<And>p h s. \<exists>h'. dtor p (h, s) = Some (h', f p s) \<and> (\<forall>x. x \<noteq> p \<longrightarrow> next_of h' x = next_of h x)"
  shows "\<exists>h'. clear_loop dtor p hs = Some (h', fold f xs (snd hs))"
  using assms(1-4)
proof (induction xs arbitrary: l p hs)
  case Nil
  then show ?case by (subst clear_loop.simps) (auto intro: exI [of _ "fst hs"])
next
  case (Cons x xs)
  obtain h1 where h1: "dtor x (fst hs, snd hs) = Some (h1, f x (snd hs))"
      "\<forall>y. y \<noteq> x \<longrightarrow> next_of h1 y = next_of (fst hs) y"
    using dtor by blast
  have step: "clear_loop dtor p hs = clear_loop dtor (next_of h x) (h1, f x (snd hs))"
    using Cons.prems h1(1) by (subst clear_loop.simps) auto
  have same: "next_of h1 y = next_of h y" if "y \<in> set xs" for y
    using h1(2) Cons.prems(2,4) that by (metis distinct.simps(2) list.set_intros(2))
  have "\<exists>h'. clear_loop dtor (next_of h x) (h1, f x (snd hs)) = Some (h', fold f xs (snd (h1, f x (snd hs))))"
    by (rule Cons.IH [of x]) (use Cons.prems same in auto)
  then show ?case using step by simp
qed

lemma clear_list:
  assumes "dlist h l xs"
    and dtor: "\<And>p h s. \<exists>h'. dtor p (h, s) = Some (h', f p s) \<and> (\<forall>x. x \<noteq> p \<longrightarrow> next_of h' x = next_of h x)"
  shows "\<exists>h'. ithListClear l (Some dtor) (h, s) = Some (h', fold f xs s) \<and> dlist h' l []"
proof -
  obtain h1 where "clear_loop dtor (next_of h l) (h, s) = Some (h1, fold f xs (snd (h, s)))"
    using clear_loop_fold [of h l xs "next_of h l" "(h, s)" dtor f] assms by (auto simp: dlist_def)
  then show ?thesis by (simp add: ithListClear_def dlist_def)
qed

section \<open>Property of the lists\<close>

datatype 'a list_op = PushFront 'a | PushBack 'a | InsertBefore 'a 'a | InsertAfter 'a 'a | Remove 'a

fun list_call :: "'a \<Rightarrow> 'a list_op \<Rightarrow> 'a links \<Rightarrow> 'a links option" where
  "list_call l (PushFront n) h = Some (ithListPushFront l n h)"
| "list_call l (PushBack n) h = Some (ithListPushBack l n h)"
| "list_call l (InsertBefore m n) h = ithListInsertBefore l m n h"
| "list_call l (InsertAfter m n) h = Some (ithListInsertAfter l m n h)"
| "list_call l (Remove n) h = ithListRemove l n h"

text \<open>The operations on the members, and when they are allowed.\<close>

fun list_spec :: "'a list_op \<Rightarrow> 'a list \<Rightarrow> 'a list" where
  "list_spec (PushFront n) xs = n # xs"
| "list_spec (PushBack n) xs = xs @ [n]"
| "list_spec (InsertBefore m n) xs = concat (map (\<lambda>x. if x = m then [n, x] else [x]) xs)"
| "list_spec (InsertAfter m n) xs = concat (map (\<lambda>x. if x = m then [x, n] else [x]) xs)"
| "list_spec (Remove n) xs = removeAll n xs"

fun list_pre :: "'a list_op \<Rightarrow> 'a \<Rightarrow> 'a list \<Rightarrow> bool" where
  "list_pre (PushFront n) l xs \<longleftrightarrow> n \<notin> set (l # xs)"
| "list_pre (PushBack n) l xs \<longleftrightarrow> n \<notin> set (l # xs)"
| "list_pre (InsertBefore m n) l xs \<longleftrightarrow> m \<in> set xs \<and> n \<notin> set (l # xs)"
| "list_pre (InsertAfter m n) l xs \<longleftrightarrow> m \<in> set xs \<and> n \<notin> set (l # xs)"
| "list_pre (Remove n) l xs \<longleftrightarrow> n \<in> set xs"

lemma concat_map_other:
  "m \<notin> set xs \<Longrightarrow> concat (map (\<lambda>x. if x = m then f x else [x]) xs) = xs"
  by (induction xs) auto

lemma list_call_refines:
  assumes "dlist h l xs" "list_pre op l xs"
  shows "\<exists>h'. list_call l op h = Some h' \<and> dlist h' l (list_spec op xs) \<and>
    links_same (insert l (set xs \<union> set (list_spec op xs))) h h'"
proof -
  have dist: "distinct xs" using assms(1) by (simp add: dlist_def)
  show ?thesis
  proof (cases op)
    case (PushFront n)
    then show ?thesis using push_front [of h l xs n] assms by (auto simp: insert_commute)
  next
    case (PushBack n)
    then show ?thesis using push_back [of h l xs n] assms by (auto simp: insert_commute)
  next
    case (InsertBefore m n)
    then obtain as bs where xs: "xs = as @ m # bs" using assms(2) by (auto dest: split_list)
    have "list_spec op xs = as @ n # m # bs"
      using dist InsertBefore by (simp add: xs concat_map_other)
    then show ?thesis
      using insert_before [of h l as m bs n] assms InsertBefore by (auto simp: xs insert_commute Un_commute)
  next
    case (InsertAfter m n)
    then obtain as bs where xs: "xs = as @ m # bs" using assms(2) by (auto dest: split_list)
    have "list_spec op xs = as @ m # n # bs"
      using dist InsertAfter by (simp add: xs concat_map_other)
    then show ?thesis
      using insert_after [of h l as m bs n] assms InsertAfter by (auto simp: xs insert_commute Un_commute)
  next
    case (Remove n)
    then obtain as bs where xs: "xs = as @ n # bs" using assms(2) by (auto dest: split_list)
    have "list_spec op xs = as @ bs" using dist Remove by (auto simp: xs)
    then show ?thesis
      using remove_node [of h l as n bs] assms Remove by (auto simp: xs links_same_def)
  qed
qed

text \<open>
  C40. The operations of the doubly linked lists refine those of lists: on a well-formed list of
  members, pushing, inserting and removing a node end without following a null pointer, give a well-formed list with
  the members the list operation of the same name gives, and change the links of no other node.
\<close>

theorem ith_list_operations_refine:
  assumes "dlist h l xs" "list_pre op l xs"
  shows "\<exists>h'. list_call l op h = Some h' \<and> dlist h' l (list_spec op xs) \<and>
    links_same (insert l (set xs \<union> set (list_spec op xs))) h h'"
  by (rule list_call_refines [OF assms])

theorem ith_list_operations_refine_witness:
  "\<exists>h'. list_call (0::nat) (InsertBefore 2 3)
     (ithListPushBack 0 2 (ithListPushFront 0 1 \<lparr>next_of = (\<lambda>_. None), prev_of = (\<lambda>_. None)\<rparr>)) = Some h' \<and>
   dlist h' 0 [1, 3, 2]"
proof -
  let ?h = "ithListPushFront (0::nat) 1 \<lparr>next_of = (\<lambda>_. None), prev_of = (\<lambda>_. None)\<rparr>"
  have "dlist ?h 0 [1]" by (simp add: ithListPushFront_def dlist_def)
  then have "dlist (ithListPushBack 0 2 ?h) 0 [1, 2]" using push_back [of ?h 0 "[1]" 2] by simp
  from ith_list_operations_refine [OF this, of "InsertBefore 2 3"] show ?thesis by auto
qed

end
