(* ===== verification/ITH_Vmem.thy ===== *)
theory ITH_Vmem
  imports ITH_List
begin

text \<open>
  The allocator of video memory (\<open>sdk/driver/ith/ith_vmem.c\<close>). A range of addresses is
  cut into blocks; each has a control block (mcb) from a fixed array, and the used ones form a doubly linked
  list in the order of their addresses. Allocation takes the smallest free block that fits (the option
  \<open>ITH_VMEM_BESTFIT\<close> is on) and splits it; freeing merges with the free neighbours.

  The nodes of the list are the head in \<open>ITHVmem\<close> and the entries of the array. A failed
  \<open>ASSERT\<close> is undefined, as are a null pointer and the head taken for an mcb. The mutex is
  left out: each operation holds it from its first to its last access. \<open>ithVmemStats\<close> only
  prints.
\<close>

section \<open>State\<close>

abbreviation (input) ITH_VMEM_MCB_COUNT :: nat where "ITH_VMEM_MCB_COUNT \<equiv> 2048"

datatype McbState = MCB_UNUSED | MCB_FREE | MCB_ALLOCATED

record ITHVmemMcb =
  mcb_addr :: u32
  mcb_size :: u32
  mcb_state :: McbState

text \<open>The nodes of the list.\<close>

datatype vm_node = VHead | Mcb nat

record ITHVmem =
  startAddr :: u32
  totalSize :: u32
  vm_mutex :: bool
  mcbs :: "nat \<Rightarrow> ITHVmemMcb"
  usedMcbCount :: u32
  vm_links :: "vm_node links"
  freeSize :: u32

text \<open>\<open>size\<close> is a bit field of 30 bits.\<close>

definition bits30 :: "u32 \<Rightarrow> u32" where
  "bits30 w = take_bit 30 w"

definition set_addr :: "nat \<Rightarrow> u32 \<Rightarrow> ITHVmem \<Rightarrow> ITHVmem" where
  "set_addr i a v = v\<lparr>mcbs := (mcbs v)(i := (mcbs v i)\<lparr>mcb_addr := a\<rparr>)\<rparr>"

definition set_size :: "nat \<Rightarrow> u32 \<Rightarrow> ITHVmem \<Rightarrow> ITHVmem" where
  "set_size i n v = v\<lparr>mcbs := (mcbs v)(i := (mcbs v i)\<lparr>mcb_size := bits30 n\<rparr>)\<rparr>"

definition set_state :: "nat \<Rightarrow> McbState \<Rightarrow> ITHVmem \<Rightarrow> ITHVmem" where
  "set_state i s v = v\<lparr>mcbs := (mcbs v)(i := (mcbs v i)\<lparr>mcb_state := s\<rparr>)\<rparr>"

text \<open>The cast of a node to an mcb.\<close>

fun as_mcb :: "vm_node \<Rightarrow> nat option" where
  "as_mcb VHead = None"
| "as_mcb (Mcb i) = Some i"

section \<open>Merging and splitting\<close>

definition merge_next :: "nat \<Rightarrow> ITHVmem \<Rightarrow> ITHVmem option" where
  "merge_next block v =
     (case next_of (vm_links v) (Mcb block) of
        None \<Rightarrow> Some v
      | Some nd \<Rightarrow> do {
          sib \<leftarrow> as_mcb nd;
          if mcb_state (mcbs v sib) = MCB_FREE then do {
            let v = set_size block (mcb_size (mcbs v block) + mcb_size (mcbs v sib)) v;
            let v = set_state sib MCB_UNUSED v;
            links \<leftarrow> ithListRemove VHead (Mcb sib) (vm_links v);
            Some (v\<lparr>vm_links := links, usedMcbCount := usedMcbCount v - 1\<rparr>)
          }
          else Some v
        })"

definition merge_prev :: "nat \<Rightarrow> ITHVmem \<Rightarrow> ITHVmem option" where
  "merge_prev block v =
     (if prev_of (vm_links v) (Mcb block) = Some VHead then Some v
      else do {
        nd \<leftarrow> prev_of (vm_links v) (Mcb block);
        sib \<leftarrow> as_mcb nd;
        if mcb_state (mcbs v sib) = MCB_FREE then do {
          let v = set_addr block (mcb_addr (mcbs v sib)) v;
          let v = set_size block (mcb_size (mcbs v block) + mcb_size (mcbs v sib)) v;
          let v = set_state sib MCB_UNUSED v;
          links \<leftarrow> ithListRemove VHead (Mcb sib) (vm_links v);
          Some (v\<lparr>vm_links := links, usedMcbCount := usedMcbCount v - 1\<rparr>)
        }
        else Some v
      })"

definition MergeBlock :: "nat \<Rightarrow> ITHVmem \<Rightarrow> ITHVmem option" where
  "MergeBlock block v = do {
     v \<leftarrow> merge_next block v;
     v \<leftarrow> merge_prev block v;
     Some (set_state block MCB_FREE v)
   }"

text \<open>The first unused mcb from an index on; the search goes on behind it.\<close>

definition GetNextUnusedMCB :: "ITHVmem \<Rightarrow> nat \<Rightarrow> nat option" where
  "GetNextUnusedMCB v from = find (\<lambda>i. mcb_state (mcbs v i) = MCB_UNUSED) [from..<ITH_VMEM_MCB_COUNT]"

text \<open>The two ways to split: the rest goes behind the block, or the block moves up to an aligned address.\<close>

definition split_off_next :: "nat \<Rightarrow> nat \<Rightarrow> u32 \<Rightarrow> ITHVmem \<Rightarrow> ITHVmem" where
  "split_off_next block next n v =
     (let b = mcbs v block;
          v = set_addr next (mcb_addr b + n) v;
          v = set_size next (mcb_size b - n) v;
          v = set_state next MCB_FREE v;
          v = set_size block n v;
          v = set_state block MCB_ALLOCATED v
      in v\<lparr>vm_links := ithListInsertAfter VHead (Mcb block) (Mcb next) (vm_links v),
           usedMcbCount := usedMcbCount v + 1\<rparr>)"

definition split_off_both :: "nat \<Rightarrow> nat \<Rightarrow> nat \<Rightarrow> u32 \<Rightarrow> u32 \<Rightarrow> ITHVmem \<Rightarrow> ITHVmem option" where
  "split_off_both block prev next aligned_addr n v =
     (let b = mcbs v block;
          v = set_addr prev (mcb_addr b) v;
          v = set_size prev (aligned_addr - mcb_addr b) v;
          v = set_state prev MCB_FREE v;
          v = set_addr next (aligned_addr + n) v;
          v = set_size next (mcb_size b - n - mcb_size (mcbs v prev)) v;
          v = set_state next MCB_FREE v;
          v = set_addr block aligned_addr v;
          v = set_size block n v;
          v = set_state block MCB_ALLOCATED v
      in do {
        links \<leftarrow> ithListInsertBefore VHead (Mcb block) (Mcb prev) (vm_links v);
        let v = v\<lparr>vm_links := links, usedMcbCount := usedMcbCount v + 1\<rparr>;
        Some (if 0 < mcb_size (mcbs v next)
              then v\<lparr>vm_links := ithListInsertAfter VHead (Mcb block) (Mcb next) (vm_links v),
                     usedMcbCount := usedMcbCount v + 1\<rparr>
              else set_state next MCB_UNUSED v)
      })"

definition SplitBlock :: "nat \<Rightarrow> u32 \<Rightarrow> u32 \<Rightarrow> ITHVmem \<Rightarrow> (int \<times> ITHVmem) option" where
  "SplitBlock block alignment n v =
     (let b = mcbs v block in
      if mcb_size b = n then Some (0, set_state block MCB_ALLOCATED (set_size block n v))
      else
        let aligned_addr = ITH_ALIGN_UP (mcb_addr b) alignment in
        if aligned_addr = mcb_addr b then
          case GetNextUnusedMCB v 0 of
            None \<Rightarrow> Some (101, v)
          | Some next \<Rightarrow> Some (0, split_off_next block next n v)
        else
          case GetNextUnusedMCB v 0 of
            None \<Rightarrow> Some (124, v)
          | Some prev \<Rightarrow>
              (case GetNextUnusedMCB v (prev + 1) of
                 None \<Rightarrow> Some (124, v)
               | Some next \<Rightarrow> do {
                   v \<leftarrow> split_off_both block prev next aligned_addr n v;
                   v \<leftarrow> MergeBlock prev v;
                   Some (0, v)
                 }))"

section \<open>The interface\<close>

definition ithVmemInit :: "ITHVmem \<Rightarrow> ITHVmem option" where
  "ithVmemInit v =
     (if totalSize v = 0 \<or> \<not> vm_mutex v then None
      else
        let v = set_addr 0 (startAddr v) v;
            v = set_size 0 (totalSize v) v;
            v = set_state 0 MCB_FREE v
        in Some (v\<lparr>vm_links := ithListPushFront VHead (Mcb 0) (vm_links v),
                   freeSize := totalSize v, usedMcbCount := 1\<rparr>))"

text \<open>The search for the best block.\<close>

partial_function (option) best_fit ::
    "ITHVmem \<Rightarrow> u32 \<Rightarrow> u32 \<Rightarrow> vm_node option \<Rightarrow> nat option \<Rightarrow> nat option option" where
  "best_fit v alignment n node best =
     (case node of
        None \<Rightarrow> Some best
      | Some nd \<Rightarrow> do {
          i \<leftarrow> as_mcb nd;
          let b = mcbs v i;
          let node = next_of (vm_links v) nd;
          if mcb_state b = MCB_ALLOCATED then best_fit v alignment n node best
          else if mcb_state b \<noteq> MCB_FREE then None
          else
            best_fit v alignment n node
              (if mcb_size b \<ge> n + (ITH_ALIGN_UP (mcb_addr b) alignment - mcb_addr b) \<and>
                  (best = None \<or> mcb_size b < mcb_size (mcbs v (the best)))
               then Some i else best)
        })"

definition ithVmemAlignedAlloc :: "u32 \<Rightarrow> u32 \<Rightarrow> ITHVmem \<Rightarrow> (u32 \<times> ITHVmem) option" where
  "ithVmemAlignedAlloc alignment n v =
     (if n = 0 then None
      else
        let n = ITH_ALIGN_UP n 32 in
        if n > totalSize v then Some (0, v)
        else do {
          best \<leftarrow> best_fit v alignment n (next_of (vm_links v) VHead) None;
          case best of
            None \<Rightarrow> Some (0, v)
          | Some block \<Rightarrow> do {
              (result, v) \<leftarrow> SplitBlock block alignment n v;
              if result \<noteq> 0 then Some (0, v)
              else
                let v = v\<lparr>freeSize := freeSize v - n\<rparr> in
                Some (mcb_addr (mcbs v block), v)
            }
        })"

definition ithVmemAlloc :: "u32 \<Rightarrow> ITHVmem \<Rightarrow> (u32 \<times> ITHVmem) option" where
  "ithVmemAlloc n v = ithVmemAlignedAlloc 32 (ITH_ALIGN_UP n 32) v"

text \<open>The search for an address; it leaves the last mcb when there is none with the address.\<close>

partial_function (option) find_mcb :: "ITHVmem \<Rightarrow> u32 \<Rightarrow> vm_node option \<Rightarrow> nat option \<Rightarrow> nat option option" where
  "find_mcb v addr node mcb =
     (case node of
        None \<Rightarrow> Some mcb
      | Some nd \<Rightarrow> do {
          i \<leftarrow> as_mcb nd;
          if mcb_addr (mcbs v i) = addr then Some (Some i)
          else find_mcb v addr (next_of (vm_links v) nd) (Some i)
        })"

definition ithVmemFree :: "u32 \<Rightarrow> ITHVmem \<Rightarrow> ITHVmem option" where
  "ithVmemFree addr v =
     (if addr = 0 then None
      else do {
        mcb \<leftarrow> find_mcb v addr (next_of (vm_links v) VHead) None;
        case mcb of
          None \<Rightarrow> Some v
        | Some i \<Rightarrow>
            if mcb_state (mcbs v i) \<noteq> MCB_ALLOCATED then None
            else do {
              let n = mcb_size (mcbs v i);
              v \<leftarrow> MergeBlock i v;
              Some (v\<lparr>freeSize := freeSize v + n\<rparr>)
            }
      })"

section \<open>The blocks\<close>

text \<open>Consecutive blocks fill a range; two free ones are never neighbours.\<close>

fun tiles :: "nat \<Rightarrow> ITHVmemMcb list \<Rightarrow> nat \<Rightarrow> bool" where
  "tiles a [] e \<longleftrightarrow> a = e"
| "tiles a (m # ms) e \<longleftrightarrow> unat (mcb_addr m) = a \<and> 0 < mcb_size m \<and> tiles (a + unat (mcb_size m)) ms e"

fun no_free_pair :: "ITHVmemMcb list \<Rightarrow> bool" where
  "no_free_pair (m # m' # ms) \<longleftrightarrow>
     \<not> (mcb_state m = MCB_FREE \<and> mcb_state m' = MCB_FREE) \<and> no_free_pair (m' # ms)"
| "no_free_pair _ \<longleftrightarrow> True"

definition free_sum :: "ITHVmemMcb list \<Rightarrow> nat" where
  "free_sum ms = sum_list (map (\<lambda>m. if mcb_state m = MCB_FREE then unat (mcb_size m) else 0) ms)"

text \<open>What is allocated: addresses with sizes.\<close>

definition allocs :: "ITHVmemMcb list \<Rightarrow> (u32 \<times> u32) set" where
  "allocs ms = (\<lambda>m. (mcb_addr m, mcb_size m)) ` {m \<in> set ms. mcb_state m = MCB_ALLOCATED}"

text \<open>The list of the used mcbs and the array agree.\<close>

definition vm_list :: "ITHVmem \<Rightarrow> nat list \<Rightarrow> bool" where
  "vm_list v xs \<longleftrightarrow> dlist (vm_links v) VHead (map Mcb xs) \<and>
     (\<forall>i < ITH_VMEM_MCB_COUNT. i \<in> set xs \<longleftrightarrow> mcb_state (mcbs v i) \<noteq> MCB_UNUSED) \<and>
     (\<forall>i \<in> set xs. i < ITH_VMEM_MCB_COUNT)"

text \<open>The blocks fill the range, which a bit field of 30 bits can measure.\<close>

definition vm_ok :: "ITHVmem \<Rightarrow> nat list \<Rightarrow> bool" where
  "vm_ok v xs \<longleftrightarrow> vm_list v xs \<and>
     tiles (unat (startAddr v)) (map (mcbs v) xs) (unat (startAddr v) + unat (totalSize v)) \<and>
     unat (startAddr v) + unat (totalSize v) \<le> 2 ^ 32 \<and> unat (totalSize v) < 2 ^ 30 \<and>
     unat (usedMcbCount v) = length xs"

definition vmem_inv :: "ITHVmem \<Rightarrow> nat list \<Rightarrow> bool" where
  "vmem_inv v xs \<longleftrightarrow> vm_ok v xs \<and> no_free_pair (map (mcbs v) xs) \<and>
     unat (freeSize v) = free_sum (map (mcbs v) xs) \<and> 0 < startAddr v"

section \<open>Lemmas on blocks\<close>

lemma tiles_append: "tiles a (xs @ ys) e \<longleftrightarrow> (\<exists>c. tiles a xs c \<and> tiles c ys e)"
  by (induction xs arbitrary: a) auto

lemma tiles_sum: "tiles a ms e \<Longrightarrow> e = a + sum_list (map (\<lambda>m. unat (mcb_size m)) ms)"
proof (induction ms arbitrary: a)
  case (Cons m ms)
  from Cons.prems have "tiles (a + unat (mcb_size m)) ms e" by simp
  from Cons.IH [OF this] show ?case by (simp only: list.map sum_list.Cons add.assoc)
qed simp

lemma tiles_le: "tiles a ms e \<Longrightarrow> a \<le> e"
  using tiles_sum by fastforce

lemma no_free_pair_append:
  "no_free_pair (xs @ m # ys) \<longleftrightarrow> no_free_pair xs \<and> no_free_pair (m # ys) \<and>
     (xs = [] \<or> \<not> (mcb_state (last xs) = MCB_FREE \<and> mcb_state m = MCB_FREE))"
  by (induction xs rule: no_free_pair.induct) auto

lemma no_free_pair_Cons:
  "no_free_pair (m # ys) \<longleftrightarrow> no_free_pair ys \<and> (ys = [] \<or> \<not> (mcb_state m = MCB_FREE \<and> mcb_state (hd ys) = MCB_FREE))"
  by (cases ys) auto

lemma free_sum_simps [simp]:
  "free_sum [] = 0"
  "free_sum (m # ms) = (if mcb_state m = MCB_FREE then unat (mcb_size m) else 0) + free_sum ms"
  "free_sum (xs @ ys) = free_sum xs + free_sum ys"
  by (simp_all add: free_sum_def)

lemma allocs_simps [simp]:
  "allocs [] = {}"
  "allocs (m # ms) = (if mcb_state m = MCB_ALLOCATED then insert (mcb_addr m, mcb_size m) (allocs ms) else allocs ms)"
  "allocs (xs @ ys) = allocs xs \<union> allocs ys"
  by (auto simp: allocs_def)

lemma bits30_small: "unat w < 2 ^ 30 \<Longrightarrow> bits30 w = w"
  unfolding bits30_def word_unat_eq_iff by (simp add: unsigned_take_bit_eq take_bit_nat_eq_self)

lemma set_simps [simp]:
  "mcbs (set_addr i a v) = (mcbs v)(i := (mcbs v i)\<lparr>mcb_addr := a\<rparr>)"
  "mcbs (set_size i n v) = (mcbs v)(i := (mcbs v i)\<lparr>mcb_size := bits30 n\<rparr>)"
  "mcbs (set_state i t v) = (mcbs v)(i := (mcbs v i)\<lparr>mcb_state := t\<rparr>)"
  "vm_links (set_addr i a v) = vm_links v" "vm_links (set_size i n v) = vm_links v" "vm_links (set_state i t v) = vm_links v"
  "usedMcbCount (set_addr i a v) = usedMcbCount v" "usedMcbCount (set_size i n v) = usedMcbCount v"
  "usedMcbCount (set_state i t v) = usedMcbCount v"
  "startAddr (set_addr i a v) = startAddr v" "startAddr (set_size i n v) = startAddr v" "startAddr (set_state i t v) = startAddr v"
  "totalSize (set_addr i a v) = totalSize v" "totalSize (set_size i n v) = totalSize v" "totalSize (set_state i t v) = totalSize v"
  "freeSize (set_addr i a v) = freeSize v" "freeSize (set_size i n v) = freeSize v" "freeSize (set_state i t v) = freeSize v"
  by (simp_all add: set_addr_def set_size_def set_state_def)

lemma vm_list_length: "vm_list v xs \<Longrightarrow> distinct xs \<and> length xs \<le> ITH_VMEM_MCB_COUNT"
proof -
  assume v: "vm_list v xs"
  then have dist: "distinct xs" by (auto simp: vm_list_def dlist_def distinct_map)
  have "set xs \<subseteq> {..<ITH_VMEM_MCB_COUNT}" using v by (auto simp: vm_list_def)
  then have "card (set xs) \<le> ITH_VMEM_MCB_COUNT" using card_mono [of "{..<ITH_VMEM_MCB_COUNT}" "set xs"] by simp
  with dist show ?thesis by (simp add: distinct_card)
qed

text \<open>The neighbours of a block.\<close>

lemma dlist_next: "dlist h l (as @ n # bs) \<Longrightarrow> next_of h n = (case bs of [] \<Rightarrow> None | b # _ \<Rightarrow> Some b)"
  by (cases bs) (auto simp: dlist_def chain_append)

lemma dlist_prev: "dlist h l (as @ n # bs) \<Longrightarrow> prev_of h n = Some (last (l # as))"
  by (auto simp: dlist_def chain_append dest: piece_last)

text \<open>What an operation leaves of the state.\<close>

definition vm_same :: "ITHVmem \<Rightarrow> ITHVmem \<Rightarrow> bool" where
  "vm_same v v' \<longleftrightarrow> startAddr v' = startAddr v \<and> totalSize v' = totalSize v \<and> freeSize v' = freeSize v"

section \<open>Merging\<close>

text \<open>Taking a free member out of the list, with its space given to a neighbour.\<close>

lemma vm_list_remove:
  assumes "vm_list v (as @ c # bs)"
  shows "\<exists>links. ithListRemove VHead (Mcb c) (vm_links v) = Some links \<and>
    (\<forall>v'. vm_links v' = links \<longrightarrow> (\<forall>i. mcb_state (mcbs v' i) = (if i = c then MCB_UNUSED else mcb_state (mcbs v i))) \<longrightarrow>
       vm_list v' (as @ bs))"
proof -
  have dl: "dlist (vm_links v) VHead (map Mcb as @ Mcb c # map Mcb bs)" using assms by (simp add: vm_list_def)
  obtain links where links: "ithListRemove VHead (Mcb c) (vm_links v) = Some links"
      "dlist links VHead (map Mcb as @ map Mcb bs)"
    using remove_node [OF dl] by blast
  have dist: "distinct (as @ c # bs)" using vm_list_length [OF assms] by blast
  have "vm_list v' (as @ bs)" if "vm_links v' = links"
      "\<forall>i. mcb_state (mcbs v' i) = (if i = c then MCB_UNUSED else mcb_state (mcbs v i))" for v'
    using links(2) that dist assms by (auto simp: vm_list_def)
  with links(1) show ?thesis by blast
qed

text \<open>The sizes of two neighbours can be added.\<close>

lemma two_sizes:
  assumes "vm_ok v (as @ b # c # bs)"
  shows "unat (mcb_size (mcbs v b) + mcb_size (mcbs v c)) = unat (mcb_size (mcbs v b)) + unat (mcb_size (mcbs v c))"
    "bits30 (mcb_size (mcbs v b) + mcb_size (mcbs v c)) = mcb_size (mcbs v b) + mcb_size (mcbs v c)"
    "0 < mcb_size (mcbs v b) + mcb_size (mcbs v c)"
    "unat (usedMcbCount v - 1) = length (as @ b # bs)" "distinct (as @ b # c # bs)"
proof -
  let ?s = "mcb_size (mcbs v b)" and ?t = "mcb_size (mcbs v c)"
  have tile: "tiles (unat (startAddr v)) (map (mcbs v) (as @ b # c # bs)) (unat (startAddr v) + unat (totalSize v))"
    using assms by (simp add: vm_ok_def)
  have "unat ?s + unat ?t \<le> unat (totalSize v)" using tiles_sum [OF tile] by simp
  then have sum: "unat ?s + unat ?t < 2 ^ 30" using assms by (simp add: vm_ok_def)
  then show add: "unat (?s + ?t) = unat ?s + unat ?t" by (simp add: unat_word_ariths)
  show "bits30 (?s + ?t) = ?s + ?t" using sum add by (simp add: bits30_small)
  show "0 < ?s + ?t" using tile add by (auto simp: tiles_append word_less_nat_alt)
  show "unat (usedMcbCount v - 1) = length (as @ b # bs)"
    using assms by (simp add: vm_ok_def unat_sub word_le_nat_alt)
  show "distinct (as @ b # c # bs)" using assms vm_list_length [of v "as @ b # c # bs"] by (simp add: vm_ok_def)
qed

lemma merge_next_result:
  assumes "vm_ok v (as @ b # bs)"
  shows "\<exists>v' bs'. merge_next b v = Some v' \<and> vm_ok v' (as @ b # bs') \<and> vm_same v v' \<and>
    (bs' = bs \<and> (bs = [] \<or> mcb_state (mcbs v (hd bs)) \<noteq> MCB_FREE) \<or> (\<exists>c. bs = c # bs' \<and> mcb_state (mcbs v c) = MCB_FREE)) \<and>
    mcb_state (mcbs v' b) = mcb_state (mcbs v b) \<and> (\<forall>i \<in> set (as @ bs'). mcbs v' i = mcbs v i) \<and>
    free_sum (map (mcbs v) bs') + unat (mcb_size (mcbs v' b)) = free_sum (map (mcbs v) bs) + unat (mcb_size (mcbs v b))"
proof -
  have vl: "vm_list v (as @ b # bs)" using assms by (simp add: vm_ok_def)
  have nxt: "next_of (vm_links v) (Mcb b) = (case bs of [] \<Rightarrow> None | c # _ \<Rightarrow> Some (Mcb c))"
    using vl dlist_next [of "vm_links v" VHead "map Mcb as" "Mcb b" "map Mcb bs"] by (simp add: vm_list_def split: list.splits)
  show ?thesis
  proof (cases "bs = [] \<or> mcb_state (mcbs v (hd bs)) \<noteq> MCB_FREE")
    case True
    then have "merge_next b v = Some v" using nxt by (cases bs) (auto simp: merge_next_def)
    then show ?thesis using assms True by (auto simp: vm_same_def)
  next
    case False
    then obtain c cs where bs: "bs = c # cs" and free: "mcb_state (mcbs v c) = MCB_FREE" by (cases bs) auto
    have vl': "vm_list v ((as @ [b]) @ c # cs)" using vl by (simp add: bs)
    obtain links where links: "ithListRemove VHead (Mcb c) (vm_links v) = Some links"
      and rest: "\<forall>v'. vm_links v' = links \<longrightarrow> (\<forall>i. mcb_state (mcbs v' i) = (if i = c then MCB_UNUSED else mcb_state (mcbs v i))) \<longrightarrow>
         vm_list v' ((as @ [b]) @ cs)"
      using vm_list_remove [OF vl'] by blast
    let ?s = "mcb_size (mcbs v b)" and ?t = "mcb_size (mcbs v c)"
    note two = two_sizes [OF assms [unfolded bs]]
    let ?v = "(set_state c MCB_UNUSED (set_size b (?s + ?t) v))\<lparr>vm_links := links, usedMcbCount := usedMcbCount v - 1\<rparr>"
    have run: "merge_next b v = Some ?v" using nxt free links by (simp add: merge_next_def bs)
    have same: "map (mcbs ?v) as = map (mcbs v) as" "map (mcbs ?v) cs = map (mcbs v) cs" using two(5) by auto
    have "vm_list ?v (as @ b # cs)" using spec [OF rest, of ?v] by simp
    moreover have "tiles (unat (startAddr v)) (map (mcbs ?v) (as @ b # cs)) (unat (startAddr v) + unat (totalSize v))"
      using assms two(5) two(1-3) by (auto simp: vm_ok_def bs tiles_append same add.assoc)
    ultimately have "vm_ok ?v (as @ b # cs)" using assms two(4) by (simp add: vm_ok_def)
    moreover have "free_sum (map (mcbs v) cs) + unat (mcb_size (mcbs ?v b)) = free_sum (map (mcbs v) bs) + unat ?s"
      using two free by (simp add: bs)
    ultimately show ?thesis
      using run two(5) free by (intro exI [of _ ?v] exI [of _ cs] conjI) (auto simp: bs vm_same_def)
  qed
qed

lemma merge_prev_result:
  assumes "vm_ok v (as @ b # bs)"
  shows "\<exists>v' as'. merge_prev b v = Some v' \<and> vm_ok v' (as' @ b # bs) \<and> vm_same v v' \<and>
    (as' = as \<and> (as = [] \<or> mcb_state (mcbs v (last as)) \<noteq> MCB_FREE) \<or> (\<exists>c. as = as' @ [c] \<and> mcb_state (mcbs v c) = MCB_FREE)) \<and>
    mcb_state (mcbs v' b) = mcb_state (mcbs v b) \<and> (\<forall>i \<in> set (as' @ bs). mcbs v' i = mcbs v i) \<and>
    free_sum (map (mcbs v) as') + unat (mcb_size (mcbs v' b)) = free_sum (map (mcbs v) as) + unat (mcb_size (mcbs v b))"
proof -
  have vl: "vm_list v (as @ b # bs)" using assms by (simp add: vm_ok_def)
  have prv: "prev_of (vm_links v) (Mcb b) = Some (last (VHead # map Mcb as))"
    using vl dlist_prev [of "vm_links v" VHead "map Mcb as" "Mcb b" "map Mcb bs"] by (simp add: vm_list_def)
  show ?thesis
  proof (cases "as = [] \<or> mcb_state (mcbs v (last as)) \<noteq> MCB_FREE")
    case True
    then have "merge_prev b v = Some v" using prv by (cases as rule: rev_cases) (auto simp: merge_prev_def)
    then show ?thesis using assms True by (auto simp: vm_same_def)
  next
    case False
    then obtain cs c where as: "as = cs @ [c]" and free: "mcb_state (mcbs v c) = MCB_FREE" by (cases as rule: rev_cases) auto
    have ok: "vm_ok v (cs @ c # b # bs)" using assms by (simp add: as)
    obtain links where links: "ithListRemove VHead (Mcb c) (vm_links v) = Some links"
      and rest: "\<forall>v'. vm_links v' = links \<longrightarrow> (\<forall>i. mcb_state (mcbs v' i) = (if i = c then MCB_UNUSED else mcb_state (mcbs v i))) \<longrightarrow>
         vm_list v' (cs @ b # bs)"
      using vm_list_remove [of v cs c "b # bs"] ok by (auto simp: vm_ok_def)
    let ?s = "mcb_size (mcbs v b)" and ?t = "mcb_size (mcbs v c)"
    note two = two_sizes [OF ok] and comm = add.commute [of ?s ?t]
    let ?v = "(set_state c MCB_UNUSED (set_size b (?s + ?t) (set_addr b (mcb_addr (mcbs v c)) v)))
      \<lparr>vm_links := links, usedMcbCount := usedMcbCount v - 1\<rparr>"
    have run: "merge_prev b v = Some ?v" using prv free links two(5) by (simp add: merge_prev_def as)
    have same: "map (mcbs ?v) cs = map (mcbs v) cs" "map (mcbs ?v) bs = map (mcbs v) bs" using two(5) by auto
    have "vm_list ?v (cs @ b # bs)" using spec [OF rest, of ?v] by simp
    moreover have "tiles (unat (startAddr v)) (map (mcbs ?v) (cs @ b # bs)) (unat (startAddr v) + unat (totalSize v))"
      using ok two(5) two(1-3) by (auto simp: vm_ok_def tiles_append same add.assoc comm)
    ultimately have "vm_ok ?v (cs @ b # bs)" using ok two(4) by (simp add: vm_ok_def)
    moreover have "free_sum (map (mcbs v) cs) + unat (mcb_size (mcbs ?v b)) = free_sum (map (mcbs v) as) + unat ?s"
      using two free by (simp add: as comm)
    ultimately show ?thesis
      using run two(5) free by (intro exI [of _ ?v] exI [of _ cs] conjI) (auto simp: as vm_same_def)
  qed
qed

text \<open>The states of used blocks do not matter to the list and the tiling.\<close>

lemma vm_ok_cong:
  "vm_ok v xs \<Longrightarrow> vm_links v' = vm_links v \<Longrightarrow> usedMcbCount v' = usedMcbCount v \<Longrightarrow> startAddr v' = startAddr v \<Longrightarrow>
   totalSize v' = totalSize v \<Longrightarrow> tiles (unat (startAddr v)) (map (mcbs v') xs) (unat (startAddr v) + unat (totalSize v)) \<Longrightarrow>
   (\<And>i. mcb_state (mcbs v' i) = MCB_UNUSED \<longleftrightarrow> mcb_state (mcbs v i) = MCB_UNUSED) \<Longrightarrow> vm_ok v' xs"
  by (simp add: vm_ok_def vm_list_def)

lemma tiles_cong:
  "tiles a (map f xs) e \<Longrightarrow> (\<And>i. i \<in> set xs \<Longrightarrow> mcb_addr (g i) = mcb_addr (f i) \<and> mcb_size (g i) = mcb_size (f i)) \<Longrightarrow>
   tiles a (map g xs) e"
  by (induction xs arbitrary: a) auto

text \<open>A block that becomes free, between lists without free neighbours.\<close>

definition last_used :: "ITHVmemMcb list \<Rightarrow> bool" where
  "last_used ms \<longleftrightarrow> ms = [] \<or> mcb_state (last ms) \<noteq> MCB_FREE"

definition first_used :: "ITHVmemMcb list \<Rightarrow> bool" where
  "first_used ms \<longleftrightarrow> ms = [] \<or> mcb_state (hd ms) \<noteq> MCB_FREE"

lemma no_free_pair_snoc: "no_free_pair (ms @ [m]) \<longleftrightarrow> no_free_pair ms \<and> (mcb_state m = MCB_FREE \<longrightarrow> last_used ms)"
  by (auto simp: no_free_pair_append last_used_def)

lemma no_free_pair_first: "no_free_pair (m # ms) \<longleftrightarrow> no_free_pair ms \<and> (mcb_state m = MCB_FREE \<longrightarrow> first_used ms)"
  by (auto simp: no_free_pair_Cons first_used_def)

lemma no_free_pair_middle:
  "no_free_pair (ms @ m # ms') \<longleftrightarrow>
   no_free_pair ms \<and> no_free_pair ms' \<and> (mcb_state m = MCB_FREE \<longrightarrow> last_used ms \<and> first_used ms')"
  by (auto simp: no_free_pair_append no_free_pair_first last_used_def)

lemma MergeBlock_result:
  assumes "vm_ok v (as @ b # bs)" "no_free_pair (map (mcbs v) as)" "no_free_pair (map (mcbs v) bs)"
    and used: "mcb_state (mcbs v b) \<noteq> MCB_UNUSED"
  shows "\<exists>v' xs. MergeBlock b v = Some v' \<and> vm_ok v' xs \<and> vm_same v v' \<and> no_free_pair (map (mcbs v') xs) \<and>
    free_sum (map (mcbs v') xs) = free_sum (map (mcbs v) (as @ bs)) + unat (mcb_size (mcbs v b)) \<and>
    allocs (map (mcbs v') xs) = allocs (map (mcbs v) (as @ bs)) \<and>
    (\<forall>i \<in> set (as @ bs). mcb_state (mcbs v i) = MCB_ALLOCATED \<longrightarrow> mcbs v' i = mcbs v i)"
proof -
  obtain v1 bs' where n: "merge_next b v = Some v1" "vm_ok v1 (as @ b # bs')" "vm_same v v1"
      "bs' = bs \<and> (bs = [] \<or> mcb_state (mcbs v (hd bs)) \<noteq> MCB_FREE) \<or> (\<exists>c. bs = c # bs' \<and> mcb_state (mcbs v c) = MCB_FREE)"
      "mcb_state (mcbs v1 b) = mcb_state (mcbs v b)" "\<forall>i \<in> set (as @ bs'). mcbs v1 i = mcbs v i"
      "free_sum (map (mcbs v) bs') + unat (mcb_size (mcbs v1 b)) = free_sum (map (mcbs v) bs) + unat (mcb_size (mcbs v b))"
    using merge_next_result [OF assms(1)] by (elim exE conjE) (rule that)
  obtain v2 as' where p: "merge_prev b v1 = Some v2" "vm_ok v2 (as' @ b # bs')" "vm_same v1 v2"
      "as' = as \<and> (as = [] \<or> mcb_state (mcbs v1 (last as)) \<noteq> MCB_FREE) \<or> (\<exists>c. as = as' @ [c] \<and> mcb_state (mcbs v1 c) = MCB_FREE)"
      "mcb_state (mcbs v2 b) = mcb_state (mcbs v1 b)" "\<forall>i \<in> set (as' @ bs'). mcbs v2 i = mcbs v1 i"
      "free_sum (map (mcbs v1) as') + unat (mcb_size (mcbs v2 b)) = free_sum (map (mcbs v1) as) + unat (mcb_size (mcbs v1 b))"
    using merge_prev_result [OF n(2)] by (elim exE conjE) (rule that)
  let ?v = "set_state b MCB_FREE v2"
  have sub: "set as' \<subseteq> set as" "set bs' \<subseteq> set bs" using p(4) n(4) by auto
  have dist: "distinct (as' @ b # bs')" using p(2) vm_list_length [of v2 "as' @ b # bs'"] by (simp add: vm_ok_def)
  have eq: "map (mcbs ?v) as' = map (mcbs v) as'" "map (mcbs ?v) bs' = map (mcbs v) bs'" "map (mcbs v1) as = map (mcbs v) as"
      "map (mcbs v1) as' = map (mcbs v) as'"
    using p(6) n(6) sub dist by auto
  have "tiles (unat (startAddr v2)) (map (mcbs ?v) (as' @ b # bs')) (unat (startAddr v2) + unat (totalSize v2))"
    using p(2) unfolding vm_ok_def by (elim conjE) (erule tiles_cong, simp)
  then have ok: "vm_ok ?v (as' @ b # bs')"
    using used n(5) p(5) by (intro vm_ok_cong [OF p(2)]) auto
  have bs': "no_free_pair (map (mcbs v) bs')" "first_used (map (mcbs v) bs')" "allocs (map (mcbs v) bs') = allocs (map (mcbs v) bs)"
    using n(4) assms(3) by (auto simp: no_free_pair_first first_used_def hd_map)
  have st: "mcb_state (mcbs v1 i) = mcb_state (mcbs v i)" if "i \<in> set as" for i using n(6) that by simp
  have as': "no_free_pair (map (mcbs v) as')" "last_used (map (mcbs v) as')" "allocs (map (mcbs v) as') = allocs (map (mcbs v) as)"
    using p(4) assms(2) st by (auto simp: no_free_pair_snoc last_used_def last_map)
  have "no_free_pair (map (mcbs ?v) (as' @ b # bs'))"
    using bs' as' by (simp add: no_free_pair_middle eq del: set_simps)
  moreover have "free_sum (map (mcbs ?v) (as' @ b # bs')) = free_sum (map (mcbs v) (as @ bs)) + unat (mcb_size (mcbs v b))"
    using p(7) n(7) by (simp add: eq del: set_simps) (simp add: set_simps)
  moreover have "allocs (map (mcbs ?v) (as' @ b # bs')) = allocs (map (mcbs v) (as @ bs))"
    using bs' as' by (simp add: eq del: set_simps) (simp add: set_simps)
  moreover have "mcbs ?v i = mcbs v i" if "i \<in> set (as @ bs)" "mcb_state (mcbs v i) = MCB_ALLOCATED" for i
  proof -
    have "i \<in> set (as' @ bs')" using that n(4) p(4) st by auto
    then show ?thesis using p(6) n(6) sub dist by auto
  qed
  moreover have "MergeBlock b v = Some ?v" using n(1) p(1) by (simp add: MergeBlock_def)
  moreover have "vm_same v ?v" using n(3) p(3) by (simp add: vm_same_def)
  ultimately show ?thesis using ok by blast
qed

section \<open>Splitting\<close>

lemma mask_pad:
  assumes "k \<le> 31"
  shows "unat (ITH_ALIGN_UP a (2 ^ k) - a) < 2 ^ k" "2 ^ k dvd unat (ITH_ALIGN_UP a (2 ^ k))"
proof -
  have m: "(2 :: u32) ^ k - 1 = mask k" by (simp add: mask_eq_exp_minus_1)
  let ?x = "a + mask k"
  have up: "ITH_ALIGN_UP a (2 ^ k) = push_bit k (drop_bit k ?x)"
    unfolding ITH_ALIGN_UP_def m by (rule bit_word_eqI) (auto simp: bit_simps)
  have shift: "unat (push_bit k y) = take_bit 32 (push_bit k (unat y))" for y :: u32
    by (simp add: unsigned_push_bit_eq)
  have "(2 :: nat) ^ k dvd 2 ^ 32" by (rule le_imp_power_dvd) (use assms in simp)
  then have "2 ^ k dvd (unat (drop_bit k ?x) * 2 ^ k) mod 2 ^ 32" by (rule dvd_mod [OF dvd_triv_right])
  then show "2 ^ k dvd unat (ITH_ALIGN_UP a (2 ^ k))"
    unfolding up shift by (simp only: push_bit_eq_mult take_bit_eq_mod)
  have "ITH_ALIGN_UP a (2 ^ k) = ?x - take_bit k ?x"
    unfolding up using bits_ident [of k ?x] by (simp add: eq_diff_eq)
  then have pad: "ITH_ALIGN_UP a (2 ^ k) - a = mask k - take_bit k ?x" by simp
  have t: "unat (take_bit k ?x) < 2 ^ k" by (simp add: unsigned_take_bit_eq)
  have "unat (mask k :: u32) = mask k mod 2 ^ LENGTH(32)"
    by (subst of_nat_mask_eq [symmetric]) (rule unat_of_nat)
  also have "\<dots> = 2 ^ k - 1"
  proof -
    have "(2 :: nat) ^ k \<le> 2 ^ LENGTH(32)" by (rule power_increasing) (use assms in simp_all)
    moreover have "mask k < (2 :: nat) ^ k" by (simp add: mask_eq_exp_minus_1)
    ultimately have "mask k mod 2 ^ LENGTH(32) = (mask k :: nat)" by (intro mod_less) linarith
    then show ?thesis by (simp only: mask_eq_exp_minus_1)
  qed
  finally have "unat (mask k :: u32) = 2 ^ k - 1" .
  then have "take_bit k ?x \<le> mask k" "unat (mask k :: u32) < 2 ^ k" using t by (simp_all add: word_le_nat_alt)
  then show "unat (ITH_ALIGN_UP a (2 ^ k) - a) < 2 ^ k" unfolding pad by (simp add: unat_sub)
qed

lemma next_unused:
  "GetNextUnusedMCB v from = Some i \<Longrightarrow> from \<le> i \<and> i < ITH_VMEM_MCB_COUNT \<and> mcb_state (mcbs v i) = MCB_UNUSED"
  by (auto simp: GetNextUnusedMCB_def find_Some_iff simp del: upt_rec_numeral)

lemma next_unused_none:
  "GetNextUnusedMCB v from = None \<Longrightarrow> from \<le> i \<Longrightarrow> i < ITH_VMEM_MCB_COUNT \<Longrightarrow> mcb_state (mcbs v i) \<noteq> MCB_UNUSED"
  by (auto simp: GetNextUnusedMCB_def find_None_iff simp del: upt_rec_numeral)

lemma next_unused_least:
  assumes "GetNextUnusedMCB v 0 = Some i" "j < i"
  shows "mcb_state (mcbs v j) \<noteq> MCB_UNUSED"
proof -
  obtain k where k: "k < length [0..<ITH_VMEM_MCB_COUNT]" "i = [0..<ITH_VMEM_MCB_COUNT] ! k"
      "\<forall>l < k. mcb_state (mcbs v ([0..<ITH_VMEM_MCB_COUNT] ! l)) \<noteq> MCB_UNUSED"
    using assms(1) by (auto simp: GetNextUnusedMCB_def find_Some_iff simp del: upt_rec_numeral)
  then have "i = k" "k < ITH_VMEM_MCB_COUNT" by (simp_all del: upt_rec_numeral)
  then show ?thesis using k(3) assms(2) by (auto simp del: upt_rec_numeral)
qed

lemma next_unused_some:
  assumes "vm_list v xs" "length xs + 2 \<le> ITH_VMEM_MCB_COUNT"
  obtains i j where "GetNextUnusedMCB v 0 = Some i" "GetNextUnusedMCB v (i + 1) = Some j"
proof -
  let ?U = "{..<ITH_VMEM_MCB_COUNT} - set xs"
  have U: "mcb_state (mcbs v i) = MCB_UNUSED" if "i \<in> ?U" for i using assms(1) that by (auto simp: vm_list_def)
  have sub: "set xs \<subseteq> {..<ITH_VMEM_MCB_COUNT}" using assms(1) by (auto simp: vm_list_def)
  have "card ?U = ITH_VMEM_MCB_COUNT - length xs"
    using sub vm_list_length [OF assms(1)] by (simp add: card_Diff_subset distinct_card)
  then have two: "2 \<le> card ?U" using assms(2) by linarith
  then have "?U \<noteq> {}" by (metis card.empty not_numeral_le_zero)
  then obtain u where "u \<in> ?U" by blast
  then obtain i where i: "GetNextUnusedMCB v 0 = Some i"
    using U [of u] next_unused_none [of v 0 u] by (cases "GetNextUnusedMCB v 0") auto
  have "GetNextUnusedMCB v (i + 1) \<noteq> None"
  proof
    assume none: "GetNextUnusedMCB v (i + 1) = None"
    have "?U \<subseteq> {i}"
    proof
      fix x assume "x \<in> ?U"
      then show "x \<in> {i}"
        using U [of x] next_unused_least [OF i, of x] next_unused_none [OF none, of x] by (cases x i rule: linorder_cases) auto
    qed
    then have "card ?U \<le> 1" using card_mono [of "{i}" ?U] by simp
    then show False using two by linarith
  qed
  then show thesis using that i by blast
qed

text \<open>The sizes of the pieces.\<close>

lemma split_sizes:
  fixes a n s al :: u32
  assumes "unat a + unat s \<le> 2 ^ 32" "unat n + unat (al - a) \<le> unat s" "0 < n" "unat s < 2 ^ 30"
  shows "unat al = unat a + unat (al - a)" "bits30 n = n" "bits30 (al - a) = al - a" "unat (s - n) = unat s - unat n"
    "unat (s - n - (al - a)) = unat s - unat n - unat (al - a)" "bits30 (s - n) = s - n"
    "bits30 (s - n - (al - a)) = s - n - (al - a)"
    "unat n + unat (al - a) < unat s \<Longrightarrow> unat (al + n) = unat a + unat (al - a) + unat n"
proof -
  have n: "0 < unat n" using assms(3) by (simp add: word_less_nat_alt)
  have "al = a + (al - a)" by simp
  also have "unat \<dots> = (unat a + unat (al - a)) mod 2 ^ 32" by (simp only: unat_word_ariths) simp
  also have "\<dots> = unat a + unat (al - a)" using assms(1,2) n by (intro mod_less) linarith
  finally show al: "unat al = unat a + unat (al - a)" .
  show "bits30 n = n" "bits30 (al - a) = al - a" by (rule bits30_small, use assms in linarith)+
  show sn: "unat (s - n) = unat s - unat n" using assms(2) by (intro unat_sub) (simp add: word_le_nat_alt)
  show snp: "unat (s - n - (al - a)) = unat s - unat n - unat (al - a)"
    using assms(2) sn by (subst unat_sub) (simp_all add: word_le_nat_alt)
  show "bits30 (s - n) = s - n" by (rule bits30_small) (use assms sn in linarith)
  show "bits30 (s - n - (al - a)) = s - n - (al - a)" by (rule bits30_small) (use assms snp in linarith)
  assume "unat n + unat (al - a) < unat s"
  then have "unat al + unat n < 2 ^ 32" using al assms(1) by linarith
  then show "unat (al + n) = unat a + unat (al - a) + unat n" using al by (simp add: unat_word_ariths)
qed

lemma vm_ok_block:
  assumes "vm_ok v (as @ b # bs)"
  shows "unat (mcb_addr (mcbs v b)) + unat (mcb_size (mcbs v b)) \<le> 2 ^ 32" "unat (mcb_size (mcbs v b)) < 2 ^ 30"
    "0 < mcb_size (mcbs v b)"
proof -
  have tile: "tiles (unat (startAddr v)) (map (mcbs v) (as @ b # bs)) (unat (startAddr v) + unat (totalSize v))"
    and total: "unat (startAddr v) + unat (totalSize v) \<le> 2 ^ 32" "unat (totalSize v) < 2 ^ 30"
    using assms by (simp_all add: vm_ok_def)
  from tile have "unat (mcb_addr (mcbs v b)) + unat (mcb_size (mcbs v b)) \<le> unat (startAddr v) + unat (totalSize v)"
    by (auto simp: tiles_append dest: tiles_le)
  then show "unat (mcb_addr (mcbs v b)) + unat (mcb_size (mcbs v b)) \<le> 2 ^ 32" using total by linarith
  show "unat (mcb_size (mcbs v b)) < 2 ^ 30" using tiles_sum [OF tile] total by simp
  show "0 < mcb_size (mcbs v b)" using tile by (auto simp: tiles_append)
qed

lemma vm_ok_count: "vm_ok v xs \<Longrightarrow> length xs < ITH_VMEM_MCB_COUNT + 1"
  using vm_list_length [of v xs] by (simp add: vm_ok_def)

text \<open>An unused mcb put behind a member.\<close>

lemma vm_list_insert_after:
  assumes "vm_list v (as @ b # bs)" "c < ITH_VMEM_MCB_COUNT" "mcb_state (mcbs v c) = MCB_UNUSED"
    and "vm_links v' = ithListInsertAfter VHead (Mcb b) (Mcb c) (vm_links v)"
    and "\<And>i. mcb_state (mcbs v' i) = MCB_UNUSED \<longleftrightarrow> mcb_state (mcbs v i) = MCB_UNUSED \<and> i \<noteq> c"
  shows "vm_list v' (as @ b # c # bs)"
proof -
  have c: "c \<notin> set (as @ b # bs)" using assms(1-3) unfolding vm_list_def by blast
  then have "Mcb c \<notin> set (VHead # map Mcb as @ Mcb b # map Mcb bs)" by auto
  then have "dlist (vm_links v') VHead (map Mcb as @ Mcb b # Mcb c # map Mcb bs)"
    using insert_after [of "vm_links v" VHead "map Mcb as" "Mcb b" "map Mcb bs" "Mcb c"] assms(1,4) by (simp add: vm_list_def)
  then show ?thesis using assms(1,2,5) by (auto simp: vm_list_def)
qed

lemma vm_list_insert_before:
  assumes "vm_list v (as @ b # bs)" "c < ITH_VMEM_MCB_COUNT" "mcb_state (mcbs v c) = MCB_UNUSED"
  obtains links where "ithListInsertBefore VHead (Mcb b) (Mcb c) (vm_links v) = Some links"
    "\<And>v'. vm_links v' = links \<Longrightarrow> (\<forall>i. mcb_state (mcbs v' i) = MCB_UNUSED \<longleftrightarrow> mcb_state (mcbs v i) = MCB_UNUSED \<and> i \<noteq> c) \<Longrightarrow>
       vm_list v' (as @ c # b # bs)"
proof -
  have c: "c \<notin> set (as @ b # bs)" using assms(1-3) unfolding vm_list_def by blast
  then have "Mcb c \<notin> set (VHead # map Mcb as @ Mcb b # map Mcb bs)" by auto
  then obtain links where links: "ithListInsertBefore VHead (Mcb b) (Mcb c) (vm_links v) = Some links"
      "dlist links VHead (map Mcb as @ Mcb c # Mcb b # map Mcb bs)"
    using insert_before [of "vm_links v" VHead "map Mcb as" "Mcb b" "map Mcb bs" "Mcb c"] assms(1) by (auto simp: vm_list_def)
  have "vm_list v' (as @ c # b # bs)" if "vm_links v' = links"
      "\<forall>i. mcb_state (mcbs v' i) = MCB_UNUSED \<longleftrightarrow> mcb_state (mcbs v i) = MCB_UNUSED \<and> i \<noteq> c" for v'
    using that links(2) assms(1,2) by (auto simp: vm_list_def)
  with links(1) show thesis by (rule that)
qed

text \<open>Splitting a free block: the three cases of the code.\<close>

lemma split_whole:
  assumes "vmem_inv v (as @ b # bs)" "mcb_state (mcbs v b) = MCB_FREE" "mcb_size (mcbs v b) = n"
    and v': "v' = set_state b MCB_ALLOCATED (set_size b n v)"
  shows "vm_ok v' (as @ b # bs) \<and> vm_same v v' \<and> no_free_pair (map (mcbs v') (as @ b # bs)) \<and>
    free_sum (map (mcbs v') (as @ b # bs)) + unat n = free_sum (map (mcbs v) (as @ b # bs)) \<and>
    mcb_addr (mcbs v' b) = mcb_addr (mcbs v b) \<and>
    allocs (map (mcbs v') (as @ b # bs)) = insert (mcb_addr (mcbs v b), n) (allocs (map (mcbs v) (as @ b # bs)))"
proof -
  let ?v = "set_state b MCB_ALLOCATED (set_size b n v)"
  have ok: "vm_ok v (as @ b # bs)" using assms(1) by (simp add: vmem_inv_def)
  have dist: "distinct (as @ b # bs)" using ok vm_list_length [of v "as @ b # bs"] by (simp add: vm_ok_def)
  have bits: "bits30 n = n" using vm_ok_block(2) [OF ok] assms(3) by (simp add: bits30_small)
  have same: "map (mcbs ?v) as = map (mcbs v) as" "map (mcbs ?v) bs = map (mcbs v) bs" using dist by auto
  have "tiles (unat (startAddr v)) (map (mcbs ?v) (as @ b # bs)) (unat (startAddr v) + unat (totalSize v))"
    using ok assms(3) bits unfolding vm_ok_def by (elim conjE) (erule tiles_cong, auto)
  then have "vm_ok ?v (as @ b # bs)"
    using assms(2) by (intro vm_ok_cong [OF ok]) auto
  moreover have "no_free_pair (map (mcbs ?v) (as @ b # bs))"
    using assms(1) unfolding vmem_inv_def map_append list.map no_free_pair_middle same by simp
  moreover have "free_sum (map (mcbs ?v) (as @ b # bs)) + unat n = free_sum (map (mcbs v) (as @ b # bs))"
    using assms(2,3) unfolding map_append list.map free_sum_simps same by simp
  moreover have "allocs (map (mcbs ?v) (as @ b # bs)) = insert (mcb_addr (mcbs v b), n) (allocs (map (mcbs v) (as @ b # bs)))"
    using assms(2,3) bits unfolding map_append list.map allocs_simps same by simp
  moreover have "vm_same v ?v" "mcb_addr (mcbs ?v b) = mcb_addr (mcbs v b)" by (simp_all add: vm_same_def)
  ultimately show ?thesis unfolding v' by blast
qed

text \<open>The space behind the block goes to a new one.\<close>

lemma split_behind:
  assumes "vmem_inv v (as @ b # bs)" "mcb_state (mcbs v b) = MCB_FREE" "0 < n" "n < mcb_size (mcbs v b)"
    and c: "c < ITH_VMEM_MCB_COUNT" "mcb_state (mcbs v c) = MCB_UNUSED"
    and links: "vm_links v' = ithListInsertAfter VHead (Mcb b) (Mcb c) (vm_links v)"
      "usedMcbCount v' = usedMcbCount v + 1" "vm_same v v'"
    and new: "mcbs v' = (mcbs v)(c := \<lparr>mcb_addr = mcb_addr (mcbs v b) + n, mcb_size = mcb_size (mcbs v b) - n, mcb_state = MCB_FREE\<rparr>,
      b := \<lparr>mcb_addr = mcb_addr (mcbs v b), mcb_size = n, mcb_state = MCB_ALLOCATED\<rparr>)"
  shows "vm_ok v' (as @ b # c # bs) \<and> no_free_pair (map (mcbs v') (as @ b # c # bs)) \<and>
    free_sum (map (mcbs v') (as @ b # c # bs)) + unat n = free_sum (map (mcbs v) (as @ b # bs)) \<and>
    allocs (map (mcbs v') (as @ b # c # bs)) = insert (mcb_addr (mcbs v b), n) (allocs (map (mcbs v) (as @ b # bs)))"
proof -
  let ?a = "mcb_addr (mcbs v b)" and ?s = "mcb_size (mcbs v b)"
  have ok: "vm_ok v (as @ b # bs)" and nfp: "no_free_pair (map (mcbs v) (as @ b # bs))"
    using assms(1) by (simp_all add: vmem_inv_def)
  have vl: "vm_list v (as @ b # bs)" using ok by (simp add: vm_ok_def)
  have cx: "c \<notin> set (as @ b # bs)" using vl c unfolding vm_list_def by blast
  have dist: "distinct (as @ b # bs)" using vl vm_list_length by blast
  have same: "map (mcbs v') as = map (mcbs v) as" "map (mcbs v') bs = map (mcbs v) bs" using dist cx by (auto simp: new)
  have at: "mcbs v' b = \<lparr>mcb_addr = ?a, mcb_size = n, mcb_state = MCB_ALLOCATED\<rparr>"
      "mcbs v' c = \<lparr>mcb_addr = ?a + n, mcb_size = ?s - n, mcb_state = MCB_FREE\<rparr>"
    using cx by (auto simp: new)
  have lt: "unat n < unat ?s" using assms(4) by (simp add: word_less_nat_alt)
  note sizes = split_sizes [of ?a ?s n ?a, OF vm_ok_block(1) [OF ok] _ assms(3) vm_ok_block(2) [OF ok]]
  have add: "unat (?a + n) = unat ?a + unat n" "unat (?s - n) = unat ?s - unat n" using sizes(8,4) lt by simp_all
  have pos: "0 < ?s - n" using add lt by (simp add: word_less_nat_alt)
  have used: "mcb_state (mcbs v' i) = MCB_UNUSED \<longleftrightarrow> mcb_state (mcbs v i) = MCB_UNUSED \<and> i \<noteq> c" for i
    using assms(2) cx by (auto simp: new)
  have "vm_list v' (as @ b # c # bs)" by (rule vm_list_insert_after [OF vl c links(1) used])
  moreover have "tiles (unat (startAddr v)) (map (mcbs v') (as @ b # c # bs)) (unat (startAddr v) + unat (totalSize v))"
    using ok lt add pos assms(3) by (auto simp: vm_ok_def tiles_append same at)
  moreover have "unat (usedMcbCount v + 1) = length (as @ b # c # bs)"
    using ok vm_ok_count [OF ok] by (simp add: vm_ok_def unat_word_ariths)
  ultimately have "vm_ok v' (as @ b # c # bs)" using ok links(2,3) by (simp add: vm_ok_def vm_same_def)
  moreover have "no_free_pair (map (mcbs v') (as @ b # c # bs))"
    using nfp assms(2) unfolding map_append list.map no_free_pair_middle same at by (simp add: no_free_pair_first first_used_def)
  moreover have "free_sum (map (mcbs v') (as @ b # c # bs)) + unat n = free_sum (map (mcbs v) (as @ b # bs))"
    using assms(2) lt add unfolding map_append list.map same at by simp
  moreover have "allocs (map (mcbs v') (as @ b # c # bs)) = insert (?a, n) (allocs (map (mcbs v) (as @ b # bs)))"
    using assms(2) unfolding map_append list.map same at by simp
  ultimately show ?thesis by blast
qed

text \<open>The block moves up to an aligned address; there are new ones before it and, with space left, behind it.\<close>

lemma split_links:
  assumes "vm_list v (as @ b # bs)" "p \<notin> set (as @ b # bs)" "c \<notin> set (as @ b # bs)" "p \<noteq> c"
  obtains links where "ithListInsertBefore VHead (Mcb b) (Mcb p) (vm_links v) = Some links"
    "dlist links VHead (map Mcb (as @ p # b # bs))"
    "dlist (ithListInsertAfter VHead (Mcb b) (Mcb c) links) VHead (map Mcb (as @ p # b # c # bs))"
proof -
  have new: "Mcb p \<notin> set (VHead # map Mcb as @ Mcb b # map Mcb bs)"
      "Mcb c \<notin> set (VHead # (map Mcb as @ [Mcb p]) @ Mcb b # map Mcb bs)"
    using assms(2-4) by auto
  obtain links where links: "ithListInsertBefore VHead (Mcb b) (Mcb p) (vm_links v) = Some links"
      "dlist links VHead (map Mcb as @ Mcb p # Mcb b # map Mcb bs)"
    using insert_before [OF _ new(1), of "vm_links v"] assms(1) by (auto simp: vm_list_def)
  moreover have "dlist (ithListInsertAfter VHead (Mcb b) (Mcb c) links) VHead ((map Mcb as @ [Mcb p]) @ Mcb b # Mcb c # map Mcb bs)"
    using insert_after [OF _ new(2), of links] links(2) by simp
  ultimately show thesis using that by simp
qed

lemma split_around:
  assumes inv: "vmem_inv v (as @ b # bs)" and "mcb_state (mcbs v b) = MCB_FREE" "0 < n"
    and fit: "unat n + unat (al - mcb_addr (mcbs v b)) \<le> unat (mcb_size (mcbs v b))" and up: "al \<noteq> mcb_addr (mcbs v b)"
    and p: "p \<notin> set (as @ b # bs)" "p < ITH_VMEM_MCB_COUNT" and c: "c \<notin> set (as @ b # bs)" "c < ITH_VMEM_MCB_COUNT" "p \<noteq> c"
    and rest: "rest = mcb_size (mcbs v b) - n - (al - mcb_addr (mcbs v b))" and cs: "cs = (if 0 < rest then c # bs else bs)"
    and links: "dlist (vm_links v') VHead (map Mcb (as @ p # b # cs))" "vm_same v v'"
      "usedMcbCount v' = (if 0 < rest then usedMcbCount v + 1 + 1 else usedMcbCount v + 1)"
    and new: "mcbs v' = (mcbs v)(p := \<lparr>mcb_addr = mcb_addr (mcbs v b), mcb_size = al - mcb_addr (mcbs v b), mcb_state = MCB_FREE\<rparr>,
      c := \<lparr>mcb_addr = al + n, mcb_size = rest, mcb_state = (if 0 < rest then MCB_FREE else MCB_UNUSED)\<rparr>,
      b := \<lparr>mcb_addr = al, mcb_size = n, mcb_state = MCB_ALLOCATED\<rparr>)"
  shows "vm_ok v' (as @ p # b # cs) \<and> no_free_pair (map (mcbs v') as) \<and> no_free_pair (map (mcbs v') (b # cs)) \<and>
    free_sum (map (mcbs v') (as @ b # cs)) + unat (mcb_size (mcbs v' p)) + unat n = free_sum (map (mcbs v) (as @ b # bs)) \<and>
    allocs (map (mcbs v') (as @ b # cs)) = insert (al, n) (allocs (map (mcbs v) (as @ b # bs)))"
proof -
  let ?a = "mcb_addr (mcbs v b)" and ?s = "mcb_size (mcbs v b)"
  have ok: "vm_ok v (as @ b # bs)" and nfp: "no_free_pair (map (mcbs v) (as @ b # bs))"
    using inv by (simp_all add: vmem_inv_def)
  have vl: "vm_list v (as @ b # bs)" using ok by (simp add: vm_ok_def)
  have dist: "distinct (as @ b # bs)" using vl vm_list_length by blast
  have same: "map (mcbs v') as = map (mcbs v) as" "map (mcbs v') bs = map (mcbs v) bs" using dist p c by (auto simp: new)
  have at: "mcbs v' b = \<lparr>mcb_addr = al, mcb_size = n, mcb_state = MCB_ALLOCATED\<rparr>"
      "mcbs v' p = \<lparr>mcb_addr = ?a, mcb_size = al - ?a, mcb_state = MCB_FREE\<rparr>"
      "mcbs v' c = \<lparr>mcb_addr = al + n, mcb_size = rest, mcb_state = (if 0 < rest then MCB_FREE else MCB_UNUSED)\<rparr>"
    using p c by (auto simp: new)
  note sizes = split_sizes [OF vm_ok_block(1) [OF ok] fit assms(3) vm_ok_block(2) [OF ok]]
  have pad: "0 < al - ?a" using up by (simp add: word_gt_0)
  have rest_pos: "0 < rest \<longleftrightarrow> unat n + unat (al - ?a) < unat ?s"
    using sizes(5) fit by (simp add: rest word_less_nat_alt)
  have used: "mcb_state (mcbs v' i) \<noteq> MCB_UNUSED \<longleftrightarrow> i \<in> set (as @ p # b # cs)" if "i < ITH_VMEM_MCB_COUNT" for i
    using vl that p c unfolding vm_list_def by (auto simp: new cs)
  have "vm_list v' (as @ p # b # cs)"
    using vl links(1) used p c unfolding vm_list_def by (auto simp: cs)
  moreover have "tiles (unat (startAddr v)) (map (mcbs v') (as @ p # b # cs)) (unat (startAddr v) + unat (totalSize v))"
  proof (cases "0 < rest")
    case True
    then have "unat (al + n) = unat ?a + unat (al - ?a) + unat n" "unat rest = unat ?s - unat n - unat (al - ?a)"
        "unat n + unat (al - ?a) < unat ?s"
      using sizes(5,8) rest_pos by (simp_all add: rest)
    then show ?thesis
      using True ok pad sizes(1) assms(3) by (auto simp: vm_ok_def tiles_append same at cs)
  next
    case False
    then have "unat ?s = unat (al - ?a) + unat n" using rest_pos fit by simp
    then show ?thesis
      using False ok pad sizes(1) assms(3) by (auto simp: vm_ok_def tiles_append same at cs add.assoc)
  qed
  moreover have "unat (usedMcbCount v') = length (as @ p # b # cs)"
    using ok vm_ok_count [OF ok] links(3) by (simp add: vm_ok_def cs unat_word_ariths)
  ultimately have "vm_ok v' (as @ p # b # cs)" using ok links(2) by (simp add: vm_ok_def vm_same_def)
  moreover have "no_free_pair (map (mcbs v') as)" using nfp unfolding map_append list.map no_free_pair_middle same by simp
  moreover have "no_free_pair (map (mcbs v') (b # cs))"
    using nfp assms(2) unfolding map_append list.map no_free_pair_middle same at
    by (simp add: cs no_free_pair_first first_used_def at same)
  moreover have "free_sum (map (mcbs v') (as @ b # cs)) + unat (mcb_size (mcbs v' p)) + unat n = free_sum (map (mcbs v) (as @ b # bs))"
    using assms(2) fit sizes(5) rest_pos unfolding map_append list.map free_sum_simps same at by (simp add: cs same at rest)
  moreover have "allocs (map (mcbs v') (as @ b # cs)) = insert (al, n) (allocs (map (mcbs v) (as @ b # bs)))"
    using assms(2) unfolding map_append list.map allocs_simps same at by (simp add: cs same at)
  ultimately show ?thesis by blast
qed

text \<open>Splitting a free block.\<close>

lemma SplitBlock_result:
  assumes inv: "vmem_inv v (as @ b # bs)" and free: "mcb_state (mcbs v b) = MCB_FREE"
    and n: "0 < n" "unat n + unat (ITH_ALIGN_UP (mcb_addr (mcbs v b)) al - mcb_addr (mcbs v b)) \<le> unat (mcb_size (mcbs v b))"
  shows "\<exists>r v' xs. SplitBlock b al n v = Some (r, v') \<and> (r \<noteq> 0 \<longrightarrow> v' = v) \<and>
    (length (as @ b # bs) + 2 \<le> ITH_VMEM_MCB_COUNT \<longrightarrow> r = 0) \<and>
    (r = 0 \<longrightarrow> vm_ok v' xs \<and> vm_same v v' \<and> no_free_pair (map (mcbs v') xs) \<and>
      free_sum (map (mcbs v') xs) + unat n = free_sum (map (mcbs v) (as @ b # bs)) \<and>
      mcb_addr (mcbs v' b) = ITH_ALIGN_UP (mcb_addr (mcbs v b)) al \<and>
      allocs (map (mcbs v') xs) = insert (mcb_addr (mcbs v' b), n) (allocs (map (mcbs v) (as @ b # bs))))"
proof -
  let ?a = "mcb_addr (mcbs v b)" and ?s = "mcb_size (mcbs v b)"
  let ?al = "ITH_ALIGN_UP ?a al"
  have ok: "vm_ok v (as @ b # bs)" using inv by (simp add: vmem_inv_def)
  then have vl: "vm_list v (as @ b # bs)" by (simp add: vm_ok_def)
  note sizes = split_sizes [OF vm_ok_block(1) [OF ok] n(2,1) vm_ok_block(2) [OF ok]]
  have fresh: "i \<notin> set (as @ b # bs)" if "GetNextUnusedMCB v k = Some i" for i k
    using next_unused [OF that] vl unfolding vm_list_def by blast
  consider "?s = n" | "?s \<noteq> n" "?al = ?a" | "?s \<noteq> n" "?al \<noteq> ?a" by blast
  then show ?thesis
  proof cases
    case 1
    define v' where "v' = set_state b MCB_ALLOCATED (set_size b n v)"
    have "?al = ?a" using n(2) 1 by (simp add: unat_eq_zero)
    moreover have "SplitBlock b al n v = Some (0, v')" using 1 by (simp add: SplitBlock_def Let_def v'_def)
    ultimately show ?thesis
      using split_whole [OF inv free 1 v'_def] by (intro exI [of _ 0] exI [of _ v'] exI [of _ "as @ b # bs"]) (simp only: simp_thms refl)
  next
    case 2
    show ?thesis
    proof (cases "GetNextUnusedMCB v 0")
      case None
      then have "SplitBlock b al n v = Some (101, v)" using 2 by (simp add: SplitBlock_def Let_def)
      moreover have "\<not> length (as @ b # bs) + 2 \<le> ITH_VMEM_MCB_COUNT" using next_unused_some [OF vl] None by (metis option.distinct(1))
      ultimately show ?thesis by auto
    next
      case (Some c)
      let ?v = "split_off_next b c n v"
      have c: "c < ITH_VMEM_MCB_COUNT" "mcb_state (mcbs v c) = MCB_UNUSED" "c \<noteq> b"
        using next_unused [OF Some] fresh [OF Some] by auto
      have lt: "n < ?s" using n(2) 2 by (simp add: word_less_nat_alt) (metis order_le_less unsigned_word_eqI)
      have links: "vm_links ?v = ithListInsertAfter VHead (Mcb b) (Mcb c) (vm_links v)" "usedMcbCount ?v = usedMcbCount v + 1"
          "vm_same v ?v"
        by (simp_all add: split_off_next_def Let_def vm_same_def)
      have new: "mcbs ?v = (mcbs v)(c := \<lparr>mcb_addr = ?a + n, mcb_size = ?s - n, mcb_state = MCB_FREE\<rparr>,
          b := \<lparr>mcb_addr = ?a, mcb_size = n, mcb_state = MCB_ALLOCATED\<rparr>)"
        using c(3) sizes(2,6) by (auto simp: split_off_next_def Let_def fun_eq_iff)
      have "SplitBlock b al n v = Some (0, ?v)" using 2 Some by (simp add: SplitBlock_def Let_def)
      moreover have "mcb_addr (mcbs ?v b) = ?al" using 2 by (simp add: new)
      ultimately show ?thesis
        using split_behind [OF inv free n(1) lt c(1,2) links new] links(3) 2(2)
        by (intro exI [of _ 0] exI [of _ ?v] exI [of _ "as @ b # c # bs"]) simp
    qed
  next
    case 3
    show ?thesis
    proof (cases "\<exists>p c. GetNextUnusedMCB v 0 = Some p \<and> GetNextUnusedMCB v (p + 1) = Some c")
      case False
      then have "SplitBlock b al n v = Some (124, v)" using 3 by (auto simp: SplitBlock_def Let_def split: option.splits)
      moreover have "\<not> length (as @ b # bs) + 2 \<le> ITH_VMEM_MCB_COUNT" using next_unused_some [OF vl] False by blast
      ultimately show ?thesis by auto
    next
      case True
      then obtain p c where pc: "GetNextUnusedMCB v 0 = Some p" "GetNextUnusedMCB v (p + 1) = Some c" by blast
      have p: "p \<notin> set (as @ b # bs)" "p < ITH_VMEM_MCB_COUNT" and c: "c \<notin> set (as @ b # bs)" "c < ITH_VMEM_MCB_COUNT" "p \<noteq> c"
        using next_unused [OF pc(1)] next_unused [OF pc(2)] fresh [OF pc(1)] fresh [OF pc(2)] by auto
      define rest where "rest = ?s - n - (?al - ?a)"
      define cs where "cs = (if 0 < rest then c # bs else bs)"
      obtain links where links: "ithListInsertBefore VHead (Mcb b) (Mcb p) (vm_links v) = Some links"
          "dlist links VHead (map Mcb (as @ p # b # bs))"
          "dlist (ithListInsertAfter VHead (Mcb b) (Mcb c) links) VHead (map Mcb (as @ p # b # c # bs))"
        by (rule split_links [OF vl p(1) c(1,3)])
      have ne: "b \<noteq> p" "b \<noteq> c" using p c by auto
      have bits: "bits30 n = n" "bits30 (?al - ?a) = ?al - ?a" "bits30 rest = rest" using sizes(2,3,7) by (simp_all add: rest_def)
      obtain v1 where v1: "split_off_both b p c ?al n v = Some v1"
          "mcbs v1 = (mcbs v)(p := \<lparr>mcb_addr = ?a, mcb_size = ?al - ?a, mcb_state = MCB_FREE\<rparr>,
             c := \<lparr>mcb_addr = ?al + n, mcb_size = rest, mcb_state = (if 0 < rest then MCB_FREE else MCB_UNUSED)\<rparr>,
             b := \<lparr>mcb_addr = ?al, mcb_size = n, mcb_state = MCB_ALLOCATED\<rparr>)"
          "vm_links v1 = (if 0 < rest then ithListInsertAfter VHead (Mcb b) (Mcb c) links else links)"
          "usedMcbCount v1 = (if 0 < rest then usedMcbCount v + 1 + 1 else usedMcbCount v + 1)" "vm_same v v1"
        using links(1) ne c(3) bits
        by (cases "0 < rest") (auto simp: split_off_both_def Let_def vm_same_def fun_eq_iff rest_def [symmetric])
      have dl: "dlist (vm_links v1) VHead (map Mcb (as @ p # b # cs))" using v1(3) links(2,3) by (simp add: cs_def)
      note around = split_around [OF inv free n(1,2) 3(2) p c rest_def cs_def dl v1(5,4,2)]
      have used: "mcb_state (mcbs v1 p) \<noteq> MCB_UNUSED" using v1(2) ne c(3) by simp
      obtain v' xs where m: "MergeBlock p v1 = Some v'" "vm_ok v' xs" "vm_same v1 v'" "no_free_pair (map (mcbs v') xs)"
          "free_sum (map (mcbs v') xs) = free_sum (map (mcbs v1) (as @ b # cs)) + unat (mcb_size (mcbs v1 p))"
          "allocs (map (mcbs v') xs) = allocs (map (mcbs v1) (as @ b # cs))"
          "\<forall>i \<in> set (as @ b # cs). mcb_state (mcbs v1 i) = MCB_ALLOCATED \<longrightarrow> mcbs v' i = mcbs v1 i"
        using MergeBlock_result [OF around [THEN conjunct1] around [THEN conjunct2, THEN conjunct1]
            around [THEN conjunct2, THEN conjunct2, THEN conjunct1] used]
        by (elim exE conjE) (rule that)
      have run: "SplitBlock b al n v = Some (0, v')" using 3 pc v1(1) m(1) by (simp add: SplitBlock_def Let_def)
      have at: "mcb_addr (mcbs v' b) = ?al" using m(7) v1(2) by simp
      have "vm_same v v'" using v1(5) m(3) by (simp add: vm_same_def)
      then show ?thesis
        using run at m(2,4,5,6) around by (intro exI [of _ 0] exI [of _ v'] exI [of _ xs]) (simp only: simp_thms refl)
    qed
  qed
qed

section \<open>Searching the list\<close>

definition node_of :: "nat list \<Rightarrow> vm_node option" where
  "node_of ys = (case ys of [] \<Rightarrow> None | y # _ \<Rightarrow> Some (Mcb y))"

lemma node_of_simps [simp]: "node_of [] = None" "node_of (y # ys) = Some (Mcb y)"
  by (simp_all add: node_of_def)

lemma vm_list_next:
  assumes "vm_list v (pre @ y # ys)"
  shows "next_of (vm_links v) (Mcb y) = node_of ys"
  using assms dlist_next [of "vm_links v" VHead "map Mcb pre" "Mcb y" "map Mcb ys"]
  by (auto simp: vm_list_def node_of_def split: list.splits)

lemma vm_list_first: "vm_list v xs \<Longrightarrow> next_of (vm_links v) VHead = node_of xs"
  by (cases xs) (auto simp: vm_list_def dlist_def)

lemma vm_list_state:
  assumes "vm_list v xs" "i \<in> set xs"
  shows "mcb_state (mcbs v i) = MCB_FREE \<or> mcb_state (mcbs v i) = MCB_ALLOCATED"
  using assms by (cases "mcb_state (mcbs v i)") (auto simp: vm_list_def)

text \<open>A free block that the request fits in, with the padding to its alignment.\<close>

definition fits :: "ITHVmem \<Rightarrow> u32 \<Rightarrow> u32 \<Rightarrow> nat \<Rightarrow> bool" where
  "fits v al n i \<longleftrightarrow> mcb_state (mcbs v i) = MCB_FREE \<and>
     n + (ITH_ALIGN_UP (mcb_addr (mcbs v i)) al - mcb_addr (mcbs v i)) \<le> mcb_size (mcbs v i)"

text \<open>The result of the search: the smallest of the blocks that fit and the one found before.\<close>

fun is_best :: "ITHVmem \<Rightarrow> u32 \<Rightarrow> u32 \<Rightarrow> nat list \<Rightarrow> nat option \<Rightarrow> nat option \<Rightarrow> bool" where
  "is_best v al n ys best None \<longleftrightarrow> best = None \<and> (\<forall>i \<in> set ys. \<not> fits v al n i)"
| "is_best v al n ys best (Some b) \<longleftrightarrow> (best = Some b \<or> b \<in> set ys \<and> fits v al n b) \<and>
     (\<forall>i \<in> set ys. fits v al n i \<longrightarrow> mcb_size (mcbs v b) \<le> mcb_size (mcbs v i)) \<and>
     (\<forall>i. best = Some i \<longrightarrow> mcb_size (mcbs v b) \<le> mcb_size (mcbs v i))"

lemma best_fit_result:
  assumes "vm_list v (pre @ ys)"
  shows "\<exists>r. best_fit v al n (node_of ys) best = Some r \<and> is_best v al n ys best r"
  using assms
proof (induction ys arbitrary: pre best)
  case Nil
  then show ?case by (subst best_fit.simps) (cases best, auto)
next
  case (Cons y ys)
  have vl: "vm_list v ((pre @ [y]) @ ys)" using Cons.prems by simp
  have y: "y \<in> set (pre @ y # ys)" by simp
  note step = best_fit.simps [of v al n "node_of (y # ys)" best] and nxt = vm_list_next [OF Cons.prems]
  show ?case
  proof (cases "fits v al n y \<and> (best = None \<or> mcb_size (mcbs v y) < mcb_size (mcbs v (the best)))")
    case True
    then have run: "best_fit v al n (node_of (y # ys)) best = best_fit v al n (node_of ys) (Some y)"
      unfolding step by (simp add: nxt Let_def fits_def)
    obtain r where r: "best_fit v al n (node_of ys) (Some y) = Some r" "is_best v al n ys (Some y) r"
      using Cons.IH [OF vl] by blast
    have "is_best v al n (y # ys) best r"
    proof (cases r)
      case (Some b)
      have le: "mcb_size (mcbs v b) \<le> mcb_size (mcbs v y)" using r(2) Some by simp
      have "mcb_size (mcbs v b) \<le> mcb_size (mcbs v i)" if "best = Some i" for i
      proof -
        have "mcb_size (mcbs v y) \<le> mcb_size (mcbs v i)" using True that by (auto intro: less_imp_le)
        with le show ?thesis by (rule order_trans)
      qed
      then show ?thesis using r(2) Some le True by auto
    qed (use r(2) in simp)
    with run r(1) show ?thesis by simp
  next
    case False
    then have run: "best_fit v al n (node_of (y # ys)) best = best_fit v al n (node_of ys) best"
      unfolding step using vm_list_state [OF Cons.prems y] by (auto simp: nxt Let_def fits_def)
    obtain r where r: "best_fit v al n (node_of ys) best = Some r" "is_best v al n ys best r"
      using Cons.IH [OF vl] by blast
    have "is_best v al n (y # ys) best r"
      using r(2) False by (cases r) (auto simp: not_less intro: order_trans)
    with run r(1) show ?thesis by simp
  qed
qed

lemma find_mcb_result:
  assumes "vm_list v (pre @ ys)"
  shows "find_mcb v addr (node_of ys) mcb =
    Some (case find (\<lambda>i. mcb_addr (mcbs v i) = addr) ys of
            Some i \<Rightarrow> Some i | None \<Rightarrow> if ys = [] then mcb else Some (last ys))"
  using assms
proof (induction ys arbitrary: pre mcb)
  case Nil
  then show ?case by (subst find_mcb.simps) simp
next
  case (Cons y ys)
  have vl: "vm_list v ((pre @ [y]) @ ys)" using Cons.prems by simp
  show ?case
    using Cons.IH [OF vl, of "Some y"] vm_list_next [OF Cons.prems]
    by (subst find_mcb.simps) (auto split: option.splits)
qed

text \<open>Different blocks do not overlap.\<close>

lemma tiles_apart:
  assumes "tiles a (ms @ m # ms') e"
  shows "m' \<in> set ms \<Longrightarrow> unat (mcb_addr m') + unat (mcb_size m') \<le> unat (mcb_addr m)"
    "m' \<in> set ms' \<Longrightarrow> unat (mcb_addr m) + unat (mcb_size m) \<le> unat (mcb_addr m')"
    "a \<le> unat (mcb_addr m)" "unat (mcb_addr m) + unat (mcb_size m) \<le> e" "0 < mcb_size m"
proof -
  have m: "tiles a ms (unat (mcb_addr m))" "0 < mcb_size m" "tiles (unat (mcb_addr m) + unat (mcb_size m)) ms' e"
    using assms by (auto simp: tiles_append)
  show "a \<le> unat (mcb_addr m)" "unat (mcb_addr m) + unat (mcb_size m) \<le> e" "0 < mcb_size m"
    using m tiles_le by auto
  show "unat (mcb_addr m') + unat (mcb_size m') \<le> unat (mcb_addr m)" if m': "m' \<in> set ms"
  proof -
    obtain xs ys where "ms = xs @ m' # ys" using split_list [OF m'] by blast
    then show ?thesis using m(1) by (auto simp: tiles_append dest: tiles_le)
  qed
  show "unat (mcb_addr m) + unat (mcb_size m) \<le> unat (mcb_addr m')" if m': "m' \<in> set ms'"
  proof -
    obtain xs ys where "ms' = xs @ m' # ys" using split_list [OF m'] by blast
    then show ?thesis using m(3) by (auto simp: tiles_append dest: tiles_le)
  qed
qed

section \<open>The interface keeps the invariant\<close>

definition free_vmem :: "ITHVmem \<Rightarrow> bool" where
  "free_vmem v \<longleftrightarrow> (\<forall>i. mcb_state (mcbs v i) = MCB_UNUSED) \<and> next_of (vm_links v) VHead = None \<and>
     prev_of (vm_links v) VHead = None \<and> vm_mutex v \<and> 0 < startAddr v \<and> 0 < totalSize v \<and>
     unat (startAddr v) + unat (totalSize v) \<le> 2 ^ 32 \<and> unat (totalSize v) < 2 ^ 30"

lemma vmem_init_result:
  assumes "free_vmem v"
  shows "\<exists>v'. ithVmemInit v = Some v' \<and> vmem_inv v' [0] \<and> allocs (map (mcbs v') [0]) = {} \<and>
    startAddr v' = startAddr v \<and> totalSize v' = totalSize v"
proof -
  have bits: "bits30 (totalSize v) = totalSize v" using assms by (simp add: bits30_small free_vmem_def)
  have "dlist (vm_links v) VHead []" using assms by (simp add: dlist_def free_vmem_def)
  then have "dlist (ithListPushFront VHead (Mcb 0) (vm_links v)) VHead [Mcb 0]"
    using push_front [of "vm_links v" VHead "[]" "Mcb 0"] by simp
  then show ?thesis
    using assms bits by (auto simp: ithVmemInit_def Let_def free_vmem_def vmem_inv_def vm_ok_def vm_list_def)
qed

text \<open>The size of an allocation: rounded up to 32, which must not wrap around.\<close>

lemma round32:
  assumes "0 < n" "unat n \<le> 2 ^ 32 - 32"
  shows "n \<le> ITH_ALIGN_UP n 32" "unat (ITH_ALIGN_UP n 32) < unat n + 32" "32 dvd unat (ITH_ALIGN_UP n 32)" "0 < ITH_ALIGN_UP n 32"
proof -
  have p: "unat (ITH_ALIGN_UP n (2 ^ 5) - n) < 2 ^ 5" "2 ^ 5 dvd unat (ITH_ALIGN_UP n (2 ^ 5))"
    by (rule mask_pad, simp)+
  then show d: "32 dvd unat (ITH_ALIGN_UP n 32)" by simp
  let ?p = "ITH_ALIGN_UP n 32 - n"
  have small: "unat n + unat ?p < 2 ^ 32" using p(1) assms(2) by simp
  have "ITH_ALIGN_UP n 32 = n + ?p" by simp
  also have "unat \<dots> = (unat n + unat ?p) mod 2 ^ 32" by (simp only: unat_word_ariths) simp
  also have "\<dots> = unat n + unat ?p" using small by (rule mod_less)
  finally have sum: "unat (ITH_ALIGN_UP n 32) = unat n + unat ?p" .
  then show "n \<le> ITH_ALIGN_UP n 32" "unat (ITH_ALIGN_UP n 32) < unat n + 32" using p(1) by (simp_all add: word_le_nat_alt)
  show "0 < ITH_ALIGN_UP n 32" using sum assms(1) by (simp add: word_less_nat_alt)
qed

lemma pad_sum:
  assumes "k \<le> 31" "unat n < 2 ^ 30"
  shows "unat (n + (ITH_ALIGN_UP a (2 ^ k) - a)) = unat n + unat (ITH_ALIGN_UP a (2 ^ k) - a)"
proof -
  have "(2 :: nat) ^ k \<le> 2 ^ 31" by (rule power_increasing) (use assms(1) in simp_all)
  then have "unat n + unat (ITH_ALIGN_UP a (2 ^ k) - a) < 2 ^ 32" using mask_pad(1) [OF assms(1), of a] assms(2) by simp
  moreover have "unat (n + (ITH_ALIGN_UP a (2 ^ k) - a)) = (unat n + unat (ITH_ALIGN_UP a (2 ^ k) - a)) mod 2 ^ 32"
    by (simp only: unat_word_ariths) simp
  ultimately show ?thesis by simp
qed

text \<open>The condition of the search in numbers; it does not wrap around for sizes up to the bit field.\<close>

definition has_room :: "ITHVmem \<Rightarrow> u32 \<Rightarrow> u32 \<Rightarrow> nat \<Rightarrow> bool" where
  "has_room v al n i \<longleftrightarrow> mcb_state (mcbs v i) = MCB_FREE \<and>
     unat n + unat (ITH_ALIGN_UP (mcb_addr (mcbs v i)) al - mcb_addr (mcbs v i)) \<le> unat (mcb_size (mcbs v i))"

lemma fits_room: "k \<le> 31 \<Longrightarrow> unat n < 2 ^ 30 \<Longrightarrow> fits v (2 ^ k) n i \<longleftrightarrow> has_room v (2 ^ k) n i"
  by (simp add: fits_def has_room_def word_le_nat_alt pad_sum)

lemma vmem_alloc_result:
  assumes inv: "vmem_inv v xs" and n: "0 < n" "unat n \<le> 2 ^ 32 - 32" and k: "k \<le> 31"
    and N: "N = ITH_ALIGN_UP n 32"
  shows "\<exists>addr v' xs'. ithVmemAlignedAlloc (2 ^ k) n v = Some (addr, v') \<and> vmem_inv v' xs' \<and>
    startAddr v' = startAddr v \<and> totalSize v' = totalSize v \<and> (addr = 0 \<longrightarrow> v' = v) \<and>
    (addr \<noteq> 0 \<longrightarrow> 2 ^ k dvd unat addr \<and> unat (freeSize v') + unat N = unat (freeSize v) \<and>
      allocs (map (mcbs v') xs') = insert (addr, N) (allocs (map (mcbs v) xs)) \<and>
      (\<forall>(a, s) \<in> allocs (map (mcbs v) xs). unat a + unat s \<le> unat addr \<or> unat addr + unat N \<le> unat a)) \<and>
    (length xs + 2 \<le> ITH_VMEM_MCB_COUNT \<and> (\<exists>i \<in> set xs. has_room v (2 ^ k) N i) \<longrightarrow> addr \<noteq> 0)"
proof -
  have ok: "vm_ok v xs" and pos: "0 < startAddr v" using inv by (simp_all add: vmem_inv_def)
  have vl: "vm_list v ([] @ xs)" using ok by (simp add: vm_ok_def)
  have tile: "tiles (unat (startAddr v)) (map (mcbs v) xs) (unat (startAddr v) + unat (totalSize v))"
    and total: "unat (totalSize v) < 2 ^ 30"
    using ok by (simp_all add: vm_ok_def)
  note N' = round32 [OF n, folded N]
  have nz: "n \<noteq> 0" using n(1) by auto
  have start: "ithVmemAlignedAlloc (2 ^ k) n v =
     (if N > totalSize v then Some (0, v)
      else do {
        best \<leftarrow> best_fit v (2 ^ k) N (node_of xs) None;
        case best of
          None \<Rightarrow> Some (0, v)
        | Some block \<Rightarrow> do {
            (result, v) \<leftarrow> SplitBlock block (2 ^ k) N v;
            if result \<noteq> 0 then Some (0, v)
            else let v = v\<lparr>freeSize := freeSize v - N\<rparr> in Some (mcb_addr (mcbs v block), v)
          }
      })"
    using nz vm_list_first [OF vl] unfolding ithVmemAlignedAlloc_def N by (simp add: Let_def)
  show ?thesis
  proof (cases "N > totalSize v")
    case True
    have "\<not> has_room v (2 ^ k) N i" if i: "i \<in> set xs" for i
    proof -
      obtain as bs where "xs = as @ i # bs" using split_list [OF i] by blast
      then have "unat (mcb_size (mcbs v i)) \<le> unat (totalSize v)" using tiles_sum [OF tile] by simp
      then show ?thesis using True by (simp add: has_room_def word_less_nat_alt)
    qed
    then show ?thesis using start True inv by auto
  next
    case False
    obtain r where r: "best_fit v (2 ^ k) N (node_of xs) None = Some r" "is_best v (2 ^ k) N xs None r"
      using best_fit_result [OF vl] by blast
    have small: "unat N < 2 ^ 30" using False total by (simp add: word_less_nat_alt)
    note room = fits_room [OF k small, of v]
    show ?thesis
    proof (cases r)
      case None
      then show ?thesis using start False r inv by (auto simp: room)
    next
      case (Some b)
      have b: "b \<in> set xs" "fits v (2 ^ k) N b" using r(2) Some by simp_all
      obtain as bs where xs: "xs = as @ b # bs" using split_list [OF b(1)] by blast
      let ?a = "mcb_addr (mcbs v b)" and ?s = "mcb_size (mcbs v b)"
      let ?al = "ITH_ALIGN_UP ?a (2 ^ k)"
      have fit: "unat N + unat (?al - ?a) \<le> unat ?s"
        using b(2) by (simp add: room has_room_def)
      have free: "mcb_state (mcbs v b) = MCB_FREE" using b(2) by (simp add: fits_def)
      obtain q v' xs' where q: "SplitBlock b (2 ^ k) N v = Some (q, v')" "q \<noteq> 0 \<longrightarrow> v' = v"
          "length (as @ b # bs) + 2 \<le> ITH_VMEM_MCB_COUNT \<longrightarrow> q = 0"
          "q = 0 \<longrightarrow> vm_ok v' xs' \<and> vm_same v v' \<and> no_free_pair (map (mcbs v') xs') \<and>
            free_sum (map (mcbs v') xs') + unat N = free_sum (map (mcbs v) (as @ b # bs)) \<and>
            mcb_addr (mcbs v' b) = ?al \<and>
            allocs (map (mcbs v') xs') = insert (mcb_addr (mcbs v' b), N) (allocs (map (mcbs v) (as @ b # bs)))"
        using SplitBlock_result [OF inv [unfolded xs] free N'(4) fit] by (elim exE conjE) (rule that)
      show ?thesis
      proof (cases "q = 0")
        case False
        then show ?thesis using start \<open>\<not> N > totalSize v\<close> r Some q(1,2,3) inv xs by auto
      next
        case True
        let ?v = "v'\<lparr>freeSize := freeSize v' - N\<rparr>"
        have res: "vm_ok v' xs'" "vm_same v v'" "no_free_pair (map (mcbs v') xs')"
            "free_sum (map (mcbs v') xs') + unat N = free_sum (map (mcbs v) xs)" "mcb_addr (mcbs v' b) = ?al"
            "allocs (map (mcbs v') xs') = insert (?al, N) (allocs (map (mcbs v) xs))"
          using q(4) True by (simp_all add: xs)
        have run: "ithVmemAlignedAlloc (2 ^ k) n v = Some (?al, ?v)"
          using start False r Some q(1) True res(5) by simp
        note apart = tiles_apart [of _ "map (mcbs v) as" "mcbs v b" "map (mcbs v) bs", OF tile [unfolded xs map_append list.map]]
        have "unat (freeSize v' - N) + unat N = unat (freeSize v)" "unat (freeSize v' - N) = free_sum (map (mcbs v') xs')"
          using inv res(2,4) by (simp_all add: vmem_inv_def vm_same_def unat_sub word_le_nat_alt)
        note sums = this
        have "2 ^ k dvd unat ?al" by (rule mask_pad [OF k])
        moreover have "?al \<noteq> 0"
          using split_sizes(1) [OF vm_ok_block(1) [OF ok [unfolded xs]] fit N'(4) vm_ok_block(2) [OF ok [unfolded xs]]]
            apart(3) pos by (auto simp: word_less_nat_alt)
        moreover have "unat a + unat s \<le> unat ?al \<or> unat ?al + unat N \<le> unat a"
          if old: "(a, s) \<in> allocs (map (mcbs v) xs)" for a s
        proof -
          have al: "unat ?a \<le> unat ?al" "unat ?al + unat N \<le> unat ?a + unat ?s"
            using split_sizes(1) [OF vm_ok_block(1) [OF ok [unfolded xs]] fit N'(4) vm_ok_block(2) [OF ok [unfolded xs]]] fit
            by simp_all
          obtain m where m: "m \<in> set (map (mcbs v) as) \<or> m \<in> set (map (mcbs v) bs)" "a = mcb_addr m" "s = mcb_size m"
            using old free by (auto simp: allocs_def xs)
          show ?thesis using m(1) apart(1,2) [of m] al by (auto simp: m(2,3))
        qed
        moreover have "vmem_inv ?v xs'"
          using res(1-3) sums(2) pos by (simp add: vmem_inv_def vm_ok_def vm_list_def vm_same_def)
        ultimately show ?thesis
          using sums run res(2,6) by (intro exI [of _ ?al] exI [of _ ?v] exI [of _ xs'] conjI) (auto simp: vm_same_def)
      qed
    qed
  qed
qed

lemma find_skip: "(\<And>x. x \<in> set xs \<Longrightarrow> \<not> P x) \<Longrightarrow> P b \<Longrightarrow> find P (xs @ b # ys) = Some b"
  by (induction xs) auto

lemma free_sum_le: "free_sum ms \<le> sum_list (map (\<lambda>m. unat (mcb_size m)) ms)"
  by (induction ms) auto

text \<open>A block is found by its address, which no other block has.\<close>

lemma vmem_find:
  assumes inv: "vmem_inv v xs" and b: "b \<in> set xs"
  shows "find_mcb v (mcb_addr (mcbs v b)) (next_of (vm_links v) VHead) None = Some (Some b)"
    "mcb_addr (mcbs v b) \<noteq> 0" "\<And>i. i \<in> set xs \<Longrightarrow> i \<noteq> b \<Longrightarrow> mcb_addr (mcbs v i) \<noteq> mcb_addr (mcbs v b)"
proof -
  let ?addr = "mcb_addr (mcbs v b)"
  have ok: "vm_ok v xs" and pos: "0 < startAddr v" using inv by (simp_all add: vmem_inv_def)
  have vl: "vm_list v ([] @ xs)" using ok by (simp add: vm_ok_def)
  obtain as bs where xs: "xs = as @ b # bs" using split_list [OF b] by blast
  have tile: "tiles (unat (startAddr v)) (map (mcbs v) as @ mcbs v b # map (mcbs v) bs) (unat (startAddr v) + unat (totalSize v))"
    using ok by (simp add: vm_ok_def xs)
  note apart = tiles_apart [OF tile]
  have addr: "mcb_addr (mcbs v i) \<noteq> ?addr" if i: "i \<in> set as \<union> set bs" for i
  proof (cases "i \<in> set as")
    case True
    obtain cs ds where "as = cs @ i # ds" using split_list [OF True] by blast
    then have "0 < mcb_size (mcbs v i)" using tile by (auto simp: tiles_append)
    then show ?thesis using apart(1) [of "mcbs v i"] True by (auto simp: word_less_nat_alt)
  next
    case False
    then show ?thesis using apart(2) [of "mcbs v i"] apart(5) i by (auto simp: word_less_nat_alt)
  qed
  then show "i \<in> set xs \<Longrightarrow> i \<noteq> b \<Longrightarrow> mcb_addr (mcbs v i) \<noteq> ?addr" for i by (auto simp: xs)
  have "find (\<lambda>i. mcb_addr (mcbs v i) = ?addr) xs = Some b"
    unfolding xs by (rule find_skip) (use addr in auto)
  then show "find_mcb v ?addr (next_of (vm_links v) VHead) None = Some (Some b)"
    using find_mcb_result [OF vl] vm_list_first [OF vl] by simp
  show "?addr \<noteq> 0" using apart(3) pos by (auto simp: word_less_nat_alt)
qed

lemma vmem_free_result:
  assumes inv: "vmem_inv v xs" and alloc: "(addr, n) \<in> allocs (map (mcbs v) xs)"
  shows "\<exists>v' xs'. ithVmemFree addr v = Some v' \<and> vmem_inv v' xs' \<and> startAddr v' = startAddr v \<and> totalSize v' = totalSize v \<and>
    allocs (map (mcbs v') xs') = allocs (map (mcbs v) xs) - {(addr, n)} \<and>
    unat (freeSize v') = unat (freeSize v) + unat n"
proof -
  have ok: "vm_ok v xs" and pos: "0 < startAddr v" and nfp: "no_free_pair (map (mcbs v) xs)"
    using inv by (simp_all add: vmem_inv_def)
  have vl: "vm_list v ([] @ xs)" using ok by (simp add: vm_ok_def)
  obtain b where b: "b \<in> set xs" "mcb_addr (mcbs v b) = addr" "mcb_size (mcbs v b) = n" "mcb_state (mcbs v b) = MCB_ALLOCATED"
    using alloc by (auto simp: allocs_def)
  obtain as bs where xs: "xs = as @ b # bs" using split_list [OF b(1)] by blast
  have total: "unat (totalSize v) < 2 ^ 30" using ok by (simp add: vm_ok_def)
  note fnd = vmem_find [OF inv b(1), unfolded b(2)]
  have other: "mcb_addr (mcbs v i) \<noteq> addr" if "i \<in> set as \<union> set bs" for i
  proof -
    have "i \<in> set xs" "i \<noteq> b" using that vm_list_length [OF vl] by (auto simp: xs)
    then show ?thesis using fnd(3) by blast
  qed
  have nfp': "no_free_pair (map (mcbs v) as)" "no_free_pair (map (mcbs v) bs)"
    using nfp by (simp_all add: xs no_free_pair_middle)
  obtain v' xs' where m: "MergeBlock b v = Some v'" "vm_ok v' xs'" "vm_same v v'" "no_free_pair (map (mcbs v') xs')"
      "free_sum (map (mcbs v') xs') = free_sum (map (mcbs v) (as @ bs)) + unat (mcb_size (mcbs v b))"
      "allocs (map (mcbs v') xs') = allocs (map (mcbs v) (as @ bs))"
    using MergeBlock_result [OF ok [unfolded xs] nfp'] b(4) by auto
  let ?v = "v'\<lparr>freeSize := freeSize v' + n\<rparr>"
  have run: "ithVmemFree addr v = Some ?v" using fnd(1,2) b m(1) by (simp add: ithVmemFree_def Let_def)
  have sum: "free_sum (map (mcbs v') xs') = unat (freeSize v) + unat n"
    using inv m(5) b by (simp add: vmem_inv_def xs)
  have "free_sum (map (mcbs v') xs') \<le> unat (totalSize v')"
    using m(2) free_sum_le [of "map (mcbs v') xs'"] unfolding vm_ok_def by (auto dest: tiles_sum)
  then have "free_sum (map (mcbs v') xs') < 2 ^ 32" using m(3) total by (simp add: vm_same_def)
  then have free: "unat (freeSize v' + n) = unat (freeSize v) + unat n"
    using sum m(3) by (simp add: vm_same_def unat_word_ariths)
  have "allocs (map (mcbs v) (as @ bs)) = allocs (map (mcbs v) xs) - {(addr, n)}"
    using other b by (auto simp: xs allocs_def)
  moreover have "vmem_inv ?v xs'"
    using m(2-4) sum free pos by (simp add: vmem_inv_def vm_ok_def vm_list_def vm_same_def)
  ultimately show ?thesis
    using run m(3,6) free by (intro exI [of _ ?v] exI [of _ xs'] conjI) (simp_all add: vm_same_def)
qed

end
