(* ===== verification/ITH_Vmem_Spec.thy ===== *)
theory ITH_Vmem_Spec
  imports ITH_Vmem
begin

text \<open>
  What the allocator of video memory promises: the abstract state is the set of the allocated ranges.
  Here are its transitions, the reachable states and the properties.
\<close>

section \<open>The abstract transitions\<close>

datatype vm_op = Alloc nat u32 | Free u32

text \<open>A request has a power of two as its alignment.\<close>

fun vm_call :: "vm_op \<Rightarrow> ITHVmem \<Rightarrow> (u32 \<times> ITHVmem) option" where
  "vm_call (Alloc k n) v = ithVmemAlignedAlloc (2 ^ k) n v"
| "vm_call (Free addr) v = do { v \<leftarrow> ithVmemFree addr v; Some (0, v) }"

fun vm_pre :: "vm_op \<Rightarrow> (u32 \<times> u32) set \<Rightarrow> bool" where
  "vm_pre (Alloc k n) A \<longleftrightarrow> k \<le> 31 \<and> 0 < n \<and> unat n \<le> 2 ^ 32 - 32"
| "vm_pre (Free addr) A \<longleftrightarrow> addr \<in> fst ` A"

text \<open>Two ranges without a common address.\<close>

definition apart :: "u32 \<times> u32 \<Rightarrow> u32 \<times> u32 \<Rightarrow> bool" where
  "apart r r' \<longleftrightarrow> unat (fst r) + unat (snd r) \<le> unat (fst r') \<or> unat (fst r') + unat (snd r') \<le> unat (fst r)"

fun vm_spec :: "vm_op \<Rightarrow> (u32 \<times> u32) set \<Rightarrow> u32 \<Rightarrow> (u32 \<times> u32) set \<Rightarrow> bool" where
  "vm_spec (Alloc k n) A addr A' \<longleftrightarrow>
     (if addr = 0 then A' = A
      else 2 ^ k dvd unat addr \<and> A' = insert (addr, ITH_ALIGN_UP n 32) A \<and> (\<forall>r \<in> A. apart r (addr, ITH_ALIGN_UP n 32)))"
| "vm_spec (Free a) A addr A' \<longleftrightarrow> (\<exists>n. (a, n) \<in> A \<and> A' = A - {(a, n)})"

definition vm_allocs :: "ITHVmem \<Rightarrow> nat list \<Rightarrow> (u32 \<times> u32) set" where
  "vm_allocs v xs = allocs (map (mcbs v) xs)"

lemma vm_call_refines:
  assumes "vmem_inv v xs" "vm_pre op (vm_allocs v xs)"
  shows "\<exists>addr v' xs'. vm_call op v = Some (addr, v') \<and> vmem_inv v' xs' \<and>
    startAddr v' = startAddr v \<and> totalSize v' = totalSize v \<and> vm_spec op (vm_allocs v xs) addr (vm_allocs v' xs')"
proof (cases op)
  case (Alloc k n)
  then have pre: "0 < n" "unat n \<le> 2 ^ 32 - 32" "k \<le> 31" using assms(2) by simp_all
  obtain addr v' xs' where a: "ithVmemAlignedAlloc (2 ^ k) n v = Some (addr, v')" "vmem_inv v' xs'"
      "startAddr v' = startAddr v" "totalSize v' = totalSize v" "addr = 0 \<longrightarrow> v' = v"
      "addr \<noteq> 0 \<longrightarrow> 2 ^ k dvd unat addr \<and> unat (freeSize v') + unat (ITH_ALIGN_UP n 32) = unat (freeSize v) \<and>
        allocs (map (mcbs v') xs') = insert (addr, ITH_ALIGN_UP n 32) (allocs (map (mcbs v) xs)) \<and>
        (\<forall>(a, s) \<in> allocs (map (mcbs v) xs). unat a + unat s \<le> unat addr \<or> unat addr + unat (ITH_ALIGN_UP n 32) \<le> unat a)"
    using vmem_alloc_result [OF assms(1) pre refl] by (elim exE conjE) (rule that)
  show ?thesis
  proof (cases "addr = 0")
    case True
    then show ?thesis using a(1,5) assms(1) Alloc by (auto simp: vm_allocs_def)
  next
    case False
    then have "vm_spec op (vm_allocs v xs) addr (vm_allocs v' xs')"
      using a(6) Alloc by (auto simp: vm_allocs_def apart_def)
    then show ?thesis using a(1-4) Alloc by auto
  qed
next
  case (Free addr)
  then obtain n where n: "(addr, n) \<in> allocs (map (mcbs v) xs)" using assms(2) by (auto simp: vm_allocs_def)
  obtain v' xs' where f: "ithVmemFree addr v = Some v'" "vmem_inv v' xs'"
      "startAddr v' = startAddr v" "totalSize v' = totalSize v"
      "allocs (map (mcbs v') xs') = allocs (map (mcbs v) xs) - {(addr, n)}"
    using vmem_free_result [OF assms(1) n] by (elim exE conjE) (rule that)
  then show ?thesis using n Free by (auto simp: vm_allocs_def)
qed

section \<open>Reachable states\<close>

inductive vm_reach :: "ITHVmem \<Rightarrow> nat list \<Rightarrow> bool" where
  init: "free_vmem v \<Longrightarrow> ithVmemInit v = Some v' \<Longrightarrow> vm_reach v' [0]"
| step: "vm_reach v xs \<Longrightarrow> vm_pre op (vm_allocs v xs) \<Longrightarrow> vm_call op v = Some (addr, v') \<Longrightarrow> vmem_inv v' xs' \<Longrightarrow> vm_reach v' xs'"

lemma vm_reach_inv: "vm_reach v xs \<Longrightarrow> vmem_inv v xs"
  by (induction rule: vm_reach.induct) (use vmem_init_result in fastforce)+

lemma allocs_apart:
  assumes "tiles a ms e" "r \<in> allocs ms" "r' \<in> allocs ms" "r \<noteq> r'"
  shows "apart r r'"
proof -
  obtain m m' where m: "m \<in> set ms" "r = (mcb_addr m, mcb_size m)" "m' \<in> set ms" "r' = (mcb_addr m', mcb_size m')" "m \<noteq> m'"
    using assms(2-4) by (auto simp: allocs_def)
  obtain xs ys where ms: "ms = xs @ m # ys" using split_list [OF m(1)] by blast
  then have "m' \<in> set xs \<or> m' \<in> set ys" using m(3,5) by auto
  then show ?thesis
    using tiles_apart(1,2) [OF assms(1) [unfolded ms], of m'] by (auto simp: apart_def m(2,4))
qed

lemma allocs_range:
  assumes "tiles a ms e" "r \<in> allocs ms"
  shows "a \<le> unat (fst r) \<and> unat (fst r) + unat (snd r) \<le> e \<and> 0 < snd r"
proof -
  obtain m where m: "m \<in> set ms" "r = (mcb_addr m, mcb_size m)" using assms(2) by (auto simp: allocs_def)
  obtain xs ys where ms: "ms = xs @ m # ys" using split_list [OF m(1)] by blast
  show ?thesis using tiles_apart(3-5) [OF assms(1) [unfolded ms]] by (simp add: m(2))
qed

section \<open>Properties\<close>

text \<open>
  C22. The allocator refines a set of ranges. In a state with the invariant every allocation (with a
  power of two as alignment and a size that can be rounded up) and every freeing of an allocated
  address ends without undefined behaviour and keeps the invariant; an allocation returns 0 and
  changes nothing, or returns an aligned address whose range, rounded up to 32 bytes, is added and
  meets no allocated one; freeing takes out exactly the range.
\<close>

theorem vmem_operations_refine:
  assumes "vmem_inv v xs" "vm_pre op (vm_allocs v xs)"
  shows "\<exists>addr v' xs'. vm_call op v = Some (addr, v') \<and> vmem_inv v' xs' \<and>
    startAddr v' = startAddr v \<and> totalSize v' = totalSize v \<and> vm_spec op (vm_allocs v xs) addr (vm_allocs v' xs')"
  by (rule vm_call_refines [OF assms])

text \<open>A memory of one megabyte at address 4096.\<close>

definition demo_vmem :: ITHVmem where
  "demo_vmem = \<lparr>startAddr = 4096, totalSize = 1048576, vm_mutex = True,
     mcbs = (\<lambda>_. \<lparr>mcb_addr = 0, mcb_size = 0, mcb_state = MCB_UNUSED\<rparr>), usedMcbCount = 0,
     vm_links = \<lparr>next_of = (\<lambda>_. None), prev_of = (\<lambda>_. None)\<rparr>, freeSize = 0\<rparr>"

lemma demo_vmem_free: "free_vmem demo_vmem"
  by (simp add: free_vmem_def demo_vmem_def)

theorem vmem_operations_refine_witness:
  "\<exists>v addr v' xs'. ithVmemInit demo_vmem = Some v \<and> ithVmemAlignedAlloc 64 100 v = Some (addr, v') \<and> vmem_inv v' xs' \<and>
     (addr = 0 \<or> 64 dvd unat addr)"
proof -
  obtain v where v: "ithVmemInit demo_vmem = Some v" "vmem_inv v [0]"
    using vmem_init_result [OF demo_vmem_free] by blast
  have "vm_pre (Alloc 6 100) (vm_allocs v [0])" by simp
  from vmem_operations_refine [OF v(2) this] v(1) show ?thesis by (auto split: if_splits)
qed



text \<open>
  An allocation that fits succeeds: when some free block has room for the rounded size behind
  the padding to the alignment, and two control blocks are unused, the address returned is not 0.
\<close>

theorem vmem_alloc_succeeds:
  assumes "vmem_inv v xs" "0 < n" "unat n \<le> 2 ^ 32 - 32" "k \<le> 31" "length xs + 2 \<le> ITH_VMEM_MCB_COUNT"
    and "i \<in> set xs" "has_room v (2 ^ k) (ITH_ALIGN_UP n 32) i"
  shows "\<exists>addr v'. ithVmemAlignedAlloc (2 ^ k) n v = Some (addr, v') \<and> addr \<noteq> 0"
  using vmem_alloc_result [OF assms(1-4) refl] assms(5-7) by blast

theorem vmem_alloc_succeeds_witness:
  "\<exists>v addr v'. ithVmemInit demo_vmem = Some v \<and> ithVmemAlignedAlloc 64 100 v = Some (addr, v') \<and> addr \<noteq> 0"
proof -
  obtain v where v: "ithVmemInit demo_vmem = Some v" "vmem_inv v [0]"
    using vmem_init_result [OF demo_vmem_free] by blast
  have "mcbs v 0 = \<lparr>mcb_addr = 4096, mcb_size = 1048576, mcb_state = MCB_FREE\<rparr>"
    using v(1) by (auto simp: ithVmemInit_def demo_vmem_def Let_def bits30_def)
  then have "has_room v (2 ^ 6) (ITH_ALIGN_UP 100 32) 0" by (simp add: has_room_def ITH_ALIGN_UP_def)
  from vmem_alloc_succeeds [OF v(2) _ _ _ _ _ this] v(1) show ?thesis by auto
qed

text \<open>
  Freeing an address that was never given out frees another block: the search that misses leaves
  its last block, and when that one is allocated \<open>ithVmemFree\<close> takes it out of the allocated
  ranges, although the address given is not its own.
\<close>

theorem vmem_free_unknown_frees_last:
  assumes "vmem_inv v (xs @ [b])" "mcb_state (mcbs v b) = MCB_ALLOCATED" "addr \<noteq> 0"
    and "\<forall>i \<in> set (xs @ [b]). mcb_addr (mcbs v i) \<noteq> addr"
  shows "\<exists>v' xs'. ithVmemFree addr v = Some v' \<and> vmem_inv v' xs' \<and>
    vm_allocs v' xs' = vm_allocs v (xs @ [b]) - {(mcb_addr (mcbs v b), mcb_size (mcbs v b))}"
proof -
  have vl: "vm_list v ([] @ xs @ [b])" using assms(1) by (simp add: vmem_inv_def vm_ok_def)
  have b: "b \<in> set (xs @ [b])" by simp
  have "find (\<lambda>i. mcb_addr (mcbs v i) = addr) (xs @ [b]) = None" using assms(4) by (auto simp: find_None_iff)
  then have "find_mcb v addr (next_of (vm_links v) VHead) None = Some (Some b)"
    using find_mcb_result [OF vl] vm_list_first [OF vl] by simp
  then have "ithVmemFree addr v = ithVmemFree (mcb_addr (mcbs v b)) v"
    using vmem_find(1,2) [OF assms(1) b] assms(3) by (simp add: ithVmemFree_def)
  moreover have "(mcb_addr (mcbs v b), mcb_size (mcbs v b)) \<in> allocs (map (mcbs v) (xs @ [b]))"
    using assms(2) by simp
  ultimately show ?thesis using vmem_free_result [OF assms(1)] by (fastforce simp: vm_allocs_def)
qed

text \<open>A memory of 64 bytes, all allocated.\<close>

definition full_vmem :: ITHVmem where
  "full_vmem = \<lparr>startAddr = 4096, totalSize = 64, vm_mutex = True,
     mcbs = (\<lambda>_. \<lparr>mcb_addr = 0, mcb_size = 0, mcb_state = MCB_UNUSED\<rparr>)
       (0 := \<lparr>mcb_addr = 4096, mcb_size = 64, mcb_state = MCB_ALLOCATED\<rparr>), usedMcbCount = 1,
     vm_links = ithListPushFront VHead (Mcb 0) \<lparr>next_of = (\<lambda>_. None), prev_of = (\<lambda>_. None)\<rparr>, freeSize = 0\<rparr>"

theorem vmem_free_unknown_frees_last_witness:
  "\<exists>v' xs'. ithVmemFree 4128 full_vmem = Some v' \<and> vm_allocs full_vmem [0] = {(4096, 64)} \<and> vm_allocs v' xs' = {}"
proof -
  have "dlist (vm_links full_vmem) VHead [Mcb 0]"
    using push_front [of "\<lparr>next_of = (\<lambda>_. None), prev_of = (\<lambda>_. None)\<rparr>" VHead "[]" "Mcb 0"]
    by (simp add: full_vmem_def dlist_def)
  then have inv: "vmem_inv full_vmem ([] @ [0])"
    by (auto simp: vmem_inv_def vm_ok_def vm_list_def full_vmem_def)
  have all: "vm_allocs full_vmem [0] = {(4096, 64)}" by (simp add: vm_allocs_def full_vmem_def)
  from vmem_free_unknown_frees_last [OF inv, of 4128] all show ?thesis by (auto simp: full_vmem_def vm_allocs_def)
qed

end
