(* ===== verification/Spec2Isabelle.thy ===== *)
theory Spec2Isabelle
  imports UG_Files_Crc UG_Package UG_Dirs CB_Main UG_RawData ITC_Tree ITC_Url ITC_Crc16 ITC_Buffer_Stream ITC_List_Stream ITH_Vmem_Spec
begin

text \<open>
  A verification development for the control board application of the ITE SDK
  (\<open>project/ctrlboard\<close>) and the parts of the SDK it rests on. This theory imports all others and holds
  the property that spans them: saved settings survive damage of the public drive.

  \<^bold>\<open>The program and its parts.\<close> The board keeps its files on a public drive, with a file of their
  checksums (\<open>ite_crc.dat\<close>) and a copy of the settings on a backup drive. At the start (\<open>main.c\<close>) it
  checks the public drive (\<open>upgrade.c\<close>, \<open>ug_filecrc.c\<close>), restores it from the backup when the
  check fails or brings the backup up to date (\<open>backup.c\<close>), loads the settings (\<open>config.c\<close> over the
  ini library) and runs the user interface. Settings are saved in the background: the ini file is written,
  its checksum stored and the backup refreshed. The user interface can quit with a request to upgrade; then
  \<open>upgrade.c\<close> finds a package on a USB stick, on a server or in memory, reads it through a stream
  (\<open>sdk/share/itc\<close>), checks its checksum and hands it to the upgrade library (\<open>sdk/share/upgrade\<close>),
  which marks its progress on the boot medium, formats drives and writes files and raw data, each read back
  and compared. A factory reset copies the backup of the factory over the drives. The graphics of the board
  get their memory from the allocator of \<open>sdk/driver/ith/ith_vmem.c\<close>, and their widgets are nodes
  of the tree of \<open>itc_tree.c\<close>.

  \<^bold>\<open>Theories and code.\<close>
  \<^item> Prelude: machine types, regions of bytes, \<open>memcpy\<close>, little-endian packing.
  \<^item> ITC_Stream, ITC_Array_Stream, ITC_File_Stream, ITC_Buffer_Stream, ITC_List_Stream
    (\<open>itc_stream.c\<close>, \<open>itc_arraystream.c\<close>, \<open>itc_filestream.c\<close>,
    \<open>itc_bufferstream.c\<close>, \<open>itc_liststream.c\<close>): a stream is a record that extends the base
    structure, a class is the record \<open>itc_vt\<close> of its operations, a call through it is a call of the
    field. The locales \<open>itc_source\<close> and \<open>stream_frame\<close> are what readers rely on; the array
    and the file stream are interpretations. The ring and the list stream refine a queue of bytes. Posix_Mutex
    is the mutex they use (\<open>itp_posix_openrtos.c\<close>) as one thread sees it.
  \<^item> ITC_Tree, ITC_Url, ITC_Crc16 (\<open>itc_tree.c\<close>, \<open>itc_url.c\<close>, \<open>itc_crc.c\<close>): the tree is
    a heap of three links per node, its operations refine those on lists of children; encoding of URLs and its
    inverse; the 16-bit checksum.
  \<^item> ITH_List (\<open>ith_utility.c\<close>): doubly linked lists over a heap of links refine lists.
    ITH_Vmem, ITH_Vmem_Spec (\<open>ith_vmem.c\<close>): the list of memory control blocks, the invariant that they
    tile the memory, and the refinement of a set of disjoint ranges.
  \<^item> Stdio, Dirent, Posix_Device: what the code uses of files, directories and block devices, with
    everything that can go wrong there: full, unwritable, unreadable or lying media.
  \<^item> UG_Crc_Table, UG_Crc (\<open>ug_crc.c\<close>): the checksum of packages and files; UG_Files_Crc
    (\<open>ug_filecrc.c\<close>): the checksum file; UG_Mark (\<open>ug_mark.c\<close>): the mark and its state
    machine; UG_Copy, UG_File (\<open>ug_file.c\<close>), UG_RawData (\<open>ug_rawdata.c\<close>),
    UG_Partition (\<open>ug_device.c\<close>, \<open>ug_partition.c\<close>, \<open>ug_end.c\<close>,
    \<open>ug_unformatted.c\<close>), UG_Package (\<open>ug_package.c\<close>): the blocks of a package and the loop
    over them; UG_Reset, UG_Dirs (\<open>ug_reset.c\<close>, \<open>ug_directory.c\<close>): copying files, walks over
    directories, the factory reset. The locale \<open>byte_reader\<close> is what the loops that copy and verify
    rely on, interpreted by files.
  \<^item> INI_Dictionary (\<open>dictionary.c\<close>): three arrays of slots that refine a map; the locale
    \<open>map_store\<close> states what a store promises and is interpreted by it. INI_Parser, INI_Roundtrip
    (\<open>iniparser.c\<close>): lines, sections and values, the printer and the loader, and their round trip.
  \<^item> CB_Backup, CB_Storage, CB_Upgrade, CB_Config, CB_Saving, CB_Main (\<open>backup.c\<close>,
    \<open>storage.c\<close>, \<open>upgrade.c\<close>, \<open>config.c\<close>, \<open>main.c\<close>): the modules of the
    board. CB_Saving is a step relation: the tasks that save the settings, interleaved with each other, with
    changes and with requests. The modules meet in CB_Main and here.

  \<^bold>\<open>How the code is translated.\<close> A function of the code is a definition of the same name. The static
  variables of a module are a record that is passed and returned. Every operation returns an option:
  \<open>None\<close> is undefined behaviour (an access outside a buffer, a NULL pointer that is read), a failed
  assertion or a loop that does not end, so a result \<open>Some\<close> is a claim of safety and termination.
  Error codes are returned as the code returns them; many are line numbers of the sources. Integers of a
  fixed width are words and wrap around; a C \<open>int\<close> that holds a size or a position is an integer whose
  bounds are in the invariants. Loops over data that shrinks are functions with a measure; searches in the
  arrays count upwards to the size; loops over linked data, pointers into buffers and directories are
  \<open>partial_function (option)\<close>, and their ends are proved. There is no fuel anywhere. The one bound of the
  program on its own repetition is the counter of restorations in \<open>main.c\<close>, which is the measure there.

  \<^bold>\<open>What the lemmas show.\<close> Each component has its invariant and lemmas for every operation on every
  path; then its properties. The claims are labelled and numbered in the order of their importance: what an
  upgrade installs and when (CB_Upgrade, UG_Package), that settings survive (here, CB_Main, CB_Config,
  INI_Roundtrip), the verdicts of the checksums, the verification of what was written, the mark under loss of
  power, resets and backups, the storage selection, the allocator, trees, streams, and the errors of the code.
  Behaviour that contradicts the intention of the code is proved as it is: the swapped copy of the ring
  buffer, the truncated package that counts as installed, the download that overruns its buffer, the
  assertion a missing file runs into, the request to save that is lost and the wireless settings that are
  never saved.

  \<^bold>\<open>Parameters.\<close> What is not in the sources is an argument: \<open>malloc\<close> and \<open>calloc\<close> (which sizes
  succeed, what the memory holds), \<open>statvfs\<close>, the order in which \<open>readdir\<close> delivers entries, the
  tables of drives, the requests to the FAT driver, the NOR reads behind it, what a server sends, the bytes of
  an uninitialised array on the stack, the numbers of the configuration, and the user interface between start
  and end of the process. Hypotheses about them say that allocations succeed with the size asked for, that
  \<open>readdir\<close> lists what is there, once, and that media are sound where a property needs it; the witnesses
  instantiate all of them.

  \<^bold>\<open>Not modelled.\<close> The FreeRTOS kernel, its allocator and the boot code, codecs, the drivers of
  devices, networks and USB, the FAT file system and the vendored libraries (SQLite, libxml, curl and others)
  are third-party code or accesses to registers. The graphical toolkit (\<open>sdk/share/itu\<close>) paints
  widgets on the hardware; its tree is modelled. The screens, scenes, the logo and the photo viewer of the board call
  graphics libraries and keep timers in floating point. \<open>iniparser_getdouble\<close> reads a floating-point
  number and has no caller on the board; \<open>ithVmemStats\<close> prints. Of the POSIX layer only the
  mutex carries logic the modelled code depends on. The timing of concurrent accesses is modelled for the
  tasks that save the settings; the streams are described as one thread uses them.
\<close>

section \<open>From a save to the next start\<close>

definition ini_name :: bytes where
  "ini_name = c_str ''ctrlboard.ini''"

lemma ini_path_drive: "ini_path ce = drive_file (up_public (ce_up ce)) ini_name"
  by (simp add: ini_path_def drive_file_def ini_name_def)

lemma ini_name_simps [simp]: "ini_name \<noteq> crc_name" "crc_name \<noteq> ini_name" "length ini_name = 13" "0 \<notin> set ini_name"
  by (simp_all add: ini_name_def crc_name_def c_str_def)

lemma drive_file_inject [simp]: "drive_file d n = drive_file d m \<longleftrightarrow> n = m"
  by (simp add: drive_file_def)

text \<open>The public drive passes the check, its checksum file and the settings are in the list.\<close>

definition board_checked :: "upgrade_env \<Rightarrow> bytes list \<Rightarrow> entries \<Rightarrow> fsys \<Rightarrow> bool" where
  "board_checked up names es fs \<longleftrightarrow> {crc_name, ini_name} \<subseteq> set names \<and> distinct (map fst es) \<and>
     fs_files fs (drive_file (up_public up) crc_name) = Some (crc_file es) \<and>
     entries_ok (de_path_max (up_dir up)) (up_public up @ [58]) es \<and>
     (\<forall>(name, c) \<in> set es. \<exists>n \<in> set names. name = 47 # n \<and> n \<noteq> crc_name \<and>
        (\<exists>b. fs_files fs (drive_file (up_public up) n) = Some b \<and> c = crc_of b))"

text \<open>Room for the new files and their copies.\<close>

definition save_room :: "dictionary \<Rightarrow> entries \<Rightarrow> bytes list \<Rightarrow> nat" where
  "save_room d es names = (length names + 1) * (ini_room d + length (crc_file es) + 20)"

text \<open>What a save needs: the configurations of the modules agree, all files are there and fit.\<close>

definition save_ready :: "config_env \<Rightarrow> bytes list \<Rightarrow> dictionary \<Rightarrow> entries \<Rightarrow> fsys \<Rightarrow> bool" where
  "save_ready ce names d es fs \<longleftrightarrow> (let up = ce_up ce; bk = ce_bk ce in
     up_check_on_boot up \<and> bk_config bk = up_public up \<and> length (up_public up) = 1 \<and> 16 < de_path_max (up_dir up) \<and>
     board_checked up names es fs \<and> sync_ready bk names fs (bk_config bk) (bk_backup bk) \<and>
     env_ok (up_malloc up) (env_buf_size (up_ug up)) fs \<and>
     (\<forall>n \<in> {crc_name, ini_name}. writable fs (drive_file (up_public up) n)) \<and>
     drive_size fs (bk_config bk) names + save_room d es names \<le> fs_room fs \<and> save_room d es names < 2 ^ 31 \<and>
     (\<forall>n. ce_alloc ce n))"

lemma drive_size_grows:
  assumes "\<And>n. n \<in> set names \<Longrightarrow> length (file_bytes fs' (drive_file d n)) \<le> length (file_bytes fs (drive_file d n)) + k"
  shows "drive_size fs' d names \<le> drive_size fs d names + length names * k"
  using assms
proof (induction names)
  case (Cons n names)
  then have "drive_size fs' d names \<le> drive_size fs d names + length names * k" by simp
  then show ?case using Cons.prems [of n] by (simp add: drive_size_def)
qed (simp add: drive_size_def)

lemma entries_ok_set:
  assumes "entries_ok path_max path es" "0 \<notin> set name" "length path + length name < path_max"
    and "length (crc_file es) + (length name + 5) < 2 ^ 31" "distinct (map fst es)"
  shows "entries_ok path_max path (set_entry name c es)"
  using assms length_encode_set_entry [of name c es] by (auto simp: entries_ok_def set_entry_set crc_file_def)

lemma save_round_result:
  assumes st: "cfgIni st = Some d" "dict_ok d" "ini_plain d" "has_sections d" "config_plain (ce_path_max ce) (theConfig st)"
    and ready: "save_ready ce names d es fs"
  shows "\<exists>ini t fs1 es'. save_round ce names st fs = Some (st\<lparr>cfgIni := ini\<rparr>, fs1) \<and>
    fs_files fs1 (drive_file (bk_backup (ce_bk ce)) ini_name) = Some t \<and> backup_valid (ce_up ce) (ce_bk ce) names es' fs1 \<and>
    length t \<le> ini_room d \<and> length (crc_file es') \<le> length (crc_file es) + 19 \<and>
    (\<forall>fs2 st0. fs_files fs2 (ini_path ce) = Some t \<longrightarrow> fs_fault fs2 (ini_path ce) = None \<longrightarrow>
      (\<exists>st2. ConfigInit ce fs2 st0 = Some st2 \<and> theConfig st2 = theConfig st))"
proof -
  let ?up = "ce_up ce" and ?bk = "ce_bk ce"
  let ?A = "up_public ?up" and ?B = "bk_backup ?bk" and ?p = "ini_path ce"
  note r = ready [unfolded save_ready_def Let_def]
  note checked = r [unfolded board_checked_def]
  have A: "bk_config ?bk = ?A" using r by simp
  note sync = r [unfolded A sync_ready_def]
  have sound: "fs_sound fs" using sync by simp
  have crc_path: "crc_file_path ?up = drive_file ?A crc_name" by (rule crc_file_path_drive)
  let ?k = "ini_room d + length (crc_file es) + 20"
  have room: "drive_size fs ?A names + (length names * ?k + ?k) \<le> fs_room fs" and small: "?k < 2 ^ 31"
    using r by (simp_all add: A save_room_def)
  have s: "dict_map d (c_str ''tcpip'') \<noteq> None" "dict_map d (c_str ''ctrlboard'') \<noteq> None" "dict_map d (c_str ''wifi'') \<noteq> None"
    using st(4) by (simp_all add: has_sections_def)
  have p: "writable fs ?p" using r by (simp add: ini_path_drive)
  obtain ini t where save: "ConfigSavePublic ce st fs = Some (st\<lparr>cfgIni := ini\<rparr>,
        fs\<lparr>fs_files := (fs_files fs)(?p := Some t), fs_room := fs_room fs - length t\<rparr>)" "length t \<le> ini_room d"
      and init: "\<forall>fs2 st0. fs_files fs2 ?p = Some t \<longrightarrow> fs_fault fs2 ?p = None \<longrightarrow>
        (\<exists>st2. ConfigInit ce fs2 st0 = Some st2 \<and> theConfig st2 = theConfig st)"
    using save_exact [OF st(1-3) s(1,2) st(5) sound p] room r unfolding if_not_P [OF s(3)] by auto
  let ?fs2 = "fs\<lparr>fs_files := (fs_files fs)(?p := Some t), fs_room := fs_room fs - length t\<rparr>"
  let ?name = "47 # ini_name"
  define es' where "es' = set_entry ?name (crc_of t) es"
  let ?new = "crc_file es'"
  let ?fs3 = "?fs2\<lparr>fs_files := (fs_files ?fs2)(crc_file_path ?up := Some ?new), fs_room := fs_room ?fs2 - length ?new\<rparr>"
  have new: "length ?new \<le> length (crc_file es) + 19"
    using length_encode_set_entry [of ?name "crc_of t" es] by (simp add: crc_file_def es'_def)
  have env2: "env_ok (up_malloc ?up) (env_buf_size (up_ug ?up)) ?fs2"
    using r save(2) small by (auto simp: env_ok_def fs_sound_def files_small_def)
  have p2: "?p = (?A @ [58]) @ ?name" by (simp add: ini_path_drive drive_file_def)
  have "ugSetFileCrc (up_malloc ?up) (env_buf_size (up_ug ?up)) (de_path_max (up_dir ?up)) ?fs2 ?name (?A @ [58])
      (crc_file_path ?up) = Some (0, ?fs3)"
  proof (rule file_set [OF _ env2, of _ es])
    show "fs_files ?fs2 (crc_file_path ?up) = Some (crc_file es)" using checked by (simp add: crc_path ini_path_drive)
    show "\<forall>(n, c) \<in> set es. 0 \<notin> set n" using checked by (auto simp: entries_ok_def)
    show "fs_files ?fs2 ((?A @ [58]) @ ?name) = Some t" by (simp add: p2)
    show "writable ?fs2 (crc_file_path ?up)" using r by (simp add: crc_path writable_def)
    show "?new = crc_file (set_entry ?name (crc_of t) es)" by (simp add: es'_def)
    show "length ?new \<le> fs_room ?fs2" using new save(2) room by simp
  qed (use r small in simp_all)
  moreover have "take 1 ?p = take 1 ?A" "drop 2 ?p = ?name" using r by (auto simp: p2)
  ultimately have crc: "UpgradeSetFileCrc ?up ?fs2 ?p = Some ?fs3" by (simp add: UpgradeSetFileCrc_def)
  have neq: "drive_file ?B n \<noteq> drive_file ?A m" for n m using drive_file_neq sync by metis
  have files3: "fs_files ?fs3 (drive_file ?A ini_name) = Some t" "fs_files ?fs3 (drive_file ?A crc_name) = Some ?new"
      "\<And>n. n \<noteq> ini_name \<Longrightarrow> n \<noteq> crc_name \<Longrightarrow> fs_files ?fs3 (drive_file ?A n) = fs_files fs (drive_file ?A n)"
      "\<And>n. fs_files ?fs3 (drive_file ?B n) = fs_files fs (drive_file ?B n)"
    by (simp_all add: crc_path ini_path_drive neq)
  have small3: "\<exists>b. fs_files ?fs3 (drive_file ?A n) = Some b \<and> length b < 2 ^ 31" if "n \<in> set names" for n
    using that sync files3(1,2) files3(3) [of n] new save(2) small by (cases "n = ini_name \<or> n = crc_name") auto
  have "length (file_bytes ?fs3 (drive_file ?A n)) \<le> length (file_bytes fs (drive_file ?A n)) + ?k" for n
    using files3(1,2) files3(3) [of n] new save(2) unfolding file_bytes_def by (cases "n = ini_name \<or> n = crc_name") auto
  then have "drive_size ?fs3 ?A names \<le> drive_size fs ?A names + length names * ?k" by (rule drive_size_grows)
  then have "drive_size ?fs3 ?A names \<le> fs_room ?fs3" using room new save(2) by simp
  then have ready3: "sync_ready ?bk names ?fs3 ?A ?B"
    using sync small3 files3(4) by (simp add: sync_ready_def fs_sound_def writable_def)
  obtain fs4 where fs4: "FileSyncFile ?bk names ?fs3 ?A ?B = Some fs4" "synced names ?fs3 ?A ?B fs4"
    using FileSyncFile_result [OF ready3] by blast
  have copy: "fs_files fs4 (drive_file ?B n) = fs_files ?fs3 (drive_file ?A n)" if "n \<in> set names" for n
    using fs4(2) that by (simp add: synced_def)
  have names: "crc_name \<in> set names" "ini_name \<in> set names" using checked by simp_all
  have "entries_ok (de_path_max (up_dir ?up)) (?A @ [58]) es'"
    unfolding es'_def using checked small by (intro entries_ok_set) simp_all
  moreover have "\<exists>n \<in> set names. name = 47 # n \<and> (\<exists>b. fs_files fs4 (drive_file ?B n) = Some b \<and> c = crc_of b)"
    if e: "(name, c) \<in> set es'" for name c
  proof (cases "name = ?name")
    case True
    then have "c = crc_of t" using e checked by (auto simp: es'_def set_entry_set)
    then show ?thesis using True copy [OF names(2)] files3(1) names(2) by auto
  next
    case False
    then have "(name, c) \<in> set es" using e checked by (auto simp: es'_def set_entry_set)
    then obtain n b where n: "n \<in> set names" "name = 47 # n" "n \<noteq> crc_name" "fs_files fs (drive_file ?A n) = Some b" "c = crc_of b"
      using checked by blast
    then show ?thesis using False copy [OF n(1)] files3(3) [of n] by auto
  qed
  ultimately have valid: "backup_valid ?up ?bk names es' fs4"
    using names(1) copy [OF names(1)] files3(2) by (auto simp: backup_valid_def)
  have "save_round ce names st fs = Some (st\<lparr>cfgIni := ini\<rparr>, fs4)"
    using save(1) crc fs4(1) r by (simp add: save_round_def BackupSave_def A)
  moreover have "fs_files fs4 (drive_file ?B ini_name) = Some t" using copy [OF names(2)] files3(1) by simp
  ultimately show ?thesis using valid init save(2) new by blast
qed

text \<open>A start that finds every file of the list on both drives, and room.\<close>

definition start_ready :: "config_env \<Rightarrow> bytes list \<Rightarrow> fsys \<Rightarrow> bool" where
  "start_ready ce names fs \<longleftrightarrow> (let bk = ce_bk ce in
     TraverseFileList bk fs (list_root bk) [] = Some names \<and> fs_files fs (special_file (bk_config bk)) = None \<and>
     sync_ready bk names fs (bk_config bk) (bk_backup bk) \<and> sync_ready bk names fs (bk_backup bk) (bk_config bk) \<and>
     2 * drive_size fs (bk_backup bk) names \<le> fs_room fs \<and>
     env_ok (up_malloc (ce_up ce)) (env_buf_size (up_ug (ce_up ce))) fs)"

text \<open>
  The next start hands the settings \<open>c\<close> to the user interface, when its check fails and the copies on the
  backup drive are those of \<open>fs1\<close>.
\<close>

definition restarts_with :: "config_env \<Rightarrow> bytes list \<Rightarrow> Config \<Rightarrow> fsys \<Rightarrow> bool" where
  "restarts_with ce names c fs1 \<longleftrightarrow> (\<forall>s r disk drives web scene cfg.
     start_ready ce names (st_fs s) \<longrightarrow>
     (\<forall>n \<in> set names. fs_files (st_fs s) (drive_file (bk_backup (ce_bk ce)) n) = fs_files fs1 (drive_file (bk_backup (ce_bk ce)) n)) \<longrightarrow>
     boot_check (ce_up ce) (st_fs s) = Some r \<longrightarrow> r \<noteq> 0 \<longrightarrow>
     (\<exists>cfg1 s1. SDL_main ce disk drives web scene cfg s = run_board ce disk drives web scene names cfg1 s1 \<and>
        theConfig cfg1 = c \<and> synced names (st_fs s) (bk_backup (ce_bk ce)) (bk_config (ce_bk ce)) (st_fs s1)))"

lemma restarts_withI:
  assumes on: "up_check_on_boot (ce_up ce)" and A: "bk_config (ce_bk ce) = up_public (ce_up ce)" and names: "ini_name \<in> set names"
    and t: "fs_files fs1 (drive_file (bk_backup (ce_bk ce)) ini_name) = Some t" and valid: "backup_valid (ce_up ce) (ce_bk ce) names es fs1"
    and init: "\<forall>fs2 st0. fs_files fs2 (ini_path ce) = Some t \<longrightarrow> fs_fault fs2 (ini_path ce) = None \<longrightarrow>
      (\<exists>st2. ConfigInit ce fs2 st0 = Some st2 \<and> theConfig st2 = c)"
  shows "restarts_with ce names c fs1"
  unfolding restarts_with_def
proof (intro allI impI)
  fix s r disk drives web scene cfg
  let ?up = "ce_up ce" and ?bk = "ce_bk ce"
  assume start: "start_ready ce names (st_fs s)" "boot_check ?up (st_fs s) = Some r" "r \<noteq> 0"
    and kept: "\<forall>n \<in> set names. fs_files (st_fs s) (drive_file (bk_backup ?bk) n) = fs_files fs1 (drive_file (bk_backup ?bk) n)"
  note b = start(1) [unfolded start_ready_def Let_def]
  have "backup_valid ?up ?bk names es (st_fs s)" using valid kept unfolding backup_valid_def by auto
  then obtain s1 where s1: "boot ?up ?bk [] s = Some (0, names, s1)" "synced names (st_fs s) (bk_backup ?bk) (bk_config ?bk) (st_fs s1)"
    using boot_repairs [OF on A, of s names r es] b start(2,3) by auto
  have "fs_files (st_fs s1) (ini_path ce) = Some t" "fs_fault (st_fs s1) (ini_path ce) = None"
    using s1(2) names kept t b by (auto simp: synced_def ini_path_drive A sync_ready_def fs_sound_def)
  then obtain cfg1 where "ConfigInit ce (st_fs s1) cfg = Some cfg1" "theConfig cfg1 = c" using init by blast
  then show "\<exists>cfg1 s1. SDL_main ce disk drives web scene cfg s = run_board ce disk drives web scene names cfg1 s1 \<and>
      theConfig cfg1 = c \<and> synced names (st_fs s) (bk_backup ?bk) (bk_config ?bk) (st_fs s1)"
    using s1 by (auto simp: SDL_main_def)
qed

lemma restarts_withD:
  assumes "restarts_with ce names c fs1" "start_ready ce names (st_fs s)"
    and "\<forall>n \<in> set names. fs_files (st_fs s) (drive_file (bk_backup (ce_bk ce)) n) = fs_files fs1 (drive_file (bk_backup (ce_bk ce)) n)"
    and "boot_check (ce_up ce) (st_fs s) = Some r" "r \<noteq> 0"
  shows "\<exists>cfg1 s1. SDL_main ce disk drives web scene cfg s = run_board ce disk drives web scene names cfg1 s1 \<and> theConfig cfg1 = c"
  using assms unfolding restarts_with_def by metis

section \<open>The property\<close>

text \<open>
  C3. Saved settings survive damage of the public drive, from the save to the next start. On a board whose
  public drive passes its check, the save round ends: it writes the settings, their checksum and the copies
  on the backup drive. Whatever then happens to the state, as long as the files of the list are there and
  the copies on the backup drive are those of the save: when the check at the next start fails, the start
  restores the public drive and hands the saved settings to the user interface.
\<close>

theorem saved_settings_survive_damage:
  assumes "cfgIni st = Some d" "dict_ok d" "ini_plain d" "has_sections d" "config_plain (ce_path_max ce) (theConfig st)"
    and "save_ready ce names d es fs"
  shows "\<exists>st1 fs1. save_round ce names st fs = Some (st1, fs1) \<and> theConfig st1 = theConfig st \<and>
    restarts_with ce names (theConfig st) fs1"
proof -
  have r: "ini_name \<in> set names" "bk_config (ce_bk ce) = up_public (ce_up ce)" "up_check_on_boot (ce_up ce)"
    using assms(6) by (simp_all add: save_ready_def Let_def board_checked_def)
  obtain ini t fs1 es' where "save_round ce names st fs = Some (st\<lparr>cfgIni := ini\<rparr>, fs1)"
      "fs_files fs1 (drive_file (bk_backup (ce_bk ce)) ini_name) = Some t" "backup_valid (ce_up ce) (ce_bk ce) names es' fs1"
      "\<forall>fs2 st0. fs_files fs2 (ini_path ce) = Some t \<longrightarrow> fs_fault fs2 (ini_path ce) = None \<longrightarrow>
        (\<exists>st2. ConfigInit ce fs2 st0 = Some st2 \<and> theConfig st2 = theConfig st)"
    using save_round_result [OF assms] by blast
  then show ?thesis using restarts_withI [OF r(3,2,1)] by (intro exI [of _ "st\<lparr>cfgIni := ini\<rparr>"] exI [of _ fs1]) simp
qed

text \<open>A board with an empty file of settings and no entries in its checksum file.\<close>

definition board_env :: config_env where
  "board_env = \<lparr>ce_alloc = (\<lambda>_. True), ce_path_max = 256, ce_up = boot_up,
     ce_bk = demo_bk\<lparr>bk_dir := demo_dir_env [crc_name, ini_name]\<rparr>\<rparr>"

definition board_fs :: "bytes \<Rightarrow> bytes \<Rightarrow> bytes \<Rightarrow> fsys" where
  "board_fs crc bcrc bini = (demo_tree [path_join (backup_root [68]) [65]]
     [path_join (path_join (backup_root [68]) [65]) crc_name \<mapsto> [], path_join (path_join (backup_root [68]) [65]) ini_name \<mapsto> [],
      drive_file [65] crc_name \<mapsto> crc, drive_file [65] ini_name \<mapsto> [],
      drive_file [66] crc_name \<mapsto> bcrc, drive_file [66] ini_name \<mapsto> bini])\<lparr>fs_room := 1000000\<rparr>"

lemma board_demo:
  "up_public boot_up = [65]" "bk_config (ce_bk board_env) = [65]" "bk_backup (ce_bk board_env) = [66]" "ce_up board_env = boot_up"
  "up_check_on_boot boot_up" "up_malloc boot_up = (\<lambda>n. Some (replicate n 0))" "env_buf_size (up_ug boot_up) = 4"
  "de_path_max (up_dir boot_up) = 64" "de_malloc (bk_dir (ce_bk board_env)) = (\<lambda>n. Some (replicate n 0))"
  "ce_alloc board_env = (\<lambda>_. True)" "ce_path_max board_env = 256"
  by (simp_all add: board_env_def boot_demo demo_bk_def demo_dir_env_def)

lemma board_names: "crc_name = [105, 116, 101, 95, 99, 114, 99, 46, 100, 97, 116]"
  "ini_name = [99, 116, 114, 108, 98, 111, 97, 114, 100, 46, 105, 110, 105]"
  by (simp_all add: crc_name_def ini_name_def c_str_def of_char_def)

lemma board_files:
  "fs_files (board_fs crc bcrc bini) (drive_file [65] crc_name) = Some crc"
  "fs_files (board_fs crc bcrc bini) (drive_file [65] ini_name) = Some []"
  "fs_files (board_fs crc bcrc bini) (drive_file [66] crc_name) = Some bcrc"
  "fs_files (board_fs crc bcrc bini) (drive_file [66] ini_name) = Some bini"
  "fs_files (board_fs crc bcrc bini) (special_file [65]) = None"
  "fs_room (board_fs crc bcrc bini) = 1000000" "fs_sound (board_fs crc bcrc bini)"
  "\<And>d n. d \<in> {65, 66} \<Longrightarrow> writable (board_fs crc bcrc bini) (drive_file [d] n)"
  by (auto simp: board_fs_def demo_tree_def drive_file_def board_names path_join_def backup_root_def fs_sound_def writable_def
      special_file_def of_char_def)

lemma board_traverse:
  "TraverseFileList (ce_bk board_env) (board_fs crc bcrc bini) (list_root (ce_bk board_env)) [] = Some [crc_name, ini_name]"
  by (subst TraverseFileList.simps, simp add: list_root_def board_env_def demo_bk_def demo_dir_env_def demo_listing_def
      board_fs_def demo_tree_def backup_root_def strip_slash_def path_join_def present_def dot_entry_def path_buf_def
      board_names drive_file_def is_removal_def add_backup_def MAX_BACKUP_COUNT_def)

lemma board_sync:
  assumes "length crc < 1000" "length bcrc < 1000" "length bini < 100000"
  shows "sync_ready (ce_bk board_env) [crc_name, ini_name] (board_fs crc bcrc bini) [65] [66]"
    "sync_ready (ce_bk board_env) [crc_name, ini_name] (board_fs crc bcrc bini) [66] [65]"
  using assms by (simp_all add: sync_ready_def board_demo board_files drive_size_def file_bytes_def CB_Backup.alloc_ok_def)
    (simp_all add: drive_file_def board_names)

lemma board_env_ok:
  assumes "length crc < 1000" "length bcrc < 1000" "length bini < 100000"
  shows "env_ok (up_malloc boot_up) (env_buf_size (up_ug boot_up)) (board_fs crc bcrc bini)"
  using assms by (simp add: env_ok_def board_demo board_files files_small_def UG_Files_Crc.alloc_ok_def)
    (auto simp: board_fs_def demo_tree_def)

theorem saved_settings_survive_damage_witness:
  "\<exists>d st1 fs1 s cfg1 s1. save_round board_env [crc_name, ini_name]
       \<lparr>theConfig = demo_config, cfgIni = Some d, cfgIsSaving = False, cfgSavingCount = False\<rparr>
       (board_fs (crc_file []) [] []) = Some (st1, fs1) \<and>
     boot_check boot_up (st_fs s) = Some 143 \<and>
     SDL_main board_env 0 [] None (\<lambda>cfg _ st. Some (0, cfg, st)) st1 s =
       run_board board_env 0 [] None (\<lambda>cfg _ st. Some (0, cfg, st)) [crc_name, ini_name] cfg1 s1 \<and>
     theConfig cfg1 = demo_config"
proof -
  let ?names = "[crc_name, ini_name]" and ?fs = "board_fs (crc_file []) [] []"
  obtain d where d: "dict_ok d" "ini_plain d" "has_sections d" "ini_room d \<le> 51302" using three_sections by blast
  let ?st = "\<lparr>theConfig = demo_config, cfgIni = Some d, cfgIsSaving = False, cfgSavingCount = False\<rparr>"
  have ini: "cfgIni ?st = Some d" by simp
  have c: "config_plain (ce_path_max board_env) (theConfig ?st)" using demo_config_plain by (simp add: board_demo)
  have len: "length (crc_file []) = 4" by (simp add: crc_file_def)
  have checked: "board_checked boot_up ?names [] ?fs"
    by (simp add: board_checked_def board_demo board_files entries_ok_def)
  have ready: "save_ready board_env ?names d [] ?fs"
    using d(4) len board_sync [of "crc_file []" "[]" "[]"] board_env_ok [of "crc_file []" "[]" "[]"] checked
    by (simp add: save_ready_def board_demo board_files drive_size_def file_bytes_def save_room_def)
  obtain ini t fs1 es' where r: "save_round board_env ?names ?st ?fs = Some (?st\<lparr>cfgIni := ini\<rparr>, fs1)"
      "fs_files fs1 (drive_file [66] ini_name) = Some t" "backup_valid boot_up (ce_bk board_env) ?names es' fs1"
      "length t \<le> ini_room d" "length (crc_file es') \<le> length (crc_file []) + 19"
    using save_round_result [OF ini d(1-3) c ready] by (auto simp: board_demo)
  have crc: "fs_files fs1 (drive_file [66] crc_name) = Some (crc_file es')" using r(3) by (simp add: backup_valid_def board_demo)
  let ?bad = "le32_bytes (crc_of [] + 1)"
  let ?s = "with_fs demo_up_state (board_fs ?bad (crc_file es') t)"
  have s: "st_fs ?s = board_fs ?bad (crc_file es') t" by (simp add: with_fs_def)
  have sizes: "length ?bad < 1000" "length (crc_file es') < 1000" "length t < 100000" using r(4,5) d(4) len by simp_all
  have start: "start_ready board_env ?names (st_fs ?s)"
    using board_sync [OF sizes] board_env_ok [OF sizes] sizes
    by (simp add: start_ready_def s board_traverse board_demo board_files drive_size_def file_bytes_def)
  have check: "boot_check (ce_up board_env) (st_fs ?s) = Some 143"
    using files_check [OF _ board_env_ok [OF sizes], of "drive_file [65] crc_name" "[]" "crc_of [] + 1" 64 "[65, 58]"]
    by (simp add: boot_check_def s board_demo crc_file_path_drive board_files entries_ok_def)
  have kept: "\<forall>n \<in> set ?names. fs_files (st_fs ?s) (drive_file (bk_backup (ce_bk board_env)) n) =
      fs_files fs1 (drive_file (bk_backup (ce_bk board_env)) n)"
    by (simp add: s board_demo board_files r(2) crc)
  obtain st1' fs1' where u: "save_round board_env ?names ?st ?fs = Some (st1', fs1')" "restarts_with board_env ?names demo_config fs1'"
    using saved_settings_survive_damage [OF ini d(1-3) c ready] by auto
  have same: "fs1' = fs1" using u(1) r(1) by simp
  obtain cfg1 s1 where "SDL_main board_env 0 [] None (\<lambda>cfg _ st. Some (0, cfg, st)) (?st\<lparr>cfgIni := ini\<rparr>) ?s =
      run_board board_env 0 [] None (\<lambda>cfg _ st. Some (0, cfg, st)) ?names cfg1 s1" "theConfig cfg1 = demo_config"
    using restarts_withD [OF u(2) start kept [folded same] check, of 0 "[]" None "\<lambda>cfg _ st. Some (0, cfg, st)" "?st\<lparr>cfgIni := ini\<rparr>"] by auto
  then show ?thesis using r(1) check unfolding board_demo by (intro exI [of _ d] exI [of _ "?st\<lparr>cfgIni := ini\<rparr>"] exI [of _ fs1] exI [of _ ?s] exI [of _ cfg1] exI [of _ s1]) simp
qed

end
